(* ===== verification/Prelude.thy ===== *)
theory Prelude
  imports Main "HOL-Library.Word"
begin

text \<open>
  Shared vocabulary of the development: identifiers, the outcome of a Rust operation
  (returned, unwound with a panic, or undefined behaviour), the list facts that the queue
  proofs share, and two interfaces over transition systems (invariants and simulations).
\<close>

section \<open>Identifiers and outcomes\<close>

type_synonym usize = "64 word"
type_synonym u8 = "8 word"
type_synonym tid = nat
type_synonym addr = usize

text \<open>
  The panics the crate can raise, by the message or the assertion that raises them, and
  \<open>UserPanic\<close> for the panics of callbacks and of client code.
\<close>

datatype panic =
    UserPanic nat
  | PoisonedMutex      \<comment> \<open>\<open>self.expect("poisoned std::sync::Mutex")\<close>\<close>
  | WrongMutex         \<comment> \<open>the address comparison of \<open>assert_mutex_good\<close>\<close>
  | ZstMutex           \<comment> \<open>the size assertion of \<open>assert_mutex_good\<close>\<close>
  | QueuePoisoned      \<comment> \<open>\<open>"a ContentionQueue was poisoned"\<close>\<close>
  | MutexPoisoned      \<comment> \<open>\<open>"the Mutex used for a ContentionQueue was poisoned"\<close>\<close>
  | NextIdxBug         \<comment> \<open>the \<open>expect\<close> of \<open>peek\<close> and \<open>pop\<close>\<close>
  | LockReentered      \<comment> \<open>a panic of \<open>Mutex::lock\<close> on a mutex the thread already holds\<close>

text \<open>
  What a safe caller can observe of a call, and what an operation of the crate can do: the
  latter adds undefined behaviour, which the model makes a value so that its absence is a
  theorem.
\<close>

datatype 'a outcome = Returned 'a | Unwound panic

datatype 'a res = Ret 'a | Unwind panic | UB

fun bind_res :: "'a res \<Rightarrow> ('a \<Rightarrow> 'b res) \<Rightarrow> 'b res" where
  "bind_res (Ret a) f = f a"
| "bind_res (Unwind p) f = Unwind p"
| "bind_res UB f = UB"

lemma bind_res_Ret: "bind_res r f = Ret b \<longleftrightarrow> (\<exists>a. r = Ret a \<and> f a = Ret b)"
  by (cases r) auto

text \<open>\<open>MaybeUninit\<close>: reading it while uninitialised is undefined behaviour.\<close>

datatype 'a MaybeUninit = Uninit | Init 'a

fun assume_init :: "'a MaybeUninit \<Rightarrow> 'a res" where
  "assume_init Uninit = UB"
| "assume_init (Init a) = Ret a"

fun_cases assume_initE: "assume_init x = r"

section \<open>Fact collections\<close>

named_theorems step_defs \<open>the definitions of the atomic steps\<close>

section \<open>Lists\<close>

text \<open>A list with one entry replaced, seen through a projection.\<close>

lemma map_list_update_same [simp]:
  "(i < length xs \<Longrightarrow> f x = f (xs ! i)) \<Longrightarrow> map f (xs[i := x]) = map f xs"
  by (cases "i < length xs") (simp_all add: map_update list_update_same_conv list_update_beyond)

lemma hd_list_update:
  "xs \<noteq> [] \<Longrightarrow> hd (xs[i := x]) = (if i = 0 then x else hd xs)"
  by (cases xs; cases i) auto

lemma distinct_hd_tl: "distinct xs \<Longrightarrow> xs \<noteq> [] \<Longrightarrow> hd xs \<notin> set (tl xs)"
  by (cases xs) auto

lemma set_tl_remove: "distinct xs \<Longrightarrow> xs \<noteq> [] \<Longrightarrow> set (tl xs) = set xs - {hd xs}"
  by (cases xs) auto

section \<open>Reachability, invariants and simulation\<close>

inductive reach :: "('s \<Rightarrow> 's \<Rightarrow> bool) \<Rightarrow> 's \<Rightarrow> 's \<Rightarrow> bool" for step where
  reach_refl: "reach step s s"
| reach_step: "reach step s s' \<Longrightarrow> step s' s'' \<Longrightarrow> reach step s s''"

lemma reach_trans: "reach step s' s'' \<Longrightarrow> reach step s s' \<Longrightarrow> reach step s s''"
  by (induction rule: reach.induct) (auto intro: reach_step)

text \<open>The contract of a state predicate that every step of a system keeps.\<close>

locale invariant =
  fixes step :: "'s \<Rightarrow> 's \<Rightarrow> bool"
    and inv :: "'s \<Rightarrow> bool"
  assumes step_inv: "step s s' \<Longrightarrow> inv s \<Longrightarrow> inv s'"
begin

lemma reach_inv: "reach step s s' \<Longrightarrow> inv s \<Longrightarrow> inv s'"
  by (induction rule: reach.induct) (auto intro: step_inv)

end

text \<open>
  A refinement: under the invariant, every step of the detailed system is a step of the
  abstract one on the abstracted states, or leaves the abstracted state alone.
\<close>

locale simulation = invariant step inv
  for step :: "'s \<Rightarrow> 's \<Rightarrow> bool" and inv :: "'s \<Rightarrow> bool" +
  fixes astep :: "'a \<Rightarrow> 'a \<Rightarrow> bool"
    and abs :: "'s \<Rightarrow> 'a"
  assumes sim: "step s s' \<Longrightarrow> inv s \<Longrightarrow> abs s' = abs s \<or> astep (abs s) (abs s')"
begin

lemma reach_sim: "reach step s s' \<Longrightarrow> inv s \<Longrightarrow> reach astep (abs s) (abs s')"
proof (induction rule: reach.induct)
  case (reach_refl s)
  show ?case by (rule reach.reach_refl)
next
  case (reach_step s s' s'')
  then have "inv s'" by (blast intro: reach_inv)
  with reach_step sim show ?case by (metis reach.reach_step)
qed

end

end
