(* ===== verification/Externally_Synchronized.thy ===== *)
theory Externally_Synchronized
  imports Prelude
begin

text \<open>
  \<open>src/externally_synchronized.rs\<close>: the two wrappers whose contents are reached through
  \<open>get_mut\<close>. A mutable reference is modelled by what can be done through it: reading the
  pointee and storing a new one. That no two such references are in use at once is the
  caller's obligation in the code; here it is the theorem about conflicting accesses of the
  concurrent model.
\<close>

section \<open>Places\<close>

text \<open>The laws of a mutable borrow: what is stored is what is read, and nothing else moves.\<close>

locale place =
  fixes get :: "'s \<Rightarrow> 'a" and put :: "'a \<Rightarrow> 's \<Rightarrow> 's"
  assumes get_put: "get (put a s) = a"
    and put_get: "put (get s) s = s"
    and put_put: "put a (put b s) = put a s"
begin

lemma modify_id: "put (f (get s)) s = s \<longleftrightarrow> f (get s) = get s"
  by (metis get_put put_get)

lemma modify_modify: "put (g (get (put (f (get s)) s))) (put (f (get s)) s) = put (g (f (get s))) s"
  by (simp add: get_put put_put)

end

text \<open>A place inside a place is a place.\<close>

locale nested_place = outer: place get put + inner: place get' put'
  for get :: "'s \<Rightarrow> 'a" and put and get' :: "'a \<Rightarrow> 'b" and put'
begin

sublocale composed: place "\<lambda>s. get' (get s)" "\<lambda>b s. put (put' b (get s)) s"
  by unfold_locales
    (simp_all add: outer.get_put outer.put_get outer.put_put inner.get_put inner.put_get
      inner.put_put)

end

section \<open>The wrappers\<close>

datatype 'a UnsafeMutexCell = UnsafeMutexCell (cell_get: 'a)

definition cell_new :: "'a \<Rightarrow> 'a UnsafeMutexCell" where
  "cell_new a = UnsafeMutexCell a"

definition cell_put :: "'a \<Rightarrow> 'a UnsafeMutexCell \<Rightarrow> 'a UnsafeMutexCell" where
  "cell_put a c = UnsafeMutexCell a"

datatype 'a NotShared = NotShared (ns_get: 'a)

definition ns_new :: "'a \<Rightarrow> 'a NotShared" where
  "ns_new a = NotShared a"

definition ns_put :: "'a \<Rightarrow> 'a NotShared \<Rightarrow> 'a NotShared" where
  "ns_put a c = NotShared a"

lemma cell_get_new [simp]: "cell_get (cell_new a) = a"
  by (simp add: cell_new_def)

lemma cell_get_put [simp]: "cell_get (cell_put a c) = a"
  by (simp add: cell_put_def)

lemma ns_get_new [simp]: "ns_get (ns_new a) = a"
  by (simp add: ns_new_def)

interpretation cell: place cell_get cell_put
  by unfold_locales (auto simp: cell_put_def)

interpretation ns: place ns_get ns_put
  by unfold_locales (auto simp: ns_put_def)

end
