(* ===== verification/Task_State.thy ===== *)
theory Task_State
  imports Externally_Synchronized
begin

text \<open>
  \<open>src/task_state.rs\<close>: the two-bit state of a queued task and its condition variable.

  A \<open>Condvar\<close> is the list of the threads that block in its \<open>wait\<close> and have not been
  notified; \<open>notify_one\<close> takes one out, if there is one. \<open>wait_until_at_front\<close> is a loop
  around \<open>Condvar::wait\<close>, which releases the mutex: its pieces are the enqueueing on the
  condition variable (\<open>wait_enter\<close>) and the test made after each wake-up with the mutex
  locked again (\<open>wait_check\<close>); the concurrent model puts the loop together.
\<close>

unbundle bit_operations_syntax

definition FRONT_BIT :: u8 where "FRONT_BIT = 0b01"

definition PANIC_BIT :: u8 where "PANIC_BIT = 0b10"

record TaskState =
  condvar :: "tid list"
  state :: "u8 UnsafeMutexCell"

definition TaskState_new :: TaskState where
  "TaskState_new = \<lparr>condvar = [], state = cell_new 0\<rparr>"

definition notify_one :: "tid list \<Rightarrow> tid list" where
  "notify_one ws = tl ws"

definition wait_enter :: "tid \<Rightarrow> TaskState \<Rightarrow> TaskState" where
  "wait_enter t ts = ts\<lparr>condvar := condvar ts @ [t]\<rparr>"

text \<open>A thread that wakes up without a notification leaves the condition variable.\<close>

definition wait_spurious :: "tid \<Rightarrow> TaskState \<Rightarrow> TaskState" where
  "wait_spurious t ts = ts\<lparr>condvar := removeAll t (condvar ts)\<rparr>"

text \<open>The newtype \<open>ProcessingPanicked(pub bool)\<close>, which is transparent.\<close>

type_synonym processing_panicked = bool

text \<open>\<open>None\<close>: keep waiting; \<open>Some b\<close>: leave the loop with \<open>ProcessingPanicked(b)\<close>.\<close>

definition wait_check :: "TaskState \<Rightarrow> processing_panicked option" where
  "wait_check ts =
     (let s = cell_get (state ts)
      in if s AND FRONT_BIT \<noteq> 0 then Some (s AND PANIC_BIT \<noteq> 0) else None)"

definition wake_front_task :: "TaskState \<Rightarrow> TaskState" where
  "wake_front_task ts =
     ts\<lparr>state := cell_put (cell_get (state ts) OR FRONT_BIT) (state ts),
        condvar := notify_one (condvar ts)\<rparr>"

definition wake_front_task_panicking :: "TaskState \<Rightarrow> TaskState" where
  "wake_front_task_panicking ts =
     ts\<lparr>state := cell_put (cell_get (state ts) OR (PANIC_BIT OR FRONT_BIT)) (state ts),
        condvar := notify_one (condvar ts)\<rparr>"

section \<open>The bits\<close>

definition front_bit :: "TaskState \<Rightarrow> bool" where
  "front_bit ts \<longleftrightarrow> cell_get (state ts) AND FRONT_BIT \<noteq> 0"

definition panic_bit :: "TaskState \<Rightarrow> bool" where
  "panic_bit ts \<longleftrightarrow> cell_get (state ts) AND PANIC_BIT \<noteq> 0"

lemma front_bit_iff: "front_bit ts \<longleftrightarrow> bit (cell_get (state ts)) 0"
proof -
  have "(s AND 1 \<noteq> 0) = bit s 0" for s :: u8
    by (simp add: and_one_eq bit_0 odd_iff_mod_2_eq_one)
  then show ?thesis by (simp add: front_bit_def FRONT_BIT_def)
qed

lemma panic_bit_iff: "panic_bit ts \<longleftrightarrow> bit (cell_get (state ts)) 1"
proof -
  have "(s AND 2 \<noteq> 0) = bit s 1" for s :: u8
    using and_exp_eq_0_iff_not_bit [of s 1] by simp
  then show ?thesis by (simp add: panic_bit_def PANIC_BIT_def)
qed

lemma front_bit_TaskState_new [simp]: "\<not> front_bit TaskState_new"
  and panic_bit_TaskState_new [simp]: "\<not> panic_bit TaskState_new"
  and condvar_TaskState_new [simp]: "condvar TaskState_new = []"
  by (simp_all add: front_bit_def panic_bit_def TaskState_new_def)

lemma wait_check_bits: "wait_check ts = (if front_bit ts then Some (panic_bit ts) else None)"
  by (simp add: wait_check_def front_bit_def panic_bit_def Let_def)

lemma wait_enter_simps [simp]:
  "condvar (wait_enter t ts) = condvar ts @ [t]"
  "front_bit (wait_enter t ts) = front_bit ts" "panic_bit (wait_enter t ts) = panic_bit ts"
  by (simp_all add: wait_enter_def front_bit_def panic_bit_def)

lemma wait_spurious_simps [simp]:
  "condvar (wait_spurious t ts) = removeAll t (condvar ts)"
  "front_bit (wait_spurious t ts) = front_bit ts"
  "panic_bit (wait_spurious t ts) = panic_bit ts"
  by (simp_all add: wait_spurious_def front_bit_def panic_bit_def)

section \<open>The contract of the two wake-ups\<close>

text \<open>
  Both ways of waking the next task make it the front task, release one waiter, and touch
  nothing else; they differ in whether the panic bit is raised.
\<close>

locale front_waker =
  fixes wake :: "TaskState \<Rightarrow> TaskState" and panicking :: bool
  assumes wake_front: "front_bit (wake ts)"
    and wake_panic: "panic_bit (wake ts) \<longleftrightarrow> panicking \<or> panic_bit ts"
    and wake_condvar: "condvar (wake ts) = notify_one (condvar ts)"
begin

lemma wait_check_wake: "wait_check (wake ts) = Some (panicking \<or> panic_bit ts)"
  by (simp add: wait_check_bits wake_front wake_panic)

lemma wake_single_waiter: "condvar ts = [t] \<Longrightarrow> condvar (wake ts) = []"
  by (simp add: wake_condvar notify_one_def)

end

interpretation ok_waker: front_waker wake_front_task False
  by unfold_locales
    (simp_all add: wake_front_task_def front_bit_iff panic_bit_iff FRONT_BIT_def bit_or_iff
      bit_numeral_rec(1) bit_1_iff)

interpretation panic_waker: front_waker wake_front_task_panicking True
  by unfold_locales
    (simp_all add: wake_front_task_panicking_def front_bit_iff panic_bit_iff FRONT_BIT_def
      PANIC_BIT_def bit_simps)

text \<open>
  The two bits: a new task state lets its thread wait; after \<open>wake_front_task\<close> the thread
  leaves the wait, and is told of a panic only if the panic bit was set before; after
  \<open>wake_front_task_panicking\<close> it leaves the wait and is told of a panic. Waking again changes
  nothing but the panic bit, and no other bits are ever set.
\<close>

theorem wake_bits:
  "wait_check TaskState_new = None \<and>
   wait_check (wake_front_task ts) = Some (panic_bit ts) \<and>
   wait_check (wake_front_task_panicking ts) = Some True \<and>
   wait_check (wake_front_task (wake_front_task_panicking ts)) = Some True \<and>
   cell_get (state (wake_front_task ts)) = cell_get (state ts) OR 1 \<and>
   cell_get (state (wake_front_task_panicking ts)) = cell_get (state ts) OR 3"
  by (simp add: ok_waker.wait_check_wake panic_waker.wait_check_wake panic_waker.wake_panic
      wait_check_bits [of TaskState_new])
    (simp add: wake_front_task_def wake_front_task_panicking_def FRONT_BIT_def PANIC_BIT_def)

end
