(* ===== verification/Task.thy ===== *)
theory Task
  imports Task_State
begin

text \<open>
  \<open>src/task.rs\<close>: a queued task and its lifetime-erased form.

  A task refers to the \<open>TaskState\<close> on the stack of the thread that queued it; the reference
  is that thread's identifier, resolved in the map of live stack frames of the concurrent
  model. Erasing a task transmutes lifetimes only, which have no run-time content: the
  erased task is the same \<open>MaybeUninit\<close>. Whether the referenced frame is still live is a
  matter of the concurrent model, where a reference to a dead frame is undefined behaviour.
\<close>

record 'v Task =
  task_state :: tid
  task_value :: "'v option"

datatype 'v ErasedTask = ErasedTask (maybe_dangling: "'v Task MaybeUninit")

definition erased_new :: "'v Task \<Rightarrow> 'v ErasedTask" where
  "erased_new task = ErasedTask (Init task)"

definition erased_into_inner :: "'v ErasedTask \<Rightarrow> 'v Task res" where
  "erased_into_inner et = assume_init (maybe_dangling et)"

definition erased_inner :: "'v ErasedTask \<Rightarrow> 'v Task res" where
  "erased_inner et = assume_init (maybe_dangling et)"

text \<open>\<open>take\<close> moves the value out and leaves \<open>None\<close> behind; nothing else is written.\<close>

definition erased_take :: "'v ErasedTask \<Rightarrow> 'v option res \<times> 'v ErasedTask" where
  "erased_take et =
     (case maybe_dangling et of
        Uninit \<Rightarrow> (UB, et)
      | Init task \<Rightarrow> (Ret (task_value task), ErasedTask (Init (task\<lparr>task_value := None\<rparr>))))"

section \<open>Initialised tasks\<close>

definition is_init :: "'v ErasedTask \<Rightarrow> bool" where
  "is_init et \<longleftrightarrow> maybe_dangling et \<noteq> Uninit"

definition task_of :: "'v ErasedTask \<Rightarrow> 'v Task" where
  "task_of et = (case maybe_dangling et of Init task \<Rightarrow> task | Uninit \<Rightarrow> \<lparr>task_state = 0, task_value = None\<rparr>)"

abbreviation owner :: "'v ErasedTask \<Rightarrow> tid" where
  "owner et \<equiv> task_state (task_of et)"

abbreviation value_of :: "'v ErasedTask \<Rightarrow> 'v option" where
  "value_of et \<equiv> task_value (task_of et)"

lemma erased_new_simps [simp]: "is_init (erased_new task)" "task_of (erased_new task) = task"
  by (simp_all add: erased_new_def is_init_def task_of_def)

lemma erased_inner_init: "is_init et \<Longrightarrow> erased_inner et = Ret (task_of et)"
  by (cases "maybe_dangling et") (simp_all add: is_init_def task_of_def erased_inner_def)

lemma erased_into_inner_init: "is_init et \<Longrightarrow> erased_into_inner et = Ret (task_of et)"
  by (cases "maybe_dangling et") (simp_all add: is_init_def task_of_def erased_into_inner_def)

definition taken :: "'v ErasedTask \<Rightarrow> 'v ErasedTask" where
  "taken et = erased_new ((task_of et)\<lparr>task_value := None\<rparr>)"

lemma erased_take_init: "is_init et \<Longrightarrow> erased_take et = (Ret (value_of et), taken et)"
  by (cases "maybe_dangling et")
    (simp_all add: is_init_def task_of_def erased_take_def taken_def erased_new_def)

lemma taken_simps [simp]: "is_init (taken et)" "owner (taken et) = owner et" "value_of (taken et) = None"
  by (simp_all add: taken_def)

end
