(* ===== verification/Queue_State.thy ===== *)
theory Queue_State
  imports Task
begin

text \<open>
  \<open>src/queue_state.rs\<close>: the state behind the front permission and the state behind the
  mutex. A \<open>VecDeque\<close> is the list of its elements from front to back.
\<close>

record 'fs FrontExclusive =
  front_state :: 'fs

record 'v MutexExclusive =
  front_locked :: bool
  queue_poisoned :: bool
  queue :: "'v ErasedTask list"

section \<open>\<open>VecDeque\<close>\<close>

definition vd_get :: "'a list \<Rightarrow> usize \<Rightarrow> 'a option" where
  "vd_get xs i = (if unat i < length xs then Some (xs ! unat i) else None)"

definition vd_front :: "'a list \<Rightarrow> 'a option" where
  "vd_front xs = (case xs of [] \<Rightarrow> None | x # _ \<Rightarrow> Some x)"

definition vd_pop_front :: "'a list \<Rightarrow> 'a option \<times> 'a list" where
  "vd_pop_front xs = (case xs of [] \<Rightarrow> (None, []) | x # rest \<Rightarrow> (Some x, rest))"

definition vd_push_back :: "'a \<Rightarrow> 'a list \<Rightarrow> 'a list" where
  "vd_push_back x xs = xs @ [x]"

text \<open>
  The most elements a \<open>VecDeque\<close> can hold: an allocation has at most \<open>isize::MAX\<close> bytes.
\<close>

definition max_len :: "nat \<Rightarrow> nat" where
  "max_len elem_size = (2 ^ 63 - 1) div elem_size"

lemma max_len_bound: "max_len n < 2 ^ 63"
proof -
  have "max_len n \<le> 2 ^ 63 - 1" by (simp only: max_len_def div_le_dividend)
  then show ?thesis by simp
qed

section \<open>The shape of the queue\<close>

text \<open>
  The first \<open>k\<close> tasks have lost their values (they are popped for the user and wait to be
  woken), the others still have them.
\<close>

definition popped_prefix :: "nat \<Rightarrow> 'v ErasedTask list \<Rightarrow> bool" where
  "popped_prefix k q \<longleftrightarrow> k \<le> length q \<and> (\<forall>i < length q. value_of (q ! i) = None \<longleftrightarrow> i < k)"

text \<open>The values the user can still see in the queue, in order.\<close>

definition pending :: "'v ErasedTask list \<Rightarrow> (tid \<times> 'v) list" where
  "pending q = List.map_filter (\<lambda>et. map_option (Pair (owner et)) (value_of et)) q"

lemma popped_prefix_Nil [simp]: "popped_prefix k [] \<longleftrightarrow> k = 0"
  by (auto simp: popped_prefix_def)

lemma popped_prefix_le: "popped_prefix k q \<Longrightarrow> k \<le> length q"
  by (simp add: popped_prefix_def)

lemma popped_prefix_unique: "popped_prefix j q \<Longrightarrow> popped_prefix k q \<Longrightarrow> j = k"
  unfolding popped_prefix_def by (metis leD le_neq_implies_less nat_le_linear)

lemma popped_prefix_push:
  "popped_prefix k q \<Longrightarrow> value_of et \<noteq> None \<Longrightarrow> popped_prefix k (q @ [et])"
  by (auto simp: popped_prefix_def nth_append less_Suc_eq)

lemma popped_prefix_tl:
  assumes "popped_prefix k (et # q)" shows "popped_prefix (k - 1) q"
proof -
  have "value_of (q ! i) = None \<longleftrightarrow> i < k - 1" if "i < length q" for i
    using assms that unfolding popped_prefix_def
    by (metis Suc_less_eq length_Cons less_diff_conv nth_Cons_Suc Suc_eq_plus1)
  with assms show ?thesis by (auto simp: popped_prefix_def)
qed

lemma popped_prefix_hd: "popped_prefix k (et # q) \<Longrightarrow> value_of et = None \<longleftrightarrow> 0 < k"
  by (force simp: popped_prefix_def)

lemma popped_prefix_take:
  "popped_prefix k q \<Longrightarrow> k < length q \<Longrightarrow> popped_prefix (Suc k) (q[k := taken (q ! k)])"
  by (auto simp: popped_prefix_def nth_list_update less_Suc_eq)

lemma pending_simps [simp]:
  "pending [] = []"
  "pending (et # q) = (case value_of et of None \<Rightarrow> pending q | Some v \<Rightarrow> (owner et, v) # pending q)"
  "pending (q @ q') = pending q @ pending q'"
  by (simp_all add: pending_def map_filter_def split: option.split)

lemma pending_all_popped: "(\<And>et. et \<in> set q \<Longrightarrow> value_of et = None) \<Longrightarrow> pending q = []"
  by (induction q) auto

text \<open>What is pending is exactly what lies behind the popped prefix.\<close>

lemma pending_drop:
  assumes "popped_prefix k q"
  shows "pending q = map (\<lambda>et. (owner et, the (value_of et))) (drop k q)"
proof -
  have "pending (take k q) = []"
    using assms by (intro pending_all_popped) (auto simp: popped_prefix_def in_set_conv_nth)
  moreover have "pending ys = map (\<lambda>et. (owner et, the (value_of et))) ys"
    if "\<forall>et \<in> set ys. value_of et \<noteq> None" for ys :: "'a ErasedTask list"
    using that by (induction ys) auto
  moreover have "\<forall>et \<in> set (drop k q). value_of et \<noteq> None"
  proof
    fix et assume "et \<in> set (drop k q)"
    then obtain i where "i < length q - k" and et: "et = q ! (k + i)"
      by (auto simp: in_set_conv_nth)
    then have "k + i < length q" by simp
    with assms have "value_of (q ! (k + i)) = None \<longleftrightarrow> k + i < k"
      unfolding popped_prefix_def by blast
    with et show "value_of et \<noteq> None" by simp
  qed
  moreover have "pending q = pending (take k q) @ pending (drop k q)"
    by (metis append_take_drop_id pending_simps(3))
  ultimately show ?thesis by simp
qed

end
