(* ===== verification/Poisoning.thy ===== *)
theory Poisoning
  imports Prelude
begin

text \<open>
  \<open>std::sync::Mutex\<close> as the crate uses it, and \<open>src/poisoning.rs\<close>.

  A mutex is free, held by a thread, or leaked: a guard that goes out of scope inside a
  \<open>MaybeUninit\<close> is not dropped, so its mutex stays locked although no guard is left that
  could unlock it. A guard remembers whether its thread was already panicking when it was
  made: dropping a guard while panicking poisons the mutex only if it was not.
\<close>

section \<open>The standard library's mutex\<close>

datatype hold = Free | Held tid | Leaked tid

record 'm mutex =
  holder :: hold
  poisoned :: bool
  data :: 'm

datatype guard = Guard (guard_mutex: addr) (born_panicking: bool)

text \<open>\<open>Mutex::lock\<close> returns the guard, inside the error when the mutex is poisoned.\<close>

datatype 'g lock_result = LockOk 'g | PoisonError 'g

text \<open>
  An attempt to lock: it succeeds on a free mutex, waits for another thread's guard, and on a
  mutex whose guard the same thread holds or leaked it either waits for ever or panics, as the
  documentation of \<open>Mutex::lock\<close> allows (\<open>may_panic\<close> is the environment's choice).
\<close>

datatype attempt = Acquires | WouldBlock | LockPanics

fun lock_attempt :: "bool \<Rightarrow> tid \<Rightarrow> hold \<Rightarrow> attempt" where
  "lock_attempt may_panic t Free = Acquires"
| "lock_attempt may_panic t (Held u) = (if t = u \<and> may_panic then LockPanics else WouldBlock)"
| "lock_attempt may_panic t (Leaked u) = (if t = u \<and> may_panic then LockPanics else WouldBlock)"

definition lock :: "tid \<Rightarrow> 'm mutex \<Rightarrow> 'm mutex" where
  "lock t m = m\<lparr>holder := Held t\<rparr>"

definition lock_outcome :: "'m mutex \<Rightarrow> 'g \<Rightarrow> 'g lock_result" where
  "lock_outcome m g = (if poisoned m then PoisonError g else LockOk g)"

definition drop_guard :: "bool \<Rightarrow> guard \<Rightarrow> 'm mutex \<Rightarrow> 'm mutex" where
  "drop_guard panicking g m =
     m\<lparr>holder := Free, poisoned := poisoned m \<or> (panicking \<and> \<not> born_panicking g)\<rparr>"

definition leak_guard :: "tid \<Rightarrow> 'm mutex \<Rightarrow> 'm mutex" where
  "leak_guard t m = m\<lparr>holder := Leaked t\<rparr>"

lemma lock_simps [simp]:
  "holder (lock t m) = Held t" "poisoned (lock t m) = poisoned m" "data (lock t m) = data m"
  by (simp_all add: lock_def)

lemma drop_guard_simps [simp]:
  "holder (drop_guard p g m) = Free" "data (drop_guard p g m) = data m"
  "poisoned (drop_guard p g m) \<longleftrightarrow> poisoned m \<or> (p \<and> \<not> born_panicking g)"
  by (simp_all add: drop_guard_def)

lemma leak_guard_simps [simp]:
  "holder (leak_guard t m) = Leaked t" "poisoned (leak_guard t m) = poisoned m"
  "data (leak_guard t m) = data m"
  by (simp_all add: leak_guard_def)

text \<open>Locking a free mutex and dropping the guard again, without poisoning it, is no change.\<close>

lemma drop_guard_lock:
  "holder m = Free \<Longrightarrow> (p \<Longrightarrow> born_panicking g \<or> poisoned m) \<Longrightarrow> drop_guard p g (lock t m) = m"
  by (cases m) (auto simp: drop_guard_def lock_def)

lemma lock_attempt_Acquires [simp]: "lock_attempt b t h = Acquires \<longleftrightarrow> h = Free"
  by (cases h) auto

lemma lock_attempt_Panics:
  "lock_attempt b t h = LockPanics \<longleftrightarrow> b \<and> (h = Held t \<or> h = Leaked t)"
  by (cases h) auto

section \<open>\<open>src/poisoning.rs\<close>\<close>

definition into_inner :: "'g lock_result \<Rightarrow> 'g" where
  "into_inner r = (case r of LockOk g \<Rightarrow> g | PoisonError g \<Rightarrow> g)"

definition unwrap_poison :: "'g lock_result \<Rightarrow> bool \<Rightarrow> 'g res" where
  "unwrap_poison r unwrap =
     (if unwrap then (case r of LockOk g \<Rightarrow> Ret g | PoisonError g \<Rightarrow> Unwind PoisonedMutex)
      else Ret (into_inner r))"

lemma into_inner_lock_outcome [simp]: "into_inner (lock_outcome m g) = g"
  by (simp add: into_inner_def lock_outcome_def)

lemma unwrap_poison_lock_outcome [simp]:
  "unwrap_poison (lock_outcome m g) unwrap =
     (if unwrap \<and> poisoned m then Unwind PoisonedMutex else Ret g)"
  by (simp add: unwrap_poison_def lock_outcome_def into_inner_def)

text \<open>
  Unwrapping the result of a lock: with a mutex that is not poisoned both modes give the
  guard; with a poisoned one, unwrapping panics and ignoring gives the guard. A guard dropped
  while its thread panics poisons the mutex unless the thread was panicking when it was made,
  and poison never goes away by dropping a guard.
\<close>

theorem poison_table:
  "unwrap_poison (lock_outcome m g) True = (if poisoned m then Unwind PoisonedMutex else Ret g) \<and>
   unwrap_poison (lock_outcome m g) False = Ret g \<and>
   (poisoned (drop_guard p g' m) \<longleftrightarrow> poisoned m \<or> (p \<and> \<not> born_panicking g')) \<and>
   lock_outcome (lock t (drop_guard p g' m)) g =
     (if poisoned m \<or> (p \<and> \<not> born_panicking g') then PoisonError g else LockOk g)"
  by (simp add: lock_outcome_def unwrap_poison_def into_inner_def)

end
