(* ===== verification/Queue_Handle.thy ===== *)
theory Queue_Handle
  imports Queue_State Poisoning
begin

text \<open>
  \<open>src/queue_handle.rs\<close>: what a callback can do with the queue while its task is at the
  front. The handle's two \<open>MaybeUninit\<close> fields, the mutex guard and the reference to the
  mutex-protected state, are uninitialised inside \<open>unlocked\<close>; every method reads them and
  would be undefined behaviour there. The mutex-protected state itself is passed to and
  returned by the operations.
\<close>

record QueueHandle =
  qh_mutex :: "addr NotShared"
  qh_guard :: "guard MaybeUninit"
  mutex_exclusive_guard :: "unit MaybeUninit"
  next_idx :: usize

definition handle_new :: "addr \<Rightarrow> guard \<Rightarrow> QueueHandle" where
  "handle_new m g =
     \<lparr>qh_mutex = ns_new m, qh_guard = Init g, mutex_exclusive_guard = Init (), next_idx = 0\<rparr>"

definition handle_peek :: "QueueHandle \<Rightarrow> 'v MutexExclusive \<Rightarrow> 'v option res" where
  "handle_peek h mx =
     bind_res (assume_init (mutex_exclusive_guard h)) (\<lambda>_.
       case vd_get (queue mx) (next_idx h) of
         Some next_task \<Rightarrow> bind_res (erased_inner next_task) (\<lambda>task.
           case task_value task of None \<Rightarrow> Unwind NextIdxBug | Some v \<Rightarrow> Ret (Some v))
       | None \<Rightarrow> Ret None)"

text \<open>\<open>next_idx\<close> is advanced before the \<open>expect\<close>; the addition is the wrapping one.\<close>

definition handle_pop ::
  "QueueHandle \<Rightarrow> 'v MutexExclusive \<Rightarrow> 'v option res \<times> QueueHandle \<times> 'v MutexExclusive" where
  "handle_pop h mx =
     (case mutex_exclusive_guard h of
        Uninit \<Rightarrow> (UB, h, mx)
      | Init _ \<Rightarrow>
         (case vd_get (queue mx) (next_idx h) of
            Some next_task \<Rightarrow>
              (let (value, next_task') = erased_take next_task;
                   mx' = mx\<lparr>queue := (queue mx)[unat (next_idx h) := next_task']\<rparr>;
                   h' = h\<lparr>next_idx := next_idx h + 1\<rparr>
               in (bind_res value (\<lambda>v. case v of None \<Rightarrow> Unwind NextIdxBug | Some v \<Rightarrow> Ret (Some v)), h', mx'))
          | None \<Rightarrow> (Ret None, h, mx)))"

definition handle_mutex_state :: "QueueHandle \<Rightarrow> (addr \<Rightarrow> 'm mutex) \<Rightarrow> 'm res" where
  "handle_mutex_state h ms =
     bind_res (assume_init (qh_guard h)) (\<lambda>g. Ret (data (ms (guard_mutex g))))"

definition handle_mutex_state_mut ::
  "QueueHandle \<Rightarrow> 'm \<Rightarrow> (addr \<Rightarrow> 'm mutex) \<Rightarrow> (addr \<Rightarrow> 'm mutex) res" where
  "handle_mutex_state_mut h m ms =
     bind_res (assume_init (qh_guard h)) (\<lambda>g.
       Ret (ms(guard_mutex g := (ms (guard_mutex g))\<lparr>data := m\<rparr>)))"

text \<open>
  \<open>unlocked\<close> runs \<open>ReLock::new\<close>, the closure, and the drop of the \<open>ReLock\<close>, whether the
  closure returns or unwinds. \<open>ReLock::new\<close> discards the reference and drops the guard: the
  result is the guard that is dropped, and the handle with both fields uninitialised.
  \<open>ReLock::drop\<close> writes the new guard and a new reference.
\<close>

definition relock_new :: "QueueHandle \<Rightarrow> guard res \<times> QueueHandle" where
  "relock_new h =
     (assume_init (qh_guard h), h\<lparr>qh_guard := Uninit, mutex_exclusive_guard := Uninit\<rparr>)"

definition relock_drop :: "guard \<Rightarrow> QueueHandle \<Rightarrow> QueueHandle" where
  "relock_drop g h = h\<lparr>qh_guard := Init g, mutex_exclusive_guard := Init ()\<rparr>"

definition handle_is_queue_poisoned :: "QueueHandle \<Rightarrow> 'v MutexExclusive \<Rightarrow> bool res" where
  "handle_is_queue_poisoned h mx =
     bind_res (assume_init (mutex_exclusive_guard h)) (\<lambda>_. Ret (queue_poisoned mx))"

definition handle_clear_queue_poison ::
  "QueueHandle \<Rightarrow> 'v MutexExclusive \<Rightarrow> 'v MutexExclusive res" where
  "handle_clear_queue_poison h mx =
     bind_res (assume_init (mutex_exclusive_guard h)) (\<lambda>_. Ret (mx\<lparr>queue_poisoned := False\<rparr>))"

section \<open>Well-formed handles\<close>

definition handle_ready :: "QueueHandle \<Rightarrow> bool" where
  "handle_ready h \<longleftrightarrow> qh_guard h \<noteq> Uninit \<and> mutex_exclusive_guard h \<noteq> Uninit"

text \<open>
  The handle agrees with the queue: everything before \<open>next_idx\<close> has been popped, nothing
  after it has.
\<close>

definition handle_ok :: "QueueHandle \<Rightarrow> 'v MutexExclusive \<Rightarrow> bool" where
  "handle_ok h mx \<longleftrightarrow>
     (\<forall>et \<in> set (queue mx). is_init et) \<and> length (queue mx) < 2 ^ 63 \<and>
     popped_prefix (unat (next_idx h)) (queue mx)"

lemma handle_new_simps [simp]:
  "qh_mutex (handle_new m g) = NotShared m" "qh_guard (handle_new m g) = Init g"
  "mutex_exclusive_guard (handle_new m g) = Init ()" "next_idx (handle_new m g) = 0"
  by (simp_all add: handle_new_def ns_new_def)

lemma vd_get_ok:
  assumes "handle_ok h mx"
  shows "vd_get (queue mx) (next_idx h) =
    (if unat (next_idx h) < length (queue mx) then Some (queue mx ! unat (next_idx h)) else None)"
    and "unat (next_idx h) < length (queue mx) \<Longrightarrow>
      is_init (queue mx ! unat (next_idx h)) \<and> value_of (queue mx ! unat (next_idx h)) \<noteq> None"
  using assms by (auto simp: vd_get_def handle_ok_def popped_prefix_def)

text \<open>The increment of \<open>next_idx\<close> cannot wrap around.\<close>

lemma next_idx_no_wrap:
  assumes "handle_ok h mx" "unat (next_idx h) < length (queue mx)"
  shows "unat (next_idx h + 1) = Suc (unat (next_idx h))"
proof -
  have "unat (next_idx h) + 1 < 2 ^ 64"
    using assms by (simp add: handle_ok_def)
  then show ?thesis
    by (simp add: unat_word_ariths)
qed

lemma handle_peek_ok:
  assumes "handle_ok h mx" "handle_ready h"
  shows "handle_peek h mx = Ret (map_option snd (case pending (queue mx) of [] \<Rightarrow> None | x # _ \<Rightarrow> Some x))"
proof -
  have pend: "pending (queue mx) =
      map (\<lambda>et. (owner et, the (value_of et))) (drop (unat (next_idx h)) (queue mx))"
    using assms(1) by (intro pending_drop) (simp add: handle_ok_def)
  from assms(2) obtain u where u: "mutex_exclusive_guard h = Init u"
    by (cases "mutex_exclusive_guard h") (auto simp: handle_ready_def)
  show ?thesis
  proof (cases "unat (next_idx h) < length (queue mx)")
    case True
    then have "drop (unat (next_idx h)) (queue mx) =
        queue mx ! unat (next_idx h) # drop (Suc (unat (next_idx h))) (queue mx)"
      by (simp add: Cons_nth_drop_Suc)
    with True vd_get_ok [OF assms(1)] show ?thesis
      by (auto simp: handle_peek_def u pend erased_inner_init)
  next
    case False
    with vd_get_ok(1) [OF assms(1)] show ?thesis
      by (simp add: handle_peek_def u pend)
  qed
qed

lemma handle_pop_ok:
  assumes "handle_ok h mx" "handle_ready h" "unat (next_idx h) < length (queue mx)"
  shows "handle_pop h mx =
    (Ret (value_of (queue mx ! unat (next_idx h))), h\<lparr>next_idx := next_idx h + 1\<rparr>,
     mx\<lparr>queue := (queue mx)[unat (next_idx h) := taken (queue mx ! unat (next_idx h))]\<rparr>)"
proof -
  from assms(2) obtain u where u: "mutex_exclusive_guard h = Init u"
    by (cases "mutex_exclusive_guard h") (auto simp: handle_ready_def)
  from vd_get_ok [OF assms(1)] assms(3) show ?thesis
    by (auto simp: handle_pop_def u erased_take_init)
qed

lemma handle_pop_empty:
  assumes "handle_ok h mx" "handle_ready h" "\<not> unat (next_idx h) < length (queue mx)"
  shows "handle_pop h mx = (Ret None, h, mx)"
proof -
  from assms(2) obtain u where u: "mutex_exclusive_guard h = Init u"
    by (cases "mutex_exclusive_guard h") (auto simp: handle_ready_def)
  from vd_get_ok(1) [OF assms(1)] assms(3) show ?thesis
    by (simp add: handle_pop_def u)
qed

lemma handle_ok_pop:
  assumes "handle_ok h mx" "unat (next_idx h) < length (queue mx)"
  shows "handle_ok (h\<lparr>next_idx := next_idx h + 1\<rparr>)
    (mx\<lparr>queue := (queue mx)[unat (next_idx h) := taken (queue mx ! unat (next_idx h))]\<rparr>)"
  using assms next_idx_no_wrap [OF assms] unfolding handle_ok_def
  by (auto intro: popped_prefix_take dest!: set_update_subset_insert [THEN subsetD])

section \<open>The handle as a view of the values still queued\<close>

text \<open>
  The contract of a destructive iterator: looking shows the first of the remaining items,
  advancing returns it and leaves the others, and the items come out in order.
\<close>

locale draining =
  fixes look :: "'s \<Rightarrow> 'a option"
    and advance :: "'s \<Rightarrow> 'a option \<times> 's"
    and remaining :: "'s \<Rightarrow> 'a list"
    and valid :: "'s \<Rightarrow> bool"
  assumes look_hd: "valid s \<Longrightarrow> look s = (case remaining s of [] \<Rightarrow> None | x # _ \<Rightarrow> Some x)"
    and advance_hd: "valid s \<Longrightarrow> fst (advance s) = (case remaining s of [] \<Rightarrow> None | x # _ \<Rightarrow> Some x)"
    and advance_tl: "valid s \<Longrightarrow> remaining (snd (advance s)) = tl (remaining s)"
    and advance_valid: "valid s \<Longrightarrow> valid (snd (advance s))"
begin

fun drain :: "nat \<Rightarrow> 's \<Rightarrow> 'a option list \<times> 's" where
  "drain 0 s = ([], s)"
| "drain (Suc n) s = (let (x, s') = advance s; (xs, s'') = drain n s' in (x # xs, s''))"

lemma look_is_advance: "valid s \<Longrightarrow> look s = fst (advance s)"
  by (simp add: look_hd advance_hd)

lemma drain_fifo:
  "valid s \<Longrightarrow> n \<le> length (remaining s) \<Longrightarrow>
     fst (drain n s) = map Some (take n (remaining s)) \<and>
     remaining (snd (drain n s)) = drop n (remaining s) \<and> valid (snd (drain n s))"
proof (induction n arbitrary: s)
  case 0
  then show ?case by simp
next
  case (Suc n)
  obtain y ys where rem: "remaining s = y # ys"
    using Suc.prems(2) by (cases "remaining s") auto
  from Suc.prems Suc.IH [of "snd (advance s)"] advance_hd advance_tl advance_valid rem
  show ?case by (auto simp: split_beta Let_def)
qed

end

text \<open>The view of a handle: its queue position and the mutex-protected state, when in order.\<close>

definition view_look :: "QueueHandle \<times> 'v MutexExclusive \<Rightarrow> 'v option" where
  "view_look s = (case handle_peek (fst s) (snd s) of Ret x \<Rightarrow> x | _ \<Rightarrow> None)"

definition view_advance ::
  "QueueHandle \<times> 'v MutexExclusive \<Rightarrow> 'v option \<times> QueueHandle \<times> 'v MutexExclusive" where
  "view_advance s =
     (case handle_pop (fst s) (snd s) of (r, s') \<Rightarrow> (case r of Ret x \<Rightarrow> x | _ \<Rightarrow> None, s'))"

definition view_remaining :: "QueueHandle \<times> 'v MutexExclusive \<Rightarrow> 'v list" where
  "view_remaining s = map snd (pending (queue (snd s)))"

definition view_valid :: "QueueHandle \<times> 'v MutexExclusive \<Rightarrow> bool" where
  "view_valid s \<longleftrightarrow> handle_ok (fst s) (snd s) \<and> handle_ready (fst s)"

lemma view_advance_cases:
  assumes "view_valid s"
  shows "fst (view_advance s) = (case view_remaining s of [] \<Rightarrow> None | x # _ \<Rightarrow> Some x)
    \<and> view_remaining (snd (view_advance s)) = tl (view_remaining s)
    \<and> view_valid (snd (view_advance s))"
proof -
  obtain h mx where s: "s = (h, mx)" by (cases s)
  with assms have ok: "handle_ok h mx" and ready: "handle_ready h"
    by (auto simp: view_valid_def)
  let ?i = "unat (next_idx h)"
  have pend: "pending (queue mx) = map (\<lambda>et. (owner et, the (value_of et))) (drop ?i (queue mx))"
    using ok by (intro pending_drop) (simp add: handle_ok_def)
  show ?thesis
  proof (cases "?i < length (queue mx)")
    case True
    let ?h = "h\<lparr>next_idx := next_idx h + 1\<rparr>"
    let ?mx = "mx\<lparr>queue := (queue mx)[?i := taken (queue mx ! ?i)]\<rparr>"
    have ok': "handle_ok ?h ?mx" using ok True by (rule handle_ok_pop)
    have "pending (queue ?mx) =
        map (\<lambda>et. (owner et, the (value_of et))) (drop (unat (next_idx ?h)) (queue ?mx))"
      using ok' unfolding handle_ok_def by (intro pending_drop) blast
    then have pend': "pending (queue ?mx) =
        map (\<lambda>et. (owner et, the (value_of et))) (drop (Suc ?i) (queue mx))"
      using next_idx_no_wrap [OF ok True] by simp
    have "drop ?i (queue mx) = queue mx ! ?i # drop (Suc ?i) (queue mx)"
      using True by (simp add: Cons_nth_drop_Suc)
    moreover have "value_of (queue mx ! ?i) \<noteq> None" using vd_get_ok(2) [OF ok True] by simp
    ultimately show ?thesis
      using handle_pop_ok [OF ok ready True] ok' ready pend pend'
      by (auto simp: s view_advance_def view_remaining_def view_valid_def handle_ready_def)
  next
    case False
    with handle_pop_empty [OF ok ready False] ok ready pend show ?thesis
      by (simp add: s view_advance_def view_remaining_def view_valid_def)
  qed
qed

interpretation handle_view: draining view_look view_advance view_remaining view_valid
proof unfold_locales
  fix s :: "QueueHandle \<times> 'v MutexExclusive"
  assume v: "view_valid s"
  show "view_look s = (case view_remaining s of [] \<Rightarrow> None | x # _ \<Rightarrow> Some x)"
    using v handle_peek_ok [of "fst s" "snd s"]
    by (auto simp: view_valid_def view_look_def view_remaining_def split: list.splits)
qed (use view_advance_cases in blast)+

section \<open>Popping repeatedly\<close>

text \<open>A callback that pops \<open>n\<close> times: the results, the handle and the state it leaves.\<close>

fun handle_pops ::
  "nat \<Rightarrow> QueueHandle \<Rightarrow> 'v MutexExclusive \<Rightarrow> 'v option res list \<times> QueueHandle \<times> 'v MutexExclusive" where
  "handle_pops 0 h mx = ([], h, mx)"
| "handle_pops (Suc n) h mx =
     (let (r, h1, mx1) = handle_pop h mx; (rs, h2, mx2) = handle_pops n h1 mx1
      in (r # rs, h2, mx2))"

lemma handle_pop_Ret:
  assumes "view_valid (h, mx)" shows "\<exists>x. fst (handle_pop h mx) = Ret x"
proof (cases "unat (next_idx h) < length (queue mx)")
  case True
  then show ?thesis using assms handle_pop_ok [of h mx] by (simp add: view_valid_def)
next
  case False
  then show ?thesis using assms handle_pop_empty [of h mx] by (simp add: view_valid_def)
qed

lemma handle_pops_drain:
  "view_valid (h, mx) \<Longrightarrow>
     handle_pops n h mx =
       (map Ret (fst (handle_view.drain n (h, mx))), snd (handle_view.drain n (h, mx)))"
proof (induction n arbitrary: h mx)
  case (Suc n)
  obtain x where "fst (handle_pop h mx) = Ret x" using handle_pop_Ret [OF Suc.prems] by blast
  then obtain h1 mx1 where step: "handle_pop h mx = (Ret x, h1, mx1)"
    by (metis prod.collapse)
  then have adv: "view_advance (h, mx) = (x, h1, mx1)" by (simp add: view_advance_def)
  have "view_valid (h1, mx1)" using handle_view.advance_valid [OF Suc.prems] adv by simp
  with Suc.IH [of h1 mx1] step adv show ?case by (simp add: split_beta Let_def)
qed simp

lemma handle_pops_idx:
  "handle_ok h mx \<Longrightarrow> handle_ready h \<Longrightarrow> unat (next_idx h) + n \<le> length (queue mx) \<Longrightarrow>
     unat (next_idx (fst (snd (handle_pops n h mx)))) = unat (next_idx h) + n"
proof (induction n arbitrary: h mx)
  case (Suc n)
  let ?i = "unat (next_idx h)"
  have i: "?i < length (queue mx)" using Suc.prems(3) by simp
  let ?h = "h\<lparr>next_idx := next_idx h + 1\<rparr>"
  let ?mx = "mx\<lparr>queue := (queue mx)[?i := taken (queue mx ! ?i)]\<rparr>"
  have idx: "unat (next_idx ?h) = Suc ?i" using next_idx_no_wrap [OF Suc.prems(1) i] by simp
  have "unat (next_idx (fst (snd (handle_pops n ?h ?mx)))) = Suc ?i + n"
    using Suc.IH [of ?h ?mx] handle_ok_pop [OF Suc.prems(1) i] Suc.prems idx
    by (simp add: handle_ready_def)
  then show ?case
    by (simp add: handle_pop_ok [OF Suc.prems(1,2) i] split_beta Let_def)
qed simp

text \<open>
  C32. Popping \<open>n\<close> values through a handle that agrees with the queue, when at least \<open>n\<close> are
  left, gives the \<open>n\<close> oldest values in order, none of the pops panics, the values behind them
  stay, and \<open>next_idx\<close> grows by exactly \<open>n\<close>, without wrapping around.
\<close>

theorem handle_pops_fifo:
  assumes "handle_ok h mx" "handle_ready h" "n \<le> length (pending (queue mx))"
  shows "\<exists>h' mx'. handle_pops n h mx = (map (\<lambda>(u, v). Ret (Some v)) (take n (pending (queue mx))), h', mx') \<and>
    map snd (pending (queue mx')) = map snd (drop n (pending (queue mx))) \<and>
    handle_ok h' mx' \<and> handle_ready h' \<and> unat (next_idx h') = unat (next_idx h) + n"
proof -
  have v: "view_valid (h, mx)" using assms by (simp add: view_valid_def)
  obtain h' mx' where d: "snd (handle_view.drain n (h, mx)) = (h', mx')" by fastforce
  have n: "n \<le> length (view_remaining (h, mx))" using assms(3) by (simp add: view_remaining_def)
  note fifo = handle_view.drain_fifo [OF v n]
  have "popped_prefix (unat (next_idx h)) (queue mx)" using assms(1) by (simp add: handle_ok_def)
  then have "unat (next_idx h) + n \<le> length (queue mx)"
    using assms(3) pending_drop popped_prefix_le by fastforce
  from handle_pops_idx [OF assms(1,2) this]
  have "unat (next_idx h') = unat (next_idx h) + n" by (simp add: handle_pops_drain [OF v] d)
  with fifo d show ?thesis
    by (simp add: handle_pops_drain [OF v] view_remaining_def view_valid_def take_map drop_map split_beta
        comp_def)
qed

theorem handle_pops_fifo_witness:
  "\<exists>h' mx'. handle_pops 1 (handle_new 8 (Guard 8 False))
     \<lparr>front_locked = True, queue_poisoned = False,
      queue = [erased_new \<lparr>task_state = 1, task_value = Some (5::nat)\<rparr>,
               erased_new \<lparr>task_state = 2, task_value = Some 6\<rparr>]\<rparr> = ([Ret (Some 5)], h', mx') \<and>
     unat (next_idx h') = 1"
proof -
  let ?mx = "\<lparr>front_locked = True, queue_poisoned = False,
      queue = [erased_new \<lparr>task_state = 1, task_value = Some (5::nat)\<rparr>,
               erased_new \<lparr>task_state = 2, task_value = Some 6\<rparr>]\<rparr>"
  have "handle_ok (handle_new 8 (Guard 8 False)) ?mx"
    by (auto simp: handle_ok_def popped_prefix_def less_Suc_eq)
  moreover have "handle_ready (handle_new 8 (Guard 8 False))" by (simp add: handle_ready_def)
  ultimately show ?thesis
    using handle_pops_fifo [of "handle_new 8 (Guard 8 False)" ?mx 1] by auto
qed

end
