(* ===== verification/Interface.thy ===== *)
theory Interface
  imports Prelude
begin

text \<open>
  \<open>src/interface.rs\<close>: the panic options, the result of a call, and the callbacks a caller
  submits.

  A callback is client code. It is modelled as the tree of what it does with its arguments:
  it may read and write \<open>front_state\<close>, call the methods of its \<open>QueueHandle\<close> in any order,
  continue after the result (also after a call that unwinds, as with a \<open>catch_unwind\<close> of its
  own), and at the end return or panic. The closure given to \<open>unlocked\<close> cannot use the
  handle, which is mutably borrowed; it may still use \<open>front_state\<close>, lock any mutex for a while
  (a critical section, in which it may panic, or whose guard it may forget, so that the mutex stays
  locked; a closure that returns a guard of the queue's mutex instead has the same effect here,
  since the mutex is locked again first), and call \<open>is_queue_poisoned\<close> and
  \<open>clear_queue_poison\<close> of the queue with any mutex. Callbacks terminate, since the trees are
  well founded, and do not submit tasks to the queue that runs them.
\<close>

record PanicOptions =
  unwrap_mutex_poison :: bool
  unwrap_queue_poison :: bool

definition default_options :: PanicOptions where
  "default_options = \<lparr>unwrap_mutex_poison = True, unwrap_queue_poison = True\<rparr>"

text \<open>The library's class of types with a default value is \<open>impl Default for PanicOptions\<close>.\<close>

instantiation PanicOptions_ext :: (default) default
begin

definition default_PanicOptions_ext_def:
  "default = \<lparr>unwrap_mutex_poison = True, unwrap_queue_poison = True, \<dots> = default\<rparr>"

instance ..

end

lemma default_PanicOptions: "default = default_options"
  by (simp add: default_PanicOptions_ext_def default_options_def default_unit_def)

datatype 'r ProcessResult = Processed 'r | ProcessedElsewhere | ProcessingPanicked

datatype ('fs, 'm, 'u) closure =
    CloReturn 'u
  | CloPanic nat
  | CloReadFront "'fs \<Rightarrow> ('fs, 'm, 'u) closure"
  | CloWriteFront 'fs "('fs, 'm, 'u) closure"
  | CloLockMutex addr "bool \<Rightarrow> ('fs, 'm, 'u) critical"
  | CloIsQueuePoisoned addr "bool outcome \<Rightarrow> ('fs, 'm, 'u) closure"
  | CloClearQueuePoison addr "unit outcome \<Rightarrow> ('fs, 'm, 'u) closure"
and ('fs, 'm, 'u) critical =
    CritReadState "'m \<Rightarrow> ('fs, 'm, 'u) critical"
  | CritWriteState 'm "('fs, 'm, 'u) critical"
  | CritReadFront "'fs \<Rightarrow> ('fs, 'm, 'u) critical"
  | CritWriteFront 'fs "('fs, 'm, 'u) critical"
  | CritDrop "('fs, 'm, 'u) closure"
  | CritForget "('fs, 'm, 'u) closure"
  | CritPanic nat

datatype ('v, 'fs, 'm, 'u, 'r) callback =
    CbReturn 'r
  | CbPanic nat
  | CbReadFront "'fs \<Rightarrow> ('v, 'fs, 'm, 'u, 'r) callback"
  | CbWriteFront 'fs "('v, 'fs, 'm, 'u, 'r) callback"
  | CbPeek "'v option outcome \<Rightarrow> ('v, 'fs, 'm, 'u, 'r) callback"
  | CbPop "'v option outcome \<Rightarrow> ('v, 'fs, 'm, 'u, 'r) callback"
  | CbMutexState "'m \<Rightarrow> ('v, 'fs, 'm, 'u, 'r) callback"
  | CbMutexStateMut 'm "('v, 'fs, 'm, 'u, 'r) callback"
  | CbUnlocked "('fs, 'm, 'u) closure" "'u outcome \<Rightarrow> ('v, 'fs, 'm, 'u, 'r) callback"
  | CbIsQueuePoisoned "bool \<Rightarrow> ('v, 'fs, 'm, 'u, 'r) callback"
  | CbClearQueuePoison "('v, 'fs, 'm, 'u, 'r) callback"

text \<open>\<open>ProcessTask::process\<close>: the callback of a task, given the task's value.\<close>

type_synonym ('v, 'fs, 'm, 'u, 'r) ProcessTask = "'v \<Rightarrow> ('v, 'fs, 'm, 'u, 'r) callback"

end
