(* ===== verification/Queue.thy ===== *)
theory Queue
  imports Queue_Handle Interface
begin

text \<open>
  \<open>src/queue.rs\<close>, sequential parts: the queue's record, its constructors, the mutex check,
  and the fragments that \<open>process_unchecked\<close> and the functions it calls run between two
  points where another thread can intervene. \<open>Machine\<close> composes the fragments, in the
  order of the code, into the steps of a thread.
\<close>

record ('fs, 'v) ContentionQueue =
  mutex_address :: usize
  options :: PanicOptions
  front_exclusive :: "'fs FrontExclusive UnsafeMutexCell"
  mutex_exclusive :: "'v MutexExclusive UnsafeMutexCell"

definition new_with_options :: "'fs \<Rightarrow> PanicOptions \<Rightarrow> ('fs, 'v) ContentionQueue" where
  "new_with_options fs opts =
     \<lparr>mutex_address = 0, options = opts,
      front_exclusive = cell_new \<lparr>front_state = fs\<rparr>,
      mutex_exclusive = cell_new \<lparr>front_locked = False, queue_poisoned = False, queue = []\<rparr>\<rparr>"

definition queue_new :: "'fs \<Rightarrow> ('fs, 'v) ContentionQueue" where
  "queue_new fs = new_with_options fs \<lparr>unwrap_mutex_poison = True, unwrap_queue_poison = True\<rparr>"

section \<open>The mutex check\<close>

text \<open>\<open>AtomicUsize::compare_exchange\<close>: the previous value, \<open>Inr\<close> when it was replaced.\<close>

definition compare_exchange :: "usize \<Rightarrow> usize \<Rightarrow> usize \<Rightarrow> (usize + usize) \<times> usize" where
  "compare_exchange current new old = (if old = current then (Inr old, new) else (Inl old, old))"

definition assert_mutex_good ::
  "addr \<Rightarrow> nat \<Rightarrow> ('fs, 'v) ContentionQueue \<Rightarrow> unit res \<times> ('fs, 'v) ContentionQueue" where
  "assert_mutex_good mutex_addr sz q =
     (let (r, a) = compare_exchange 0 mutex_addr (mutex_address q);
          q' = q\<lparr>mutex_address := a\<rparr>
      in case r of
           Inl n \<Rightarrow> if n = mutex_addr then (if sz > 0 then Ret () else Unwind ZstMutex, q')
                    else (Unwind WrongMutex, q')
         | Inr _ \<Rightarrow> (if sz > 0 then Ret () else Unwind ZstMutex, q'))"

lemma assert_mutex_good_eq:
  "assert_mutex_good a sz q =
     (if mutex_address q = 0 \<or> mutex_address q = a
      then (if sz > 0 then Ret () else Unwind ZstMutex, q\<lparr>mutex_address := a\<rparr>)
      else (Unwind WrongMutex, q))"
  by (simp add: assert_mutex_good_def compare_exchange_def)

section \<open>Borrowing the protected state\<close>

definition mutex_exclusive_mut :: "('fs, 'v) ContentionQueue \<Rightarrow> 'v MutexExclusive" where
  "mutex_exclusive_mut q = cell_get (mutex_exclusive q)"

definition put_mutex_exclusive ::
  "'v MutexExclusive \<Rightarrow> ('fs, 'v) ContentionQueue \<Rightarrow> ('fs, 'v) ContentionQueue" where
  "put_mutex_exclusive mx q = q\<lparr>mutex_exclusive := cell_put mx (mutex_exclusive q)\<rparr>"

definition front_exclusive_mut :: "('fs, 'v) ContentionQueue \<Rightarrow> 'fs" where
  "front_exclusive_mut q = front_state (cell_get (front_exclusive q))"

definition put_front_state :: "'fs \<Rightarrow> ('fs, 'v) ContentionQueue \<Rightarrow> ('fs, 'v) ContentionQueue" where
  "put_front_state fs q = q\<lparr>front_exclusive := cell_put \<lparr>front_state = fs\<rparr> (front_exclusive q)\<rparr>"

lemma put_mutex_exclusive_simps [simp]:
  "mutex_exclusive_mut (put_mutex_exclusive mx q) = mx"
  "mutex_address (put_mutex_exclusive mx q) = mutex_address q"
  "options (put_mutex_exclusive mx q) = options q"
  "front_exclusive (put_mutex_exclusive mx q) = front_exclusive q"
  "front_exclusive_mut (put_mutex_exclusive mx q) = front_exclusive_mut q"
  by (simp_all add: put_mutex_exclusive_def mutex_exclusive_mut_def front_exclusive_mut_def)

lemma put_front_state_simps [simp]:
  "front_exclusive_mut (put_front_state fs q) = fs"
  "mutex_address (put_front_state fs q) = mutex_address q"
  "options (put_front_state fs q) = options q"
  "mutex_exclusive_mut (put_front_state fs q) = mutex_exclusive_mut q"
  by (simp_all add: put_front_state_def front_exclusive_mut_def mutex_exclusive_mut_def)

lemma mutex_address_update_simps [simp]:
  "mutex_exclusive_mut (q\<lparr>mutex_address := a\<rparr>) = mutex_exclusive_mut q"
  "front_exclusive_mut (q\<lparr>mutex_address := a\<rparr>) = front_exclusive_mut q"
  by (simp_all add: mutex_exclusive_mut_def front_exclusive_mut_def)

text \<open>
  Both protected states are places of the queue: a cell inside a field, and for the front
  state a field inside the cell. Their laws follow from the laws of the parts.
\<close>

interpretation mx_cell: nested_place mutex_exclusive "\<lambda>c q. q\<lparr>mutex_exclusive := c\<rparr>"
    cell_get cell_put
  by unfold_locales simp_all

interpretation mx_place: place mutex_exclusive_mut put_mutex_exclusive
  using mx_cell.composed.place_axioms
  by (simp add: mutex_exclusive_mut_def [abs_def] put_mutex_exclusive_def [abs_def])

interpretation front_cell: nested_place front_exclusive "\<lambda>c q. q\<lparr>front_exclusive := c\<rparr>"
    cell_get cell_put
  by unfold_locales simp_all

interpretation front_field: nested_place
    "\<lambda>q. cell_get (front_exclusive q)" "\<lambda>b q. q\<lparr>front_exclusive := cell_put b (front_exclusive q)\<rparr>"
    front_state "\<lambda>fs fe. \<lparr>front_state = fs\<rparr>"
  using front_cell.composed.place_axioms
  by (intro nested_place.intro) (auto simp: place_def)

interpretation front_place: place front_exclusive_mut put_front_state
  using front_field.composed.place_axioms
  by (simp add: front_exclusive_mut_def [abs_def] put_front_state_def [abs_def])

section \<open>Fragments of \<open>process_unchecked\<close>\<close>

text \<open>The fast path: take the front permission if nobody holds it.\<close>

definition try_acquire_front_fast ::
  "('fs, 'v) ContentionQueue \<Rightarrow> bool \<times> ('fs, 'v) ContentionQueue" where
  "try_acquire_front_fast q =
     (let mx = mutex_exclusive_mut q
      in if front_locked mx then (False, q)
         else (True, put_mutex_exclusive (mx\<lparr>front_locked := True\<rparr>) q))"

text \<open>
  The slow path, before waiting: build the task, erase it, push it. \<open>VecDeque::push_back\<close>
  fails when the allocation would be too large or the allocator fails (\<open>alloc_fails\<close>).
\<close>

definition push_task ::
  "bool \<Rightarrow> nat \<Rightarrow> tid \<Rightarrow> 'v \<Rightarrow> 'v MutexExclusive \<Rightarrow> 'v MutexExclusive option" where
  "push_task alloc_fails elem_size t value mx =
     (let unerased_task = \<lparr>task_state = t, task_value = Some value\<rparr>;
          erased_task = erased_new unerased_task
      in if alloc_fails \<or> length (queue mx) \<ge> max_len elem_size then None
         else Some (mx\<lparr>queue := vd_push_back erased_task (queue mx)\<rparr>))"

datatype 'v TaskWaitResult =
  WaitProcess 'v | WaitProcessedElsewhere | WaitProcessingPanicked

text \<open>
  The slow path, after waiting: pop the front task and read its value. The \<open>unwrap_unchecked\<close>
  of an empty queue, and giving a task that another thread pushed the lifetimes of this
  thread's frame, are undefined behaviour.
\<close>

definition pop_this_task ::
  "tid \<Rightarrow> bool \<Rightarrow> 'v MutexExclusive \<Rightarrow> 'v TaskWaitResult res \<times> 'v MutexExclusive" where
  "pop_this_task t processing_panicked mx =
     (case vd_pop_front (queue mx) of
        (None, q) \<Rightarrow> (UB, mx\<lparr>queue := q\<rparr>)
      | (Some this_task, q) \<Rightarrow>
          (bind_res (erased_into_inner this_task) (\<lambda>task.
             if task_state task \<noteq> t then UB
             else Ret (case task_value task of
                         Some this_value \<Rightarrow> WaitProcess this_value
                       | None \<Rightarrow> if processing_panicked then WaitProcessingPanicked
                                 else WaitProcessedElsewhere)),
           mx\<lparr>queue := q\<rparr>))"

text \<open>
  The end of \<open>process_unchecked\<close>: wake the next task, which hands the front permission to
  it, or release the permission if nothing is queued. Waking a task whose stack frame is gone
  is undefined behaviour.
\<close>

definition transfer_front ::
  "(TaskState \<Rightarrow> TaskState) \<Rightarrow> (tid \<Rightarrow> TaskState option) \<Rightarrow> 'v MutexExclusive \<Rightarrow>
     ((tid \<Rightarrow> TaskState option) \<times> 'v MutexExclusive) res" where
  "transfer_front wake frames mx =
     (case vd_front (queue mx) of
        Some next_front_task \<Rightarrow> bind_res (erased_inner next_front_task) (\<lambda>task.
          case frames (task_state task) of
            None \<Rightarrow> UB
          | Some ts \<Rightarrow> Ret (frames(task_state task \<mapsto> wake ts), mx))
      | None \<Rightarrow> Ret (frames, mx\<lparr>front_locked := False\<rparr>))"

definition finish_ok ::
  "(tid \<Rightarrow> TaskState option) \<Rightarrow> 'v MutexExclusive \<Rightarrow>
     ((tid \<Rightarrow> TaskState option) \<times> 'v MutexExclusive) res" where
  "finish_ok frames mx = transfer_front wake_front_task frames mx"

definition finish_err ::
  "(tid \<Rightarrow> TaskState option) \<Rightarrow> 'v MutexExclusive \<Rightarrow>
     ((tid \<Rightarrow> TaskState option) \<times> 'v MutexExclusive) res" where
  "finish_err frames mx =
     transfer_front wake_front_task_panicking frames (mx\<lparr>queue_poisoned := True\<rparr>)"

lemma push_task_queue:
  "push_task f n t v mx = Some mx' \<Longrightarrow>
     mx' = mx\<lparr>queue := queue mx @ [erased_new \<lparr>task_state = t, task_value = Some v\<rparr>]\<rparr> \<and>
     length (queue mx) < max_len n"
  by (auto simp: push_task_def vd_push_back_def Let_def split: if_splits)

lemma pop_this_task_Cons:
  assumes "queue mx = et # q" "is_init et" "owner et = t"
  shows "pop_this_task t p mx =
    (Ret (case value_of et of Some v \<Rightarrow> WaitProcess v
          | None \<Rightarrow> if p then WaitProcessingPanicked else WaitProcessedElsewhere),
     mx\<lparr>queue := q\<rparr>)"
  using assms by (simp add: pop_this_task_def vd_pop_front_def erased_into_inner_init)

lemma transfer_front_Nil:
  "queue mx = [] \<Longrightarrow> transfer_front wake frames mx = Ret (frames, mx\<lparr>front_locked := False\<rparr>)"
  by (simp add: transfer_front_def vd_front_def)

lemma transfer_front_Cons:
  "queue mx = et # q \<Longrightarrow> is_init et \<Longrightarrow> frames (owner et) = Some ts \<Longrightarrow>
     transfer_front wake frames mx = Ret (frames(owner et \<mapsto> wake ts), mx)"
  by (simp add: transfer_front_def vd_front_def erased_inner_init)

end
