(* ===== verification/Machine.thy ===== *)
theory Machine
  imports Queue
begin

text \<open>
  The queue under concurrent use: any number of threads, each running a client program,
  interleaved at the points where the code can block, release a lock or run user code.

  A program counter is a point of \<open>process_unchecked\<close> and its callees; the step from it
  runs the code up to the next point. Steps that read or write the mutex-protected state are
  separate from each other wherever the code has more than one statement between locking and
  unlocking, so that two threads in conflict would be visible as two threads at such points
  (\<open>uses_mutex_exclusive\<close> in \<open>Safety\<close>).
\<close>

section \<open>Client programs\<close>

text \<open>
  A client is the user's side of one thread: it calls the queue's public functions on any
  mutex, may lock a mutex itself and call \<open>process\<close> with any guard it holds (a session), may
  forget a guard or panic while holding one, and goes on after a call that panicked if it wants to.
  In a session \<open>SProcess m v task k kp\<close> passes the mutex \<open>m\<close> and the guard of the session,
  which need not belong together; \<open>k\<close> continues with the guard the call returns, \<open>kp\<close> after
  an unwind, which consumed it.
\<close>

datatype ('v, 'fs, 'm, 'u, 'r) client =
    Exit
  | CallLockAndProcess addr 'v "('v, 'fs, 'm, 'u, 'r) ProcessTask"
      "'r ProcessResult outcome \<Rightarrow> ('v, 'fs, 'm, 'u, 'r) client"
  | CallIsQueuePoisoned addr "bool outcome \<Rightarrow> ('v, 'fs, 'm, 'u, 'r) client"
  | CallClearQueuePoison addr "unit outcome \<Rightarrow> ('v, 'fs, 'm, 'u, 'r) client"
  | LockMutex addr "bool \<Rightarrow> ('v, 'fs, 'm, 'u, 'r) session"
  | ClearMutexPoison addr "('v, 'fs, 'm, 'u, 'r) client"
and ('v, 'fs, 'm, 'u, 'r) session =
    SReadState "'m \<Rightarrow> ('v, 'fs, 'm, 'u, 'r) session"
  | SWriteState 'm "('v, 'fs, 'm, 'u, 'r) session"
  | SProcess addr 'v "('v, 'fs, 'm, 'u, 'r) ProcessTask"
      "'r ProcessResult \<Rightarrow> ('v, 'fs, 'm, 'u, 'r) session"
      "panic \<Rightarrow> ('v, 'fs, 'm, 'u, 'r) client"
  | SDrop "('v, 'fs, 'm, 'u, 'r) client"
  | SForget "('v, 'fs, 'm, 'u, 'r) client"
  | SPanic "('v, 'fs, 'm, 'u, 'r) client"

text \<open>What the caller of \<open>process_unchecked\<close> does with its result.\<close>

datatype ('v, 'fs, 'm, 'u, 'r) caller =
    ByLockAndProcess "'r ProcessResult outcome \<Rightarrow> ('v, 'fs, 'm, 'u, 'r) client"
  | ByProcess "'r ProcessResult \<Rightarrow> ('v, 'fs, 'm, 'u, 'r) session"
      "panic \<Rightarrow> ('v, 'fs, 'm, 'u, 'r) client"

text \<open>What a closure of \<open>unlocked\<close> does with a mutex it has locked.\<close>

datatype ('fs, 'm, 'u) holding =
    InCritical "('fs, 'm, 'u) critical"
  | ReadsPoison "bool outcome \<Rightarrow> ('fs, 'm, 'u) closure"
  | ClearsPoison "unit outcome \<Rightarrow> ('fs, 'm, 'u) closure"

text \<open>The arguments of a call in progress.\<close>

datatype ('v, 'fs, 'm, 'u, 'r) frame = Frame
  (fr_mutex: addr) (fr_value: 'v) (fr_task: "('v, 'fs, 'm, 'u, 'r) ProcessTask")
  (fr_caller: "('v, 'fs, 'm, 'u, 'r) caller")

section \<open>Program counters and the state\<close>

datatype ('v, 'fs, 'm, 'u, 'r) pc =
    PClient "('v, 'fs, 'm, 'u, 'r) client"
  | PSession guard "('v, 'fs, 'm, 'u, 'r) session"
  | PLock "('v, 'fs, 'm, 'u, 'r) frame"
  | PAssert "('v, 'fs, 'm, 'u, 'r) frame" guard
  | PAcquire "('v, 'fs, 'm, 'u, 'r) frame" guard
  | PPush "('v, 'fs, 'm, 'u, 'r) frame" guard
  | PWait "('v, 'fs, 'm, 'u, 'r) frame" guard
  | PBlocked "('v, 'fs, 'm, 'u, 'r) frame" guard
  | PRelock "('v, 'fs, 'm, 'u, 'r) frame" guard
  | PCheckBit "('v, 'fs, 'm, 'u, 'r) frame" guard
  | PPopSelf "('v, 'fs, 'm, 'u, 'r) frame" guard bool
  | PQueuePoison "('v, 'fs, 'm, 'u, 'r) frame" guard "'v TaskWaitResult"
  | PMutexPoison "('v, 'fs, 'm, 'u, 'r) frame" guard 'v
  | PCallback "('v, 'fs, 'm, 'u, 'r) frame" QueueHandle "('v, 'fs, 'm, 'u, 'r) callback"
  | PUnlocked "('v, 'fs, 'm, 'u, 'r) frame" QueueHandle "('fs, 'm, 'u) closure"
      "'u outcome \<Rightarrow> ('v, 'fs, 'm, 'u, 'r) callback"
  | PUnlockedHolds "('v, 'fs, 'm, 'u, 'r) frame" QueueHandle guard "('fs, 'm, 'u) holding"
      "'u outcome \<Rightarrow> ('v, 'fs, 'm, 'u, 'r) callback"
  | PUnlockRelock "('v, 'fs, 'm, 'u, 'r) frame" QueueHandle "'u outcome"
      "'u outcome \<Rightarrow> ('v, 'fs, 'm, 'u, 'r) callback"
  | PErrLock "('v, 'fs, 'm, 'u, 'r) frame" panic
  | PErrHandoff "('v, 'fs, 'm, 'u, 'r) frame" guard panic
  | PHandoff "('v, 'fs, 'm, 'u, 'r) frame" guard "'r ProcessResult"
  | PReturn "('v, 'fs, 'm, 'u, 'r) frame" guard "'r ProcessResult"
  | PIsLock addr "bool outcome \<Rightarrow> ('v, 'fs, 'm, 'u, 'r) client"
  | PIsRead guard "bool outcome \<Rightarrow> ('v, 'fs, 'm, 'u, 'r) client"
  | PClearLock addr "unit outcome \<Rightarrow> ('v, 'fs, 'm, 'u, 'r) client"
  | PClearWrite guard "unit outcome \<Rightarrow> ('v, 'fs, 'm, 'u, 'r) client"

datatype status = Running | Aborted | Undefined

text \<open>
  The shared state. \<open>frames\<close> maps a thread to the \<open>TaskState\<close> on its stack, while there is
  one; \<open>mutex_size\<close> and \<open>elem_size\<close> are the sizes the compiler gives to the mutex and to an
  erased task.
\<close>

record ('v, 'fs, 'm, 'u, 'r) sys =
  status :: status
  mutexes :: "addr \<Rightarrow> 'm mutex"
  cq :: "('fs, 'v) ContentionQueue"
  frames :: "tid \<Rightarrow> TaskState option"
  pcs :: "tid \<Rightarrow> ('v, 'fs, 'm, 'u, 'r) pc"
  mutex_size :: nat
  elem_size :: nat

definition initial ::
  "'fs \<Rightarrow> PanicOptions \<Rightarrow> nat \<Rightarrow> nat \<Rightarrow> (addr \<Rightarrow> 'm) \<Rightarrow> (tid \<Rightarrow> ('v, 'fs, 'm, 'u, 'r) client) \<Rightarrow>
     ('v, 'fs, 'm, 'u, 'r) sys" where
  "initial fs opts msize esize ms clients =
     \<lparr>status = Running,
      mutexes = (\<lambda>a. \<lparr>holder = Free, poisoned = False, data = ms a\<rparr>),
      cq = new_with_options fs opts,
      frames = (\<lambda>_. None),
      pcs = (\<lambda>t. PClient (clients t)),
      mutex_size = msize, elem_size = esize\<rparr>"

text \<open>
  What the environment decides: a wait may end without a notification, locking a mutex again
  may panic instead of waiting for ever, an allocation may fail.
\<close>

datatype choice = Normal | Spurious | LockMayPanic | AllocFails

section \<open>State access\<close>

abbreviation set_pc ::
  "tid \<Rightarrow> ('v, 'fs, 'm, 'u, 'r) pc \<Rightarrow> ('v, 'fs, 'm, 'u, 'r) sys \<Rightarrow> ('v, 'fs, 'm, 'u, 'r) sys" where
  "set_pc t p s \<equiv> s\<lparr>pcs := (pcs s)(t := p)\<rparr>"

abbreviation upd_mutex ::
  "addr \<Rightarrow> ('m mutex \<Rightarrow> 'm mutex) \<Rightarrow> ('v, 'fs, 'm, 'u, 'r) sys \<Rightarrow> ('v, 'fs, 'm, 'u, 'r) sys" where
  "upd_mutex a f s \<equiv> s\<lparr>mutexes := (mutexes s)(a := f (mutexes s a))\<rparr>"

abbreviation mx :: "('v, 'fs, 'm, 'u, 'r) sys \<Rightarrow> 'v MutexExclusive" where
  "mx s \<equiv> mutex_exclusive_mut (cq s)"

abbreviation set_mx ::
  "'v MutexExclusive \<Rightarrow> ('v, 'fs, 'm, 'u, 'r) sys \<Rightarrow> ('v, 'fs, 'm, 'u, 'r) sys" where
  "set_mx m s \<equiv> s\<lparr>cq := put_mutex_exclusive m (cq s)\<rparr>"

text \<open>Locking inside a step: blocked is no step.\<close>

definition with_lock ::
  "choice \<Rightarrow> tid \<Rightarrow> addr \<Rightarrow> ('v, 'fs, 'm, 'u, 'r) sys \<Rightarrow>
     (('v, 'fs, 'm, 'u, 'r) sys \<Rightarrow> ('v, 'fs, 'm, 'u, 'r) sys) \<Rightarrow>
     (('v, 'fs, 'm, 'u, 'r) sys \<Rightarrow> ('v, 'fs, 'm, 'u, 'r) sys) \<Rightarrow>
     ('v, 'fs, 'm, 'u, 'r) sys option" where
  "with_lock ch t a s acquired panics =
     (case lock_attempt (ch = LockMayPanic) t (holder (mutexes s a)) of
        Acquires \<Rightarrow> Some (acquired (upd_mutex a (lock t) s))
      | WouldBlock \<Rightarrow> None
      | LockPanics \<Rightarrow> Some (panics s))"

text \<open>Dropping a guard, in normal control flow or while unwinding.\<close>

abbreviation dropping ::
  "bool \<Rightarrow> guard \<Rightarrow> ('v, 'fs, 'm, 'u, 'r) sys \<Rightarrow> ('v, 'fs, 'm, 'u, 'r) sys" where
  "dropping panicking g s \<equiv> upd_mutex (guard_mutex g) (drop_guard panicking g) s"

abbreviation undefined_behaviour :: "('v, 'fs, 'm, 'u, 'r) sys \<Rightarrow> ('v, 'fs, 'm, 'u, 'r) sys" where
  "undefined_behaviour s \<equiv> s\<lparr>status := Undefined\<rparr>"

text \<open>\<open>std::process::abort\<close>: no thread takes a step any more, and nothing is unwound.\<close>

definition process_abort :: "('v, 'fs, 'm, 'u, 'r) sys \<Rightarrow> ('v, 'fs, 'm, 'u, 'r) sys" where
  [simp]: "process_abort s = s\<lparr>status := Aborted\<rparr>"

text \<open>Unwinding out of \<open>process\<close> or \<open>lock_and_process\<close> into the client.\<close>

definition leave_unwinding ::
  "tid \<Rightarrow> ('v, 'fs, 'm, 'u, 'r) frame \<Rightarrow> panic \<Rightarrow> ('v, 'fs, 'm, 'u, 'r) sys \<Rightarrow>
     ('v, 'fs, 'm, 'u, 'r) sys" where
  "leave_unwinding t fr p s =
     set_pc t (PClient (case fr_caller fr of
                          ByLockAndProcess k \<Rightarrow> k (Unwound p)
                        | ByProcess k kp \<Rightarrow> kp p)) s"

end
