(* ===== verification/Steps.thy ===== *)
theory Steps
  imports Machine
begin

text \<open>
  The steps of a thread, one definition per program counter, and their composition. Each
  definition says which function of \<open>src/queue.rs\<close> (or of the client) it belongs to.
\<close>

section \<open>Up to the callback\<close>

text \<open>Client code, and the calls that begin with \<open>assert_mutex_good\<close> without a guard.\<close>

definition step_client ::
  "choice \<Rightarrow> tid \<Rightarrow> ('v, 'fs, 'm, 'u, 'r) client \<Rightarrow> ('v, 'fs, 'm, 'u, 'r) sys \<Rightarrow>
     ('v, 'fs, 'm, 'u, 'r) sys option" where
  "step_client ch t c s =
     (case c of
        Exit \<Rightarrow> None
      | CallLockAndProcess a v task k \<Rightarrow>
          Some (set_pc t (PLock (Frame a v task (ByLockAndProcess k))) s)
      | CallIsQueuePoisoned a k \<Rightarrow>
          (let (r, q) = assert_mutex_good a (mutex_size s) (cq s)
           in Some (set_pc t (case r of Unwind p \<Rightarrow> PClient (k (Unwound p)) | _ \<Rightarrow> PIsLock a k)
                      (s\<lparr>cq := q\<rparr>)))
      | CallClearQueuePoison a k \<Rightarrow>
          (let (r, q) = assert_mutex_good a (mutex_size s) (cq s)
           in Some (set_pc t (case r of Unwind p \<Rightarrow> PClient (k (Unwound p)) | _ \<Rightarrow> PClearLock a k)
                      (s\<lparr>cq := q\<rparr>)))
      | LockMutex a k \<Rightarrow>
          with_lock Normal t a s
            (set_pc t (PSession (Guard a False) (k (poisoned (mutexes s a))))) id
      | ClearMutexPoison a c' \<Rightarrow>
          Some (set_pc t (PClient c') (upd_mutex a (\<lambda>m. m\<lparr>poisoned := False\<rparr>) s)))"

definition step_session ::
  "tid \<Rightarrow> guard \<Rightarrow> ('v, 'fs, 'm, 'u, 'r) session \<Rightarrow> ('v, 'fs, 'm, 'u, 'r) sys \<Rightarrow>
     ('v, 'fs, 'm, 'u, 'r) sys" where
  "step_session t g c s =
     (case c of
        SReadState k \<Rightarrow> set_pc t (PSession g (k (data (mutexes s (guard_mutex g))))) s
      | SWriteState m c' \<Rightarrow>
          set_pc t (PSession g c') (upd_mutex (guard_mutex g) (\<lambda>mu. mu\<lparr>data := m\<rparr>) s)
      | SProcess a v task k kp \<Rightarrow> set_pc t (PAssert (Frame a v task (ByProcess k kp)) g) s
      | SDrop c' \<Rightarrow> set_pc t (PClient c') (dropping False g s)
      | SForget c' \<Rightarrow> set_pc t (PClient c') (upd_mutex (guard_mutex g) (leak_guard t) s)
      | SPanic c' \<Rightarrow> set_pc t (PClient c') (dropping True g s))"

text \<open>\<open>lock_and_process\<close> up to the call of \<open>process\<close>.\<close>

definition step_lock ::
  "choice \<Rightarrow> tid \<Rightarrow> ('v, 'fs, 'm, 'u, 'r) frame \<Rightarrow> ('v, 'fs, 'm, 'u, 'r) sys \<Rightarrow>
     ('v, 'fs, 'm, 'u, 'r) sys option" where
  "step_lock ch t fr s =
     (let a = fr_mutex fr; g = Guard a False
      in with_lock ch t a s
           (\<lambda>s'. case unwrap_poison (lock_outcome (mutexes s a) g) (unwrap_mutex_poison (options (cq s))) of
                   Ret g' \<Rightarrow> set_pc t (PAssert fr g') s'
                 | Unwind p \<Rightarrow> leave_unwinding t fr p (dropping True g s')
                 | UB \<Rightarrow> undefined_behaviour s')
           (leave_unwinding t fr LockReentered))"

text \<open>\<open>process\<close>: the mutex check; the guard is dropped if it unwinds.\<close>

definition step_assert ::
  "tid \<Rightarrow> ('v, 'fs, 'm, 'u, 'r) frame \<Rightarrow> guard \<Rightarrow> ('v, 'fs, 'm, 'u, 'r) sys \<Rightarrow>
     ('v, 'fs, 'm, 'u, 'r) sys" where
  "step_assert t fr g s =
     (let (r, q) = assert_mutex_good (fr_mutex fr) (mutex_size s) (cq s); s' = s\<lparr>cq := q\<rparr>
      in case r of
           Ret _ \<Rightarrow> set_pc t (PAcquire fr g) s'
         | Unwind p \<Rightarrow> leave_unwinding t fr p (dropping True g s')
         | UB \<Rightarrow> undefined_behaviour s')"

text \<open>\<open>try_process_unchecked\<close>: the fast path, or a fresh \<open>TaskState\<close> on the stack.\<close>

definition step_acquire ::
  "tid \<Rightarrow> ('v, 'fs, 'm, 'u, 'r) frame \<Rightarrow> guard \<Rightarrow> ('v, 'fs, 'm, 'u, 'r) sys \<Rightarrow>
     ('v, 'fs, 'm, 'u, 'r) sys" where
  "step_acquire t fr g s =
     (let (acquired_front, q) = try_acquire_front_fast (cq s); s' = s\<lparr>cq := q\<rparr>
      in if acquired_front then set_pc t (PMutexPoison fr g (fr_value fr)) s'
         else set_pc t (PPush fr g) (s'\<lparr>frames := (frames s')(t \<mapsto> TaskState_new)\<rparr>))"

text \<open>
  \<open>AbortIfNotAtFront\<close>, the guard that \<open>process_unchecked\<close> creates and hands down until the
  thread is at the front, where it is forgotten: dropping it aborts the process.
\<close>

datatype AbortIfNotAtFront = AbortIfNotAtFront

fun drop_abort_guard ::
  "AbortIfNotAtFront \<Rightarrow> ('v, 'fs, 'm, 'u, 'r) sys \<Rightarrow> ('v, 'fs, 'm, 'u, 'r) sys" where
  "drop_abort_guard AbortIfNotAtFront s = process_abort s"

text \<open>\<open>try_wait_until_at_front\<close>. A push that fails unwinds, which drops the guard.\<close>

definition step_push ::
  "choice \<Rightarrow> tid \<Rightarrow> ('v, 'fs, 'm, 'u, 'r) frame \<Rightarrow> guard \<Rightarrow> ('v, 'fs, 'm, 'u, 'r) sys \<Rightarrow>
     ('v, 'fs, 'm, 'u, 'r) sys" where
  "step_push ch t fr g s =
     (case push_task (ch = AllocFails) (elem_size s) t (fr_value fr) (mx s) of
        None \<Rightarrow> drop_abort_guard AbortIfNotAtFront s
      | Some m \<Rightarrow> set_pc t (PWait fr g) (set_mx m s))"

text \<open>\<open>Condvar::wait\<close>: release the mutex and block, in one step; the guard object stays.\<close>

definition step_wait ::
  "tid \<Rightarrow> ('v, 'fs, 'm, 'u, 'r) frame \<Rightarrow> guard \<Rightarrow> ('v, 'fs, 'm, 'u, 'r) sys \<Rightarrow>
     ('v, 'fs, 'm, 'u, 'r) sys" where
  "step_wait t fr g s =
     (case frames s t of
        None \<Rightarrow> undefined_behaviour s
      | Some ts \<Rightarrow>
          set_pc t (PBlocked fr g)
            (upd_mutex (guard_mutex g) (\<lambda>m. m\<lparr>holder := Free\<rparr>)
              (s\<lparr>frames := (frames s)(t \<mapsto> wait_enter t ts)\<rparr>)))"

definition step_blocked ::
  "choice \<Rightarrow> tid \<Rightarrow> ('v, 'fs, 'm, 'u, 'r) frame \<Rightarrow> guard \<Rightarrow> ('v, 'fs, 'm, 'u, 'r) sys \<Rightarrow>
     ('v, 'fs, 'm, 'u, 'r) sys option" where
  "step_blocked ch t fr g s =
     (case frames s t of
        None \<Rightarrow> Some (undefined_behaviour s)
      | Some ts \<Rightarrow>
          if t \<notin> set (condvar ts) then Some (set_pc t (PRelock fr g) s)
          else if ch = Spurious then
            Some (set_pc t (PRelock fr g) (s\<lparr>frames := (frames s)(t \<mapsto> wait_spurious t ts)\<rparr>))
          else None)"

text \<open>The wait ends when the mutex is locked again; the wait lock is never reentered.\<close>

definition step_relock ::
  "tid \<Rightarrow> ('v, 'fs, 'm, 'u, 'r) frame \<Rightarrow> guard \<Rightarrow> ('v, 'fs, 'm, 'u, 'r) sys \<Rightarrow>
     ('v, 'fs, 'm, 'u, 'r) sys option" where
  "step_relock t fr g s =
     with_lock Normal t (guard_mutex g) s (set_pc t (PCheckBit fr g)) id"

text \<open>The test of the wait loop.\<close>

definition step_check_bit ::
  "tid \<Rightarrow> ('v, 'fs, 'm, 'u, 'r) frame \<Rightarrow> guard \<Rightarrow> ('v, 'fs, 'm, 'u, 'r) sys \<Rightarrow>
     ('v, 'fs, 'm, 'u, 'r) sys" where
  "step_check_bit t fr g s =
     (case frames s t of
        None \<Rightarrow> undefined_behaviour s
      | Some ts \<Rightarrow>
          (case wait_check ts of
             None \<Rightarrow> set_pc t (PWait fr g) s
           | Some processing_panicked \<Rightarrow> set_pc t (PPopSelf fr g processing_panicked) s))"

definition step_pop_self ::
  "tid \<Rightarrow> ('v, 'fs, 'm, 'u, 'r) frame \<Rightarrow> guard \<Rightarrow> bool \<Rightarrow> ('v, 'fs, 'm, 'u, 'r) sys \<Rightarrow>
     ('v, 'fs, 'm, 'u, 'r) sys" where
  "step_pop_self t fr g processing_panicked s =
     (let (r, m) = pop_this_task t processing_panicked (mx s)
      in case r of
           Ret result \<Rightarrow> set_pc t (PQueuePoison fr g result) (set_mx m s)
         | _ \<Rightarrow> undefined_behaviour s)"

text \<open>
  The rest of the slow path of \<open>try_process_unchecked\<close>. The \<open>TaskState\<close> leaves the stack on
  every way out; the guard is dropped while unwinding if the queue is poisoned.
\<close>

definition step_queue_poison ::
  "tid \<Rightarrow> ('v, 'fs, 'm, 'u, 'r) frame \<Rightarrow> guard \<Rightarrow> 'v TaskWaitResult \<Rightarrow>
     ('v, 'fs, 'm, 'u, 'r) sys \<Rightarrow> ('v, 'fs, 'm, 'u, 'r) sys" where
  "step_queue_poison t fr g result s =
     (let s' = s\<lparr>frames := (frames s)(t := None)\<rparr>
      in if unwrap_queue_poison (options (cq s)) \<and> queue_poisoned (mx s)
         then set_pc t (PErrLock fr QueuePoisoned) (dropping True g s')
         else set_pc t (case result of
                          WaitProcess this_value \<Rightarrow> PMutexPoison fr g this_value
                        | WaitProcessedElsewhere \<Rightarrow> PHandoff fr g ProcessedElsewhere
                        | WaitProcessingPanicked \<Rightarrow> PHandoff fr g ProcessingPanicked) s')"

text \<open>
  The test of the mutex's poison flag, then the creation of the handle and the callback.
\<close>

definition step_mutex_poison ::
  "tid \<Rightarrow> ('v, 'fs, 'm, 'u, 'r) frame \<Rightarrow> guard \<Rightarrow> 'v \<Rightarrow> ('v, 'fs, 'm, 'u, 'r) sys \<Rightarrow>
     ('v, 'fs, 'm, 'u, 'r) sys" where
  "step_mutex_poison t fr g value s =
     (if unwrap_mutex_poison (options (cq s)) \<and> poisoned (mutexes s (fr_mutex fr))
      then set_pc t (PErrLock fr MutexPoisoned) (dropping True g s)
      else set_pc t (PCallback fr (handle_new (fr_mutex fr) g) (fr_task fr value)) s)"

section \<open>The callback\<close>

text \<open>
  One operation of the callback. A callback that panics unwinds through
  \<open>try_process_unchecked\<close>, where the guard sits in a \<open>MaybeUninit\<close>: it is not dropped, so the
  mutex stays locked.
\<close>

definition step_callback ::
  "tid \<Rightarrow> ('v, 'fs, 'm, 'u, 'r) frame \<Rightarrow> QueueHandle \<Rightarrow> ('v, 'fs, 'm, 'u, 'r) callback \<Rightarrow>
     ('v, 'fs, 'm, 'u, 'r) sys \<Rightarrow> ('v, 'fs, 'm, 'u, 'r) sys" where
  "step_callback t fr h cb s =
     (case cb of
        CbReturn r \<Rightarrow>
          (case assume_init (qh_guard h) of
             Ret g \<Rightarrow> set_pc t (PHandoff fr g (Processed r)) s
           | _ \<Rightarrow> undefined_behaviour s)
      | CbPanic n \<Rightarrow>
          set_pc t (PErrLock fr (UserPanic n))
            (case qh_guard h of
               Init g \<Rightarrow> upd_mutex (guard_mutex g) (leak_guard t) s
             | Uninit \<Rightarrow> s)
      | CbReadFront k \<Rightarrow> set_pc t (PCallback fr h (k (front_exclusive_mut (cq s)))) s
      | CbWriteFront fs cb' \<Rightarrow>
          set_pc t (PCallback fr h cb') (s\<lparr>cq := put_front_state fs (cq s)\<rparr>)
      | CbPeek k \<Rightarrow>
          (case handle_peek h (mx s) of
             Ret v \<Rightarrow> set_pc t (PCallback fr h (k (Returned v))) s
           | Unwind p \<Rightarrow> set_pc t (PCallback fr h (k (Unwound p))) s
           | UB \<Rightarrow> undefined_behaviour s)
      | CbPop k \<Rightarrow>
          (let (r, h', m) = handle_pop h (mx s); s' = set_mx m s
           in case r of
                Ret v \<Rightarrow> set_pc t (PCallback fr h' (k (Returned v))) s'
              | Unwind p \<Rightarrow> set_pc t (PCallback fr h' (k (Unwound p))) s'
              | UB \<Rightarrow> undefined_behaviour s)
      | CbMutexState k \<Rightarrow>
          (case handle_mutex_state h (mutexes s) of
             Ret m \<Rightarrow> set_pc t (PCallback fr h (k m)) s
           | _ \<Rightarrow> undefined_behaviour s)
      | CbMutexStateMut m cb' \<Rightarrow>
          (case handle_mutex_state_mut h m (mutexes s) of
             Ret ms \<Rightarrow> set_pc t (PCallback fr h cb') (s\<lparr>mutexes := ms\<rparr>)
           | _ \<Rightarrow> undefined_behaviour s)
      | CbUnlocked clo k \<Rightarrow>
          (case relock_new h of
             (Ret g, h') \<Rightarrow> set_pc t (PUnlocked fr h' clo k) (dropping False g s)
           | _ \<Rightarrow> undefined_behaviour s)
      | CbIsQueuePoisoned k \<Rightarrow>
          (case handle_is_queue_poisoned h (mx s) of
             Ret b \<Rightarrow> set_pc t (PCallback fr h (k b)) s
           | _ \<Rightarrow> undefined_behaviour s)
      | CbClearQueuePoison cb' \<Rightarrow>
          (case handle_clear_queue_poison h (mx s) of
             Ret m \<Rightarrow> set_pc t (PCallback fr h cb') (set_mx m s)
           | _ \<Rightarrow> undefined_behaviour s))"

text \<open>The lock of \<open>is_queue_poisoned\<close> and \<open>clear_queue_poison\<close>, called by a closure.\<close>

definition closure_lock ::
  "choice \<Rightarrow> tid \<Rightarrow> ('v, 'fs, 'm, 'u, 'r) frame \<Rightarrow> QueueHandle \<Rightarrow> addr \<Rightarrow> ('fs, 'm, 'u) holding \<Rightarrow>
     ('fs, 'm, 'u) closure \<Rightarrow> ('u outcome \<Rightarrow> ('v, 'fs, 'm, 'u, 'r) callback) \<Rightarrow>
     ('v, 'fs, 'm, 'u, 'r) sys \<Rightarrow> ('v, 'fs, 'm, 'u, 'r) sys option" where
  "closure_lock ch t fr h a x unwound k s =
     with_lock ch t a s
       (set_pc t (PUnlockedHolds fr h (into_inner (lock_outcome (mutexes s a) (Guard a False))) x k))
       (set_pc t (PUnlocked fr h unwound k))"

text \<open>
  The closure of \<open>unlocked\<close>; whichever way it ends, the \<open>ReLock\<close> is dropped next. It may lock a
  mutex, and call the accessors of the queue's poison with one.
\<close>

definition step_unlocked ::
  "choice \<Rightarrow> tid \<Rightarrow> ('v, 'fs, 'm, 'u, 'r) frame \<Rightarrow> QueueHandle \<Rightarrow> ('fs, 'm, 'u) closure \<Rightarrow>
     ('u outcome \<Rightarrow> ('v, 'fs, 'm, 'u, 'r) callback) \<Rightarrow>
     ('v, 'fs, 'm, 'u, 'r) sys \<Rightarrow> ('v, 'fs, 'm, 'u, 'r) sys option" where
  "step_unlocked ch t fr h clo k s =
     (case clo of
        CloReturn u \<Rightarrow> Some (set_pc t (PUnlockRelock fr h (Returned u) k) s)
      | CloPanic n \<Rightarrow> Some (set_pc t (PUnlockRelock fr h (Unwound (UserPanic n)) k) s)
      | CloReadFront f \<Rightarrow> Some (set_pc t (PUnlocked fr h (f (front_exclusive_mut (cq s))) k) s)
      | CloWriteFront fs clo' \<Rightarrow>
          Some (set_pc t (PUnlocked fr h clo' k) (s\<lparr>cq := put_front_state fs (cq s)\<rparr>))
      | CloLockMutex a f \<Rightarrow>
          with_lock ch t a s
            (set_pc t (PUnlockedHolds fr h (Guard a False) (InCritical (f (poisoned (mutexes s a)))) k))
            (set_pc t (PUnlockRelock fr h (Unwound LockReentered) k))
      | CloIsQueuePoisoned a f \<Rightarrow>
          (let (r, q) = assert_mutex_good a (mutex_size s) (cq s); s' = s\<lparr>cq := q\<rparr>
           in case r of
                Unwind p \<Rightarrow> Some (set_pc t (PUnlocked fr h (f (Unwound p)) k) s')
              | _ \<Rightarrow> closure_lock ch t fr h a (ReadsPoison f) (f (Unwound LockReentered)) k s')
      | CloClearQueuePoison a f \<Rightarrow>
          (let (r, q) = assert_mutex_good a (mutex_size s) (cq s); s' = s\<lparr>cq := q\<rparr>
           in case r of
                Unwind p \<Rightarrow> Some (set_pc t (PUnlocked fr h (f (Unwound p)) k) s')
              | _ \<Rightarrow> closure_lock ch t fr h a (ClearsPoison f) (f (Unwound LockReentered)) k s'))"

text \<open>The rest of the calls of \<open>is_queue_poisoned\<close> and \<open>clear_queue_poison\<close>, after their lock.\<close>

definition closure_is_read ::
  "tid \<Rightarrow> ('v, 'fs, 'm, 'u, 'r) frame \<Rightarrow> QueueHandle \<Rightarrow> guard \<Rightarrow> (bool outcome \<Rightarrow> ('fs, 'm, 'u) closure) \<Rightarrow>
     ('u outcome \<Rightarrow> ('v, 'fs, 'm, 'u, 'r) callback) \<Rightarrow>
     ('v, 'fs, 'm, 'u, 'r) sys \<Rightarrow> ('v, 'fs, 'm, 'u, 'r) sys" where
  [simp]: "closure_is_read t fr h g f k s =
     set_pc t (PUnlocked fr h (f (Returned (queue_poisoned (mx s)))) k) (dropping False g s)"

definition closure_clear_write ::
  "tid \<Rightarrow> ('v, 'fs, 'm, 'u, 'r) frame \<Rightarrow> QueueHandle \<Rightarrow> guard \<Rightarrow> (unit outcome \<Rightarrow> ('fs, 'm, 'u) closure) \<Rightarrow>
     ('u outcome \<Rightarrow> ('v, 'fs, 'm, 'u, 'r) callback) \<Rightarrow>
     ('v, 'fs, 'm, 'u, 'r) sys \<Rightarrow> ('v, 'fs, 'm, 'u, 'r) sys" where
  [simp]: "closure_clear_write t fr h g f k s =
     set_pc t (PUnlocked fr h (f (Returned ())) k)
       (dropping False g (set_mx ((mx s)\<lparr>queue_poisoned := False\<rparr>) s))"

text \<open>The closure with a guard: its critical section, or the rest of an accessor's call.\<close>

definition step_holding ::
  "tid \<Rightarrow> ('v, 'fs, 'm, 'u, 'r) frame \<Rightarrow> QueueHandle \<Rightarrow> guard \<Rightarrow> ('fs, 'm, 'u) holding \<Rightarrow>
     ('u outcome \<Rightarrow> ('v, 'fs, 'm, 'u, 'r) callback) \<Rightarrow>
     ('v, 'fs, 'm, 'u, 'r) sys \<Rightarrow> ('v, 'fs, 'm, 'u, 'r) sys" where
  "step_holding t fr h g x k s =
     (case x of
        InCritical c \<Rightarrow>
          (case c of
             CritReadState f \<Rightarrow>
               set_pc t (PUnlockedHolds fr h g (InCritical (f (data (mutexes s (guard_mutex g))))) k) s
           | CritWriteState m c' \<Rightarrow>
               set_pc t (PUnlockedHolds fr h g (InCritical c') k)
                 (upd_mutex (guard_mutex g) (\<lambda>mu. mu\<lparr>data := m\<rparr>) s)
           | CritReadFront f \<Rightarrow>
               set_pc t (PUnlockedHolds fr h g (InCritical (f (front_exclusive_mut (cq s)))) k) s
           | CritWriteFront fs c' \<Rightarrow>
               set_pc t (PUnlockedHolds fr h g (InCritical c') k) (s\<lparr>cq := put_front_state fs (cq s)\<rparr>)
           | CritDrop clo \<Rightarrow> set_pc t (PUnlocked fr h clo k) (dropping False g s)
           | CritForget clo \<Rightarrow>
               set_pc t (PUnlocked fr h clo k) (upd_mutex (guard_mutex g) (leak_guard t) s)
           | CritPanic n \<Rightarrow>
               set_pc t (PUnlockRelock fr h (Unwound (UserPanic n)) k) (dropping True g s))
      | ReadsPoison f \<Rightarrow> closure_is_read t fr h g f k s
      | ClearsPoison f \<Rightarrow> closure_clear_write t fr h g f k s)"

text \<open>
  \<open>ReLock::drop\<close>: lock the handle's mutex again, ignoring poison, and put the guard back. The
  guard is made while panicking if the closure panicked. A panic of the lock aborts.
\<close>

definition step_unlock_relock ::
  "choice \<Rightarrow> tid \<Rightarrow> ('v, 'fs, 'm, 'u, 'r) frame \<Rightarrow> QueueHandle \<Rightarrow> 'u outcome \<Rightarrow>
     ('u outcome \<Rightarrow> ('v, 'fs, 'm, 'u, 'r) callback) \<Rightarrow>
     ('v, 'fs, 'm, 'u, 'r) sys \<Rightarrow> ('v, 'fs, 'm, 'u, 'r) sys option" where
  "step_unlock_relock ch t fr h out k s =
     (let a = ns_get (qh_mutex h);
          g = Guard a (case out of Returned _ \<Rightarrow> False | Unwound _ \<Rightarrow> True)
      in with_lock ch t a s
           (set_pc t (PCallback fr
             (relock_drop (into_inner (lock_outcome (mutexes s a) g)) h) (k out)))
           process_abort)"

section \<open>After the callback\<close>

text \<open>
  The \<open>Err\<close> branch of \<open>process_unchecked\<close>: lock the mutex, ignoring poison. If this lock
  panics, the panic leaves \<open>process\<close> at once.
\<close>

definition step_err_lock ::
  "choice \<Rightarrow> tid \<Rightarrow> ('v, 'fs, 'm, 'u, 'r) frame \<Rightarrow> panic \<Rightarrow> ('v, 'fs, 'm, 'u, 'r) sys \<Rightarrow>
     ('v, 'fs, 'm, 'u, 'r) sys option" where
  "step_err_lock ch t fr p s =
     (let a = fr_mutex fr; g = Guard a False
      in with_lock ch t a s
           (set_pc t (PErrHandoff fr (into_inner (lock_outcome (mutexes s a) g)) p))
           (leave_unwinding t fr LockReentered))"

text \<open>Poison the queue, wake the next task panicking, drop the guard, resume the unwind.\<close>

definition step_err_handoff ::
  "tid \<Rightarrow> ('v, 'fs, 'm, 'u, 'r) frame \<Rightarrow> guard \<Rightarrow> panic \<Rightarrow> ('v, 'fs, 'm, 'u, 'r) sys \<Rightarrow>
     ('v, 'fs, 'm, 'u, 'r) sys" where
  "step_err_handoff t fr g p s =
     (case finish_err (frames s) (mx s) of
        Ret (fs, m) \<Rightarrow> leave_unwinding t fr p (dropping False g (set_mx m (s\<lparr>frames := fs\<rparr>)))
      | _ \<Rightarrow> undefined_behaviour s)"

text \<open>The end of \<open>process_unchecked\<close> after a normal return.\<close>

definition step_handoff ::
  "tid \<Rightarrow> ('v, 'fs, 'm, 'u, 'r) frame \<Rightarrow> guard \<Rightarrow> 'r ProcessResult \<Rightarrow>
     ('v, 'fs, 'm, 'u, 'r) sys \<Rightarrow> ('v, 'fs, 'm, 'u, 'r) sys" where
  "step_handoff t fr g r s =
     (case finish_ok (frames s) (mx s) of
        Ret (fs, m) \<Rightarrow> set_pc t (PReturn fr g r) (set_mx m (s\<lparr>frames := fs\<rparr>))
      | _ \<Rightarrow> undefined_behaviour s)"

text \<open>\<open>lock_and_process\<close> drops the returned guard; \<open>process\<close> returns it to its caller.\<close>

definition step_return ::
  "tid \<Rightarrow> ('v, 'fs, 'm, 'u, 'r) frame \<Rightarrow> guard \<Rightarrow> 'r ProcessResult \<Rightarrow>
     ('v, 'fs, 'm, 'u, 'r) sys \<Rightarrow> ('v, 'fs, 'm, 'u, 'r) sys" where
  "step_return t fr g r s =
     (case fr_caller fr of
        ByLockAndProcess k \<Rightarrow> set_pc t (PClient (k (Returned r))) (dropping False g s)
      | ByProcess k kp \<Rightarrow> set_pc t (PSession g (k r)) s)"

text \<open>\<open>is_queue_poisoned\<close> and \<open>clear_queue_poison\<close> after the mutex check.\<close>

definition step_is_lock ::
  "choice \<Rightarrow> tid \<Rightarrow> addr \<Rightarrow> (bool outcome \<Rightarrow> ('v, 'fs, 'm, 'u, 'r) client) \<Rightarrow>
     ('v, 'fs, 'm, 'u, 'r) sys \<Rightarrow> ('v, 'fs, 'm, 'u, 'r) sys option" where
  "step_is_lock ch t a k s =
     with_lock ch t a s
       (set_pc t (PIsRead (into_inner (lock_outcome (mutexes s a) (Guard a False))) k))
       (set_pc t (PClient (k (Unwound LockReentered))))"

definition step_is_read ::
  "tid \<Rightarrow> guard \<Rightarrow> (bool outcome \<Rightarrow> ('v, 'fs, 'm, 'u, 'r) client) \<Rightarrow>
     ('v, 'fs, 'm, 'u, 'r) sys \<Rightarrow> ('v, 'fs, 'm, 'u, 'r) sys" where
  "step_is_read t g k s =
     set_pc t (PClient (k (Returned (queue_poisoned (mx s))))) (dropping False g s)"

definition step_clear_lock ::
  "choice \<Rightarrow> tid \<Rightarrow> addr \<Rightarrow> (unit outcome \<Rightarrow> ('v, 'fs, 'm, 'u, 'r) client) \<Rightarrow>
     ('v, 'fs, 'm, 'u, 'r) sys \<Rightarrow> ('v, 'fs, 'm, 'u, 'r) sys option" where
  "step_clear_lock ch t a k s =
     with_lock ch t a s
       (set_pc t (PClearWrite (into_inner (lock_outcome (mutexes s a) (Guard a False))) k))
       (set_pc t (PClient (k (Unwound LockReentered))))"

definition step_clear_write ::
  "tid \<Rightarrow> guard \<Rightarrow> (unit outcome \<Rightarrow> ('v, 'fs, 'm, 'u, 'r) client) \<Rightarrow>
     ('v, 'fs, 'm, 'u, 'r) sys \<Rightarrow> ('v, 'fs, 'm, 'u, 'r) sys" where
  "step_clear_write t g k s =
     set_pc t (PClient (k (Returned ())))
       (dropping False g (set_mx ((mx s)\<lparr>queue_poisoned := False\<rparr>) s))"

section \<open>The system\<close>

definition step_pc ::
  "choice \<Rightarrow> tid \<Rightarrow> ('v, 'fs, 'm, 'u, 'r) pc \<Rightarrow> ('v, 'fs, 'm, 'u, 'r) sys \<Rightarrow>
     ('v, 'fs, 'm, 'u, 'r) sys option" where
  "step_pc ch t p s =
     (case p of
        PClient c \<Rightarrow> step_client ch t c s
      | PSession g c \<Rightarrow> Some (step_session t g c s)
      | PLock fr \<Rightarrow> step_lock ch t fr s
      | PAssert fr g \<Rightarrow> Some (step_assert t fr g s)
      | PAcquire fr g \<Rightarrow> Some (step_acquire t fr g s)
      | PPush fr g \<Rightarrow> Some (step_push ch t fr g s)
      | PWait fr g \<Rightarrow> Some (step_wait t fr g s)
      | PBlocked fr g \<Rightarrow> step_blocked ch t fr g s
      | PRelock fr g \<Rightarrow> step_relock t fr g s
      | PCheckBit fr g \<Rightarrow> Some (step_check_bit t fr g s)
      | PPopSelf fr g b \<Rightarrow> Some (step_pop_self t fr g b s)
      | PQueuePoison fr g w \<Rightarrow> Some (step_queue_poison t fr g w s)
      | PMutexPoison fr g v \<Rightarrow> Some (step_mutex_poison t fr g v s)
      | PCallback fr h cb \<Rightarrow> Some (step_callback t fr h cb s)
      | PUnlocked fr h clo k \<Rightarrow> step_unlocked ch t fr h clo k s
      | PUnlockedHolds fr h g x k \<Rightarrow> Some (step_holding t fr h g x k s)
      | PUnlockRelock fr h out k \<Rightarrow> step_unlock_relock ch t fr h out k s
      | PErrLock fr p \<Rightarrow> step_err_lock ch t fr p s
      | PErrHandoff fr g p \<Rightarrow> Some (step_err_handoff t fr g p s)
      | PHandoff fr g r \<Rightarrow> Some (step_handoff t fr g r s)
      | PReturn fr g r \<Rightarrow> Some (step_return t fr g r s)
      | PIsLock a k \<Rightarrow> step_is_lock ch t a k s
      | PIsRead g k \<Rightarrow> Some (step_is_read t g k s)
      | PClearLock a k \<Rightarrow> step_clear_lock ch t a k s
      | PClearWrite g k \<Rightarrow> Some (step_clear_write t g k s))"

definition thread_step ::
  "choice \<Rightarrow> tid \<Rightarrow> ('v, 'fs, 'm, 'u, 'r) sys \<Rightarrow> ('v, 'fs, 'm, 'u, 'r) sys option" where
  "thread_step ch t s = (if status s = Running then step_pc ch t (pcs s t) s else None)"

inductive sys_step :: "('v, 'fs, 'm, 'u, 'r) sys \<Rightarrow> ('v, 'fs, 'm, 'u, 'r) sys \<Rightarrow> bool" where
  thread: "thread_step ch t s = Some s' \<Longrightarrow> sys_step s s'"

inductive_cases sys_stepE: "sys_step s s'"

lemma thread_stepD:
  "thread_step ch t s = Some s' \<Longrightarrow> step_pc ch t (pcs s t) s = Some s'"
  by (simp add: thread_step_def split: if_splits)

lemma thread_step_running: "thread_step ch t s = Some s' \<Longrightarrow> status s = Running"
  by (simp add: thread_step_def split: if_splits)

lemma sys_step_pcE:
  assumes "sys_step s s'"
  obtains ch t where "status s = Running" "step_pc ch t (pcs s t) s = Some s'"
  using assms by (auto elim!: sys_stepE dest: thread_stepD thread_step_running)

text \<open>A schedule: which thread moves, and what the environment chooses, in turn.\<close>

fun run :: "(tid \<times> choice) list \<Rightarrow> ('v, 'fs, 'm, 'u, 'r) sys \<Rightarrow> ('v, 'fs, 'm, 'u, 'r) sys option" where
  "run [] s = Some s"
| "run ((t, ch) # sched) s =
     (case thread_step ch t s of None \<Rightarrow> None | Some s' \<Rightarrow> run sched s')"

lemma run_reach: "run sched s = Some s' \<Longrightarrow> reach sys_step s s'"
proof (induction sched arbitrary: s)
  case Nil
  then show ?case by (auto intro: reach_refl)
next
  case (Cons x sched)
  obtain t ch where x: "x = (t, ch)" by (cases x)
  with Cons.prems obtain s1 where s1: "thread_step ch t s = Some s1" "run sched s1 = Some s'"
    by (auto split: option.splits)
  have "reach sys_step s s1"
    using s1(1) by (blast intro: reach_refl reach_step sys_step.thread)
  with Cons.IH [OF s1(2)] show ?case by (rule reach_trans)
qed

lemmas step_pc_defs [step_defs] =
  step_client_def step_session_def step_lock_def step_assert_def step_acquire_def step_push_def
  step_wait_def step_blocked_def step_relock_def step_check_bit_def step_pop_self_def
  step_queue_poison_def step_mutex_poison_def step_callback_def closure_lock_def step_unlocked_def
  step_holding_def
  step_unlock_relock_def step_err_lock_def step_err_handoff_def step_handoff_def
  step_return_def step_is_lock_def step_is_read_def step_clear_lock_def step_clear_write_def

end
