(* ===== verification/Protocol.thy ===== *)
theory Protocol
  imports Steps
begin

text \<open>
  The hand-off protocol of the front permission, separated from the program text: where each
  thread stands (its stage), the live stack frames, the queue and the \<open>front_locked\<close> flag,
  the invariant that relates them, and one lemma per transition. \<open>Invariants\<close> shows that the
  steps of the machine are these transitions.
\<close>

section \<open>Stages\<close>

datatype waiting = Waits | Blocks | Relocks | Checks | Pops bool

datatype work =
    Deciding bool   \<comment> \<open>popped itself; whether it still has its value\<close>
  | Fresh           \<comment> \<open>about to process its value\<close>
  | Serving nat     \<comment> \<open>in its callback, with that many tasks popped through the handle\<close>
  | Leaving         \<comment> \<open>about to hand the permission on\<close>

datatype stage = Away | Pushing | InQueue waiting | AtFront work

fun at_front :: "stage \<Rightarrow> bool" where
  "at_front (AtFront w) = True"
| "at_front _ = False"

fun in_queue :: "stage \<Rightarrow> bool" where
  "in_queue (InQueue w) = True"
| "in_queue _ = False"

lemma at_front_not_in_queue: "at_front x \<Longrightarrow> \<not> in_queue x"
  by (cases x) auto

text \<open>The stages at which a thread is certain to hold the mutex.\<close>

fun holds_mutex :: "stage \<Rightarrow> bool" where
  "holds_mutex Away = False"
| "holds_mutex Pushing = True"
| "holds_mutex (InQueue w) = (case w of Blocks \<Rightarrow> False | Relocks \<Rightarrow> False | _ \<Rightarrow> True)"
| "holds_mutex (AtFront w) = (case w of Deciding b \<Rightarrow> True | Fresh \<Rightarrow> True | _ \<Rightarrow> False)"

section \<open>The invariant\<close>

text \<open>The queue holds exactly the tasks of the waiting threads, one each, all initialised.\<close>

definition queue_inv :: "(tid \<Rightarrow> stage) \<Rightarrow> 'v ErasedTask list \<Rightarrow> nat \<Rightarrow> bool" where
  "queue_inv S q n \<longleftrightarrow>
     (\<forall>et \<in> set q. is_init et) \<and> distinct (map owner q) \<and>
     (\<forall>t. t \<in> owner ` set q \<longleftrightarrow> in_queue (S t)) \<and> length q \<le> n"

text \<open>
  A waiting thread and its \<open>TaskState\<close>. The line for \<open>Blocks\<close> is the absence of lost
  wake-ups: a thread blocks on its condition variable exactly as long as its front bit is off.
\<close>

fun wait_ok :: "tid \<Rightarrow> waiting \<Rightarrow> TaskState \<Rightarrow> bool" where
  "wait_ok t Waits ts \<longleftrightarrow> condvar ts = [] \<and> \<not> front_bit ts"
| "wait_ok t Blocks ts \<longleftrightarrow> condvar ts = (if front_bit ts then [] else [t])"
| "wait_ok t Relocks ts \<longleftrightarrow> condvar ts = []"
| "wait_ok t Checks ts \<longleftrightarrow> condvar ts = []"
| "wait_ok t (Pops b) ts \<longleftrightarrow> condvar ts = [] \<and> front_bit ts \<and> b = panic_bit ts"

definition frames_inv :: "(tid \<Rightarrow> stage) \<Rightarrow> (tid \<Rightarrow> TaskState option) \<Rightarrow> bool" where
  "frames_inv S F \<longleftrightarrow>
     (\<forall>t. S t = Pushing \<longrightarrow> F t = Some TaskState_new) \<and>
     (\<forall>t w. S t = InQueue w \<longrightarrow> (\<exists>ts. F t = Some ts \<and> wait_ok t w ts))"

definition bit_at :: "(tid \<Rightarrow> TaskState option) \<Rightarrow> tid \<Rightarrow> bool" where
  "bit_at F t \<longleftrightarrow> (case F t of None \<Rightarrow> False | Some ts \<Rightarrow> front_bit ts)"

text \<open>
  The permission has at most one owner, a thread at the front or the woken head of the queue;
  \<open>front_locked\<close> says whether it has one. When a guard has been leaked (\<open>lost\<close>), the flag may
  stay set without an owner.
\<close>

definition front_inv ::
  "(tid \<Rightarrow> stage) \<Rightarrow> (tid \<Rightarrow> TaskState option) \<Rightarrow> 'v ErasedTask list \<Rightarrow> bool \<Rightarrow> bool \<Rightarrow> bool" where
  "front_inv S F q locked lost \<longleftrightarrow>
     (\<forall>t u. at_front (S t) \<longrightarrow> at_front (S u) \<longrightarrow> t = u) \<and>
     (\<forall>t. in_queue (S t) \<longrightarrow> bit_at F t \<longrightarrow>
        q \<noteq> [] \<and> owner (hd q) = t \<and> (\<forall>u. \<not> at_front (S u))) \<and>
     ((\<exists>t. at_front (S t) \<or> in_queue (S t) \<or> S t = Pushing) \<longrightarrow> locked) \<and>
     (locked \<longrightarrow> lost \<or> (\<exists>t. at_front (S t)) \<or> (q \<noteq> [] \<and> bit_at F (owner (hd q))))"

text \<open>The popped tasks form a prefix of the queue, as long as the front's handle says.\<close>

fun prefix_ok :: "stage \<Rightarrow> nat \<Rightarrow> bool" where
  "prefix_ok (AtFront (Deciding b)) k \<longleftrightarrow> (b \<longrightarrow> k = 0)"
| "prefix_ok (AtFront Fresh) k \<longleftrightarrow> k = 0"
| "prefix_ok (AtFront (Serving j)) k \<longleftrightarrow> k = j"
| "prefix_ok _ k \<longleftrightarrow> True"

definition values_inv :: "(tid \<Rightarrow> stage) \<Rightarrow> 'v ErasedTask list \<Rightarrow> bool" where
  "values_inv S q \<longleftrightarrow> (\<exists>k. popped_prefix k q \<and> (\<forall>t. prefix_ok (S t) k))"

definition proto_inv ::
  "(tid \<Rightarrow> stage) \<Rightarrow> (tid \<Rightarrow> TaskState option) \<Rightarrow> 'v ErasedTask list \<Rightarrow> bool \<Rightarrow> bool \<Rightarrow> nat \<Rightarrow> bool" where
  "proto_inv S F q locked lost n \<longleftrightarrow>
     queue_inv S q n \<and> frames_inv S F \<and> front_inv S F q locked lost \<and> values_inv S q"

lemmas proto_defs = proto_inv_def queue_inv_def frames_inv_def front_inv_def values_inv_def

lemma bit_at_Some [simp]: "F t = Some ts \<Longrightarrow> bit_at F t = front_bit ts"
  by (simp add: bit_at_def)

lemma bit_at_upd [simp]:
  "bit_at (F(t \<mapsto> ts)) u = (if u = t then front_bit ts else bit_at F u)"
  "bit_at (F(t := None)) u = (u \<noteq> t \<and> bit_at F u)"
  by (simp_all add: bit_at_def)

lemma front_unique: "front_inv S F q l lost \<Longrightarrow> at_front (S t) \<Longrightarrow> at_front (S u) \<Longrightarrow> t = u"
  by (simp add: front_inv_def)

lemma front_bitD:
  "front_inv S F q l lost \<Longrightarrow> in_queue (S t) \<Longrightarrow> bit_at F t \<Longrightarrow>
     q \<noteq> [] \<and> owner (hd q) = t \<and> (\<forall>u. \<not> at_front (S u))"
  by (simp add: front_inv_def)

lemma front_lockedI:
  "front_inv S F q l lost \<Longrightarrow> at_front (S t) \<or> in_queue (S t) \<or> S t = Pushing \<Longrightarrow> l"
  by (auto simp: front_inv_def)

lemma front_ownerD:
  "front_inv S F q l lost \<Longrightarrow> l \<Longrightarrow> lost \<or> (\<exists>t. at_front (S t)) \<or> (q \<noteq> [] \<and> bit_at F (owner (hd q)))"
  by (simp add: front_inv_def)

lemma front_inv_lockedI:
  assumes "locked"
    and "\<And>t u. at_front (S t) \<Longrightarrow> at_front (S u) \<Longrightarrow> t = u"
    and "\<And>t. in_queue (S t) \<Longrightarrow> bit_at F t \<Longrightarrow>
      q \<noteq> [] \<and> owner (hd q) = t \<and> (\<forall>u. \<not> at_front (S u))"
    and "lost \<or> (\<exists>t. at_front (S t)) \<or> (q \<noteq> [] \<and> bit_at F (owner (hd q)))"
  shows "front_inv S F q locked lost"
  using assms unfolding front_inv_def by blast

lemma frames_waitD:
  "frames_inv S F \<Longrightarrow> S t = InQueue w \<Longrightarrow> \<exists>ts. F t = Some ts \<and> wait_ok t w ts"
  by (simp add: frames_inv_def)

lemma protoD:
  assumes "proto_inv S F q l lost n"
  shows "queue_inv S q n" "frames_inv S F" "front_inv S F q l lost" "values_inv S q"
  using assms by (simp_all add: proto_inv_def)

lemma queue_hd_in: "queue_inv S q n \<Longrightarrow> q \<noteq> [] \<Longrightarrow> in_queue (S (owner (hd q)))"
  by (cases q) (auto simp: queue_inv_def)

section \<open>Consequences\<close>

lemma proto_unlocked:
  assumes "proto_inv S F q False lost n"
  shows "q = []" "\<not> at_front (S t)" "\<not> in_queue (S t)" "S t \<noteq> Pushing"
proof -
  have none: "\<not> at_front (S t) \<and> \<not> in_queue (S t) \<and> S t \<noteq> Pushing" for t
    using front_lockedI [OF protoD(3) [OF assms], of t] by blast
  then show "\<not> at_front (S t)" "\<not> in_queue (S t)" "S t \<noteq> Pushing" by auto
  show "q = []" using queue_hd_in [OF protoD(1) [OF assms]] none by blast
qed

lemma proto_head:
  assumes "proto_inv S F q locked lost n" "S t = InQueue w" "F t = Some ts" "front_bit ts"
  obtains et q' where "q = et # q'" "owner et = t" "is_init et" "\<And>u. \<not> at_front (S u)"
proof -
  have "q \<noteq> [] \<and> owner (hd q) = t \<and> (\<forall>u. \<not> at_front (S u))"
    using front_bitD [OF protoD(3) [OF assms(1)], of t] assms by simp
  moreover have "\<forall>et \<in> set q. is_init et"
    using protoD(1) [OF assms(1)] by (simp add: queue_inv_def)
  ultimately show thesis using that by (cases q) auto
qed

lemma proto_head_frame:
  assumes "proto_inv S F (et # q') locked lost n"
  obtains ts w where "is_init et" "F (owner et) = Some ts" "S (owner et) = InQueue w"
    "wait_ok (owner et) w ts"
proof -
  from protoD(1) [OF assms] have init: "is_init et" by (simp add: queue_inv_def)
  obtain w where w: "S (owner et) = InQueue w"
    using queue_hd_in [OF protoD(1) [OF assms]] by (cases "S (owner et)") auto
  with frames_waitD [OF protoD(2) [OF assms]] obtain ts
    where "F (owner et) = Some ts" "wait_ok (owner et) w ts" by blast
  with init w that show thesis by blast
qed

section \<open>Transitions\<close>

lemma proto_lost_mono:
  "proto_inv S F q locked lost n \<Longrightarrow> (lost \<Longrightarrow> lost') \<Longrightarrow> proto_inv S F q locked lost' n"
  by (auto simp: proto_inv_def front_inv_def)

lemma queue_inv_stage:
  "queue_inv S q n \<Longrightarrow> in_queue x = in_queue (S t) \<Longrightarrow> queue_inv (S(t := x)) q n"
  by (simp add: queue_inv_def)

lemma values_inv_stage:
  "values_inv S q \<Longrightarrow> (\<And>k. popped_prefix k q \<Longrightarrow> prefix_ok (S t) k \<Longrightarrow> prefix_ok x k) \<Longrightarrow>
     values_inv (S(t := x)) q"
  unfolding values_inv_def by (metis fun_upd_apply)

lemma frames_inv_stage:
  assumes "frames_inv S F"
    and "x = Pushing \<Longrightarrow> F' t = Some TaskState_new"
    and "\<And>w. x = InQueue w \<Longrightarrow> \<exists>ts. F' t = Some ts \<and> wait_ok t w ts"
    and "\<And>u. u \<noteq> t \<Longrightarrow> F' u = F u"
  shows "frames_inv (S(t := x)) F'"
  using assms unfolding frames_inv_def by auto

lemma bit_at_cong: "F' u = F u \<Longrightarrow> bit_at F' u = bit_at F u"
  by (simp add: bit_at_def)

text \<open>
  A thread moves between stages of the same kind, touching no frame but its own and no front
  bit.
\<close>

lemma proto_stage:
  assumes inv: "proto_inv S F q locked lost n"
    and kind: "at_front x = at_front (S t)" "in_queue x = in_queue (S t)" "x = Pushing \<Longrightarrow> S t = Pushing"
    and prefix: "\<And>k. popped_prefix k q \<Longrightarrow> prefix_ok (S t) k \<Longrightarrow> prefix_ok x k"
    and other: "\<And>u. u \<noteq> t \<Longrightarrow> F' u = F u"
    and bit: "in_queue x \<Longrightarrow> bit_at F' t = bit_at F t"
    and push: "x = Pushing \<Longrightarrow> F' t = Some TaskState_new"
    and wait: "\<And>w. x = InQueue w \<Longrightarrow> \<exists>ts. F' t = Some ts \<and> wait_ok t w ts"
  shows "proto_inv (S(t := x)) F' q locked lost n"
proof -
  have bits: "bit_at F' u = bit_at F u" if "in_queue ((S(t := x)) u)" for u
    using that other [of u] bit bit_at_cong [of F' u F] by (cases "u = t") auto
  have hd: "q \<noteq> [] \<Longrightarrow> in_queue ((S(t := x)) (owner (hd q)))"
    using queue_hd_in [OF protoD(1) [OF inv]] kind(2) by auto
  have front: "at_front ((S(t := x)) u) = at_front (S u)" "in_queue ((S(t := x)) u) = in_queue (S u)"
    and pushing: "(S(t := x)) u = Pushing \<Longrightarrow> S u = Pushing" for u
    using kind by (auto split: if_splits)
  have "front_inv (S(t := x)) F' q locked lost"
    unfolding front_inv_def front
  proof (intro conjI allI impI)
    fix u v assume "at_front (S u)" "at_front (S v)"
    then show "u = v" by (rule front_unique [OF protoD(3) [OF inv]])
  next
    fix u assume u: "in_queue (S u)" "bit_at F' u"
    then have "bit_at F u" using bits [of u] front by simp
    then show "q \<noteq> []" "owner (hd q) = u" "\<And>v. \<not> at_front (S v)"
      using front_bitD [OF protoD(3) [OF inv] u(1)] by auto
  next
    assume "\<exists>u. at_front (S u) \<or> in_queue (S u) \<or> (S(t := x)) u = Pushing"
    then obtain u where "at_front (S u) \<or> in_queue (S u) \<or> S u = Pushing"
      using pushing by blast
    then show locked by (rule front_lockedI [OF protoD(3) [OF inv]])
  next
    assume locked
    then show "lost \<or> (\<exists>u. at_front (S u)) \<or> q \<noteq> [] \<and> bit_at F' (owner (hd q))"
      using front_ownerD [OF protoD(3) [OF inv]] hd bits by blast
  qed
  moreover have "queue_inv (S(t := x)) q n"
    using protoD(1) [OF inv] kind(2) by (rule queue_inv_stage)
  moreover have "frames_inv (S(t := x)) F'"
    using protoD(2) [OF inv] push wait other by (rule frames_inv_stage)
  moreover have "values_inv (S(t := x)) q"
    using protoD(4) [OF inv] prefix by (rule values_inv_stage)
  ultimately show ?thesis by (simp add: proto_inv_def)
qed

text \<open>The fast path.\<close>

lemma proto_fast:
  assumes "proto_inv S F q False lost n" "S t = Away"
  shows "proto_inv (S(t := AtFront Fresh)) F q True lost n"
proof -
  note no = proto_unlocked [OF assms(1)]
  have "prefix_ok (S u) 0" for u using no(2) [of u] by (cases "S u") auto
  then have "values_inv (S(t := AtFront Fresh)) q"
    unfolding values_inv_def no(1) by (intro exI [of _ 0]) auto
  moreover have "frames_inv (S(t := AtFront Fresh)) F"
    using protoD(2) [OF assms(1)] by (rule frames_inv_stage) auto
  moreover have "queue_inv (S(t := AtFront Fresh)) q n"
    using protoD(1) [OF assms(1)] by (rule queue_inv_stage) (simp add: assms(2))
  moreover have "front_inv (S(t := AtFront Fresh)) F q True lost"
    using no by (auto simp: front_inv_def)
  ultimately show ?thesis by (simp add: proto_inv_def)
qed

text \<open>The slow path: a task state on the stack, then the task in the queue.\<close>

lemma proto_start_push:
  assumes inv: "proto_inv S F q True lost n" and t: "S t = Away"
  shows "proto_inv (S(t := Pushing)) (F(t \<mapsto> TaskState_new)) q True lost n"
proof -
  have bit: "bit_at (F(t \<mapsto> TaskState_new)) u = bit_at F u" if "in_queue (S u)" for u
    using that t by auto
  have kind: "at_front ((S(t := Pushing)) u) \<longleftrightarrow> at_front (S u)"
    "in_queue ((S(t := Pushing)) u) \<longleftrightarrow> in_queue (S u)" for u using t by simp_all
  have "front_inv (S(t := Pushing)) (F(t \<mapsto> TaskState_new)) q True lost"
    by (rule front_inv_lockedI, unfold kind)
      (use front_unique [OF protoD(3) [OF inv]] front_bitD [OF protoD(3) [OF inv]]
        front_ownerD [OF protoD(3) [OF inv]] queue_hd_in [OF protoD(1) [OF inv]] bit in blast)+
  moreover have "frames_inv (S(t := Pushing)) (F(t \<mapsto> TaskState_new))"
    using protoD(2) [OF inv] by (rule frames_inv_stage) auto
  moreover have "queue_inv (S(t := Pushing)) q n"
    using protoD(1) [OF inv] by (rule queue_inv_stage) (simp add: t)
  moreover have "values_inv (S(t := Pushing)) q"
    using protoD(4) [OF inv] by (rule values_inv_stage) simp
  ultimately show ?thesis by (simp add: proto_inv_def)
qed

lemma proto_push:
  fixes q :: "'v ErasedTask list" and v :: 'v
  assumes inv: "proto_inv S F q locked lost n" and t: "S t = Pushing" and room: "length q < n"
  defines "et \<equiv> erased_new \<lparr>task_state = t, task_value = Some v\<rparr>"
  shows "proto_inv (S(t := InQueue Waits)) F (q @ [et]) locked lost n"
proof -
  have locked using front_lockedI [OF protoD(3) [OF inv], of t] t by simp
  have new: "F t = Some TaskState_new" using protoD(2) [OF inv] t by (simp add: frames_inv_def)
  have "t \<notin> owner ` set q" using protoD(1) [OF inv] t by (simp add: queue_inv_def)
  then have "queue_inv (S(t := InQueue Waits)) (q @ [et]) n"
    using protoD(1) [OF inv] room by (auto simp: queue_inv_def et_def)
  moreover have "frames_inv (S(t := InQueue Waits)) F"
    using protoD(2) [OF inv] by (rule frames_inv_stage) (auto simp: new)
  moreover have "front_inv (S(t := InQueue Waits)) F (q @ [et]) locked lost"
    unfolding front_inv_def
  proof (intro conjI allI impI)
    fix u w assume "at_front ((S(t := InQueue Waits)) u)" "at_front ((S(t := InQueue Waits)) w)"
    then show "u = w" using front_unique [OF protoD(3) [OF inv]] by (simp split: if_splits)
  next
    fix u assume "in_queue ((S(t := InQueue Waits)) u)" and bit: "bit_at F u"
    with new have "in_queue (S u)" and "u \<noteq> t" by (auto split: if_splits)
    from front_bitD [OF protoD(3) [OF inv] this(1) bit] \<open>u \<noteq> t\<close>
    show "q @ [et] \<noteq> []" "owner (hd (q @ [et])) = u" "\<And>w. \<not> at_front ((S(t := InQueue Waits)) w)"
      by auto
  next
    show locked by fact
  next
    show "lost \<or> (\<exists>u. at_front ((S(t := InQueue Waits)) u)) \<or>
        q @ [et] \<noteq> [] \<and> bit_at F (owner (hd (q @ [et])))"
      using front_ownerD [OF protoD(3) [OF inv] \<open>locked\<close>] t
      by (metis append_is_Nil_conv at_front.simps(3) fun_upd_apply hd_append2)
  qed
  moreover have "values_inv (S(t := InQueue Waits)) (q @ [et])"
  proof -
    from protoD(4) [OF inv] obtain k where "popped_prefix k q" "\<forall>t. prefix_ok (S t) k"
      by (auto simp: values_inv_def)
    then show ?thesis unfolding values_inv_def
      by (intro exI [of _ k]) (auto intro: popped_prefix_push simp: et_def)
  qed
  ultimately show ?thesis by (simp add: proto_inv_def)
qed

text \<open>The woken head pops itself and becomes the front.\<close>

lemma proto_pop_self:
  assumes inv: "proto_inv S F (et # q) locked lost n" and t: "S t = InQueue (Pops b)"
    and own: "owner et = t"
  shows "proto_inv (S(t := AtFront (Deciding (value_of et \<noteq> None)))) F q locked lost n"
    (is "proto_inv ?S F q locked lost n")
proof -
  from frames_waitD [OF protoD(2) [OF inv] t] have bit: "bit_at F t" by auto
  have no_front: "\<not> at_front (S u)" for u
    using front_bitD [OF protoD(3) [OF inv], of t] bit t by simp
  have "queue_inv ?S q n"
    using protoD(1) [OF inv] own by (auto simp: queue_inv_def)
  moreover have "frames_inv ?S F"
    using protoD(2) [OF inv] by (rule frames_inv_stage) auto
  moreover have "front_inv ?S F q locked lost"
  proof -
    have "\<not> bit_at F u" if "in_queue (?S u)" for u
      using that front_bitD [OF protoD(3) [OF inv], of u] own by (auto split: if_splits)
    moreover have locked using front_lockedI [OF protoD(3) [OF inv], of t] t by simp
    ultimately show ?thesis using no_front by (auto simp: front_inv_def)
  qed
  moreover have "values_inv ?S q"
  proof -
    from protoD(4) [OF inv] obtain k where k: "popped_prefix k (et # q)"
      by (auto simp: values_inv_def)
    have "prefix_ok (?S u) (k - 1)" for u
      using no_front [of u] popped_prefix_hd [OF k] by (cases "S u") auto
    with popped_prefix_tl [OF k] show ?thesis unfolding values_inv_def by blast
  qed
  ultimately show ?thesis by (simp add: proto_inv_def)
qed

text \<open>The front pops the next value through its handle.\<close>

lemma proto_take:
  assumes inv: "proto_inv S F q locked lost n" and t: "S t = AtFront (Serving k)"
    and room: "k < length q"
  shows "proto_inv (S(t := AtFront (Serving (Suc k)))) F (q[k := taken (q ! k)]) locked lost n"
    (is "proto_inv ?S F ?q locked lost n")
proof -
  have owners: "map owner ?q = map owner q" by simp
  then have owner_set: "owner ` set ?q = owner ` set q" by (metis set_map)
  have ne: "q \<noteq> []" "?q \<noteq> []" using room by auto
  have "owner (hd ?q) = owner (hd q)" using owners ne by (metis hd_map)
  have "queue_inv ?S ?q n"
    using protoD(1) [OF inv] t owners owner_set
    by (auto simp: queue_inv_def dest!: set_update_subset_insert [THEN subsetD])
  moreover have "frames_inv ?S F"
    using protoD(2) [OF inv] by (rule frames_inv_stage) auto
  moreover have "front_inv ?S F ?q locked lost"
  proof -
    have none: "\<not> bit_at F u" if "in_queue (S u)" for u
      using that front_bitD [OF protoD(3) [OF inv], of u] t by (metis at_front.simps(1))
    have front: "at_front (?S u) \<longleftrightarrow> u = t" for u
      using front_unique [OF protoD(3) [OF inv], of u t] t by (cases "u = t") auto
    have queued: "in_queue (?S u) \<longleftrightarrow> in_queue (S u)" for u using t by simp
    have locked using front_lockedI [OF protoD(3) [OF inv], of t] t by simp
    then show ?thesis
      by (rule front_inv_lockedI) (use none in \<open>unfold front queued, auto\<close>)
  qed
  moreover have "values_inv ?S ?q"
  proof -
    from protoD(4) [OF inv] obtain j where j: "popped_prefix j q" "\<forall>u. prefix_ok (S u) j"
      by (auto simp: values_inv_def)
    then have "j = k" using t by (metis prefix_ok.simps(3))
    have "prefix_ok (?S u) (Suc k)" for u
      using front_unique [OF protoD(3) [OF inv], of u t] t by (cases "S u") auto
    with popped_prefix_take [OF j(1)] room \<open>j = k\<close> show ?thesis
      unfolding values_inv_def by blast
  qed
  ultimately show ?thesis by (simp add: proto_inv_def)
qed

text \<open>
  The front hands the permission on. Nothing is queued: the flag is cleared. That no thread is
  between seeing the flag and pushing follows from the mutex.
\<close>

lemma proto_release:
  assumes inv: "proto_inv S F q locked lost n" and t: "at_front (S t)" and q: "q = []"
    and quiet: "\<And>u. S u \<noteq> Pushing"
  shows "proto_inv (S(t := Away)) F q False lost n"
proof -
  have "\<not> in_queue (S u)" for u using protoD(1) [OF inv] by (simp add: queue_inv_def q)
  moreover have "at_front (S u) \<Longrightarrow> u = t" for u
    using front_unique [OF protoD(3) [OF inv]] t by blast
  ultimately have "front_inv (S(t := Away)) F q False lost"
    using quiet by (auto simp: front_inv_def)
  moreover have "queue_inv (S(t := Away)) q n"
    using protoD(1) [OF inv] at_front_not_in_queue [OF t] by (intro queue_inv_stage) simp_all
  moreover have "frames_inv (S(t := Away)) F"
    using protoD(2) [OF inv] by (rule frames_inv_stage) auto
  moreover have "values_inv (S(t := Away)) q"
    using protoD(4) [OF inv] by (rule values_inv_stage) simp
  ultimately show ?thesis by (simp add: proto_inv_def)
qed

text \<open>
  Something is queued: its head is woken, whichever of the two wake-ups is used. Any other
  stage of the head than blocking, relocking or testing again would hold the mutex.
\<close>

context front_waker
begin

lemma wait_ok_wake:
  "wait_ok t w ts \<Longrightarrow> \<not> front_bit ts \<Longrightarrow> \<not> holds_mutex (InQueue w) \<Longrightarrow> wait_ok t w (wake ts)"
  by (cases w) (auto simp: wake_condvar notify_one_def wake_front)

lemma proto_wake:
  assumes inv: "proto_inv S F (et # q) locked lost n" and t: "at_front (S t)"
    and ts: "F (owner et) = Some ts"
    and quiet: "\<And>u. u \<noteq> t \<Longrightarrow> \<not> holds_mutex (S u)"
  shows "proto_inv (S(t := Away)) (F(owner et \<mapsto> wake ts)) (et # q) locked lost n"
    (is "proto_inv ?S ?F ?q locked lost n")
proof -
  let ?h = "owner et"
  obtain w where w: "S ?h = InQueue w" "wait_ok ?h w ts"
    using proto_head_frame [OF inv] ts by force
  then have ht: "?h \<noteq> t" using t by auto
  have no_bit: "\<not> bit_at F u" if "in_queue (S u)" for u
    using that front_bitD [OF protoD(3) [OF inv], of u] t by blast
  have only_t: "at_front (S u) \<Longrightarrow> u = t" for u
    using front_unique [OF protoD(3) [OF inv]] t by blast
  note nt = at_front_not_in_queue [OF t]
  have "queue_inv ?S ?q n"
    using protoD(1) [OF inv] nt by (intro queue_inv_stage) simp_all
  moreover have "frames_inv ?S ?F"
  proof -
    have "wait_ok ?h w (wake ts)"
      using wait_ok_wake [OF w(2)] no_bit [of ?h] w(1) ts quiet [OF ht] by simp
    moreover have "S u = Pushing \<Longrightarrow> F u = Some TaskState_new" for u
      using protoD(2) [OF inv] by (simp add: frames_inv_def)
    ultimately show ?thesis
      using frames_waitD [OF protoD(2) [OF inv]] w(1) by (auto simp: frames_inv_def)
  qed
  moreover have "front_inv ?S ?F ?q locked lost"
  proof -
    have no_front: "\<not> at_front (?S u)" for u using only_t [of u] by auto
    have queued: "in_queue (?S u) \<longleftrightarrow> in_queue (S u)" for u using nt by simp
    have head: "u = ?h" if "in_queue (S u)" "bit_at ?F u" for u
      using no_bit [of u] that by (simp split: if_splits)
    have locked using front_lockedI [OF protoD(3) [OF inv], of t] t by simp
    then show ?thesis
    proof (rule front_inv_lockedI)
      fix u assume "in_queue (?S u)" "bit_at ?F u"
      then have "u = ?h" using head queued by blast
      then show "?q \<noteq> [] \<and> owner (hd ?q) = u \<and> (\<forall>u. \<not> at_front (?S u))"
        using no_front by simp
    qed (use no_front in \<open>auto simp: wake_front simp del: fun_upd_apply\<close>)
  qed
  moreover have "values_inv ?S ?q"
    using protoD(4) [OF inv] by (rule values_inv_stage) simp
  ultimately show ?thesis by (simp add: proto_inv_def)
qed

end

text \<open>The permission is lost with a leaked guard.\<close>

lemma proto_lose:
  assumes inv: "proto_inv S F q locked lost n" and t: "at_front (S t)"
  shows "proto_inv (S(t := Away)) F q locked True n"
proof -
  note nt = at_front_not_in_queue [OF t]
  have no_front: "\<not> at_front ((S(t := Away)) u)" for u
    using front_unique [OF protoD(3) [OF inv], of u t] t by auto
  have queued: "in_queue ((S(t := Away)) u) \<longleftrightarrow> in_queue (S u)" for u using nt by simp
  have locked using front_lockedI [OF protoD(3) [OF inv], of t] t by simp
  then have "front_inv (S(t := Away)) F q locked True"
    by (rule front_inv_lockedI, unfold queued)
      (use no_front front_bitD [OF protoD(3) [OF inv]] in blast)+
  moreover have "queue_inv (S(t := Away)) q n"
    using protoD(1) [OF inv] nt by (intro queue_inv_stage) simp_all
  moreover have "frames_inv (S(t := Away)) F"
    using protoD(2) [OF inv] by (rule frames_inv_stage) auto
  moreover have "values_inv (S(t := Away)) q"
    using protoD(4) [OF inv] by (rule values_inv_stage) simp
  ultimately show ?thesis by (simp add: proto_inv_def)
qed

end
