(* ===== verification/Invariants.thy ===== *)
theory Invariants
  imports Protocol
begin

text \<open>
  The invariant of the concurrent model and its preservation by every step. The program
  counters are seen through three projections: the mutex whose guard the thread holds, the
  mutex its call has passed \<open>assert_mutex_good\<close> with, and its stage in the hand-off
  protocol.
\<close>

section \<open>Projections of a program counter\<close>

fun guard_of :: "('v, 'fs, 'm, 'u, 'r) pc \<Rightarrow> addr option" where
  "guard_of (PSession g c) = Some (guard_mutex g)"
| "guard_of (PAssert fr g) = Some (guard_mutex g)"
| "guard_of (PAcquire fr g) = Some (guard_mutex g)"
| "guard_of (PPush fr g) = Some (guard_mutex g)"
| "guard_of (PWait fr g) = Some (guard_mutex g)"
| "guard_of (PCheckBit fr g) = Some (guard_mutex g)"
| "guard_of (PPopSelf fr g b) = Some (guard_mutex g)"
| "guard_of (PQueuePoison fr g w) = Some (guard_mutex g)"
| "guard_of (PMutexPoison fr g v) = Some (guard_mutex g)"
| "guard_of (PCallback fr h cb) =
     (case qh_guard h of Init g \<Rightarrow> Some (guard_mutex g) | Uninit \<Rightarrow> None)"
| "guard_of (PUnlockedHolds fr h g x k) = Some (guard_mutex g)"
| "guard_of (PErrHandoff fr g p) = Some (guard_mutex g)"
| "guard_of (PHandoff fr g r) = Some (guard_mutex g)"
| "guard_of (PReturn fr g r) = Some (guard_mutex g)"
| "guard_of (PIsRead g k) = Some (guard_mutex g)"
| "guard_of (PClearWrite g k') = Some (guard_mutex g)"
| "guard_of _ = None"

fun bound :: "('v, 'fs, 'm, 'u, 'r) pc \<Rightarrow> addr option" where
  "bound (PClient c) = None"
| "bound (PSession g c) = None"
| "bound (PLock fr) = None"
| "bound (PAssert fr g) = None"
| "bound (PAcquire fr g) = Some (fr_mutex fr)"
| "bound (PPush fr g) = Some (fr_mutex fr)"
| "bound (PWait fr g) = Some (fr_mutex fr)"
| "bound (PBlocked fr g) = Some (fr_mutex fr)"
| "bound (PRelock fr g) = Some (fr_mutex fr)"
| "bound (PCheckBit fr g) = Some (fr_mutex fr)"
| "bound (PPopSelf fr g b) = Some (fr_mutex fr)"
| "bound (PQueuePoison fr g w) = Some (fr_mutex fr)"
| "bound (PMutexPoison fr g v) = Some (fr_mutex fr)"
| "bound (PCallback fr h cb) = Some (fr_mutex fr)"
| "bound (PUnlocked fr h clo kc) = Some (fr_mutex fr)"
| "bound (PUnlockedHolds fr h g x kc) = Some (fr_mutex fr)"
| "bound (PUnlockRelock fr h out kc) = Some (fr_mutex fr)"
| "bound (PErrLock fr p) = Some (fr_mutex fr)"
| "bound (PErrHandoff fr g p) = Some (fr_mutex fr)"
| "bound (PHandoff fr g r) = Some (fr_mutex fr)"
| "bound (PReturn fr g r) = Some (fr_mutex fr)"
| "bound (PIsLock a k) = Some a"
| "bound (PIsRead g k) = Some (guard_mutex g)"
| "bound (PClearLock a k') = Some a"
| "bound (PClearWrite g k') = Some (guard_mutex g)"

fun stage_of :: "('v, 'fs, 'm, 'u, 'r) pc \<Rightarrow> stage" where
  "stage_of (PPush fr g) = Pushing"
| "stage_of (PWait fr g) = InQueue Waits"
| "stage_of (PBlocked fr g) = InQueue Blocks"
| "stage_of (PRelock fr g) = InQueue Relocks"
| "stage_of (PCheckBit fr g) = InQueue Checks"
| "stage_of (PPopSelf fr g b) = InQueue (Pops b)"
| "stage_of (PQueuePoison fr g w) = AtFront (Deciding (\<exists>v. w = WaitProcess v))"
| "stage_of (PMutexPoison fr g v) = AtFront Fresh"
| "stage_of (PCallback fr h cb) = AtFront (Serving (unat (next_idx h)))"
| "stage_of (PUnlocked fr h clo k) = AtFront (Serving (unat (next_idx h)))"
| "stage_of (PUnlockedHolds fr h g x k) = AtFront (Serving (unat (next_idx h)))"
| "stage_of (PUnlockRelock fr h out k) = AtFront (Serving (unat (next_idx h)))"
| "stage_of (PErrLock fr p) = AtFront Leaving"
| "stage_of (PErrHandoff fr g p) = AtFront Leaving"
| "stage_of (PHandoff fr g r) = AtFront Leaving"
| "stage_of _ = Away"

section \<open>Callers that keep the contract of \<open>process\<close>\<close>

text \<open>
  The contract a caller has to keep: the guard passed to \<open>process\<close> is a guard of the mutex
  passed with it. Addresses of mutexes are not null. Nothing else is asked of a client; in
  particular different calls may use different mutexes.
\<close>

primrec client_ok :: "('v, 'fs, 'm, 'u, 'r) client \<Rightarrow> bool"
  and session_ok :: "('v, 'fs, 'm, 'u, 'r) session \<Rightarrow> addr \<Rightarrow> bool" where
  "client_ok Exit \<longleftrightarrow> True"
| "client_ok (CallLockAndProcess a v task k) \<longleftrightarrow> a \<noteq> 0 \<and> (\<forall>out. client_ok (k out))"
| "client_ok (CallIsQueuePoisoned a k) \<longleftrightarrow> a \<noteq> 0 \<and> (\<forall>out. client_ok (k out))"
| "client_ok (CallClearQueuePoison a k) \<longleftrightarrow> a \<noteq> 0 \<and> (\<forall>out. client_ok (k out))"
| "client_ok (LockMutex a k) \<longleftrightarrow> (\<forall>b. session_ok (k b) a)"
| "client_ok (ClearMutexPoison a c) \<longleftrightarrow> client_ok c"
| "session_ok (SReadState k) = (\<lambda>g. \<forall>m. session_ok (k m) g)"
| "session_ok (SWriteState m c) = session_ok c"
| "session_ok (SProcess a v task k kp) =
     (\<lambda>g. a = g \<and> a \<noteq> 0 \<and> (\<forall>r. session_ok (k r) g) \<and> (\<forall>p. client_ok (kp p)))"
| "session_ok (SDrop c) = (\<lambda>g. client_ok c)"
| "session_ok (SForget c) = (\<lambda>g. client_ok c)"
| "session_ok (SPanic c) = (\<lambda>g. client_ok c)"

fun caller_ok :: "('v, 'fs, 'm, 'u, 'r) caller \<Rightarrow> addr \<Rightarrow> bool" where
  "caller_ok (ByLockAndProcess k) a \<longleftrightarrow> (\<forall>out. client_ok (k out))"
| "caller_ok (ByProcess k kp) a \<longleftrightarrow> (\<forall>r. session_ok (k r) a) \<and> (\<forall>p. client_ok (kp p))"

definition frame_ok :: "('v, 'fs, 'm, 'u, 'r) frame \<Rightarrow> bool" where
  "frame_ok fr \<longleftrightarrow> fr_mutex fr \<noteq> 0 \<and> caller_ok (fr_caller fr) (fr_mutex fr)"

definition handle_for :: "addr \<Rightarrow> QueueHandle \<Rightarrow> bool" where
  "handle_for a h \<longleftrightarrow> handle_ready h \<and> (\<forall>g. qh_guard h = Init g \<longrightarrow> guard_mutex g = a)"

fun pc_ok :: "('v, 'fs, 'm, 'u, 'r) pc \<Rightarrow> bool" where
  "pc_ok (PClient c) \<longleftrightarrow> client_ok c"
| "pc_ok (PSession g c) \<longleftrightarrow> session_ok c (guard_mutex g)"
| "pc_ok (PLock fr) \<longleftrightarrow> frame_ok fr"
| "pc_ok (PAssert fr g) \<longleftrightarrow> frame_ok fr \<and> guard_mutex g = fr_mutex fr"
| "pc_ok (PAcquire fr g) \<longleftrightarrow> frame_ok fr \<and> guard_mutex g = fr_mutex fr"
| "pc_ok (PPush fr g) \<longleftrightarrow> frame_ok fr \<and> guard_mutex g = fr_mutex fr"
| "pc_ok (PWait fr g) \<longleftrightarrow> frame_ok fr \<and> guard_mutex g = fr_mutex fr"
| "pc_ok (PBlocked fr g) \<longleftrightarrow> frame_ok fr \<and> guard_mutex g = fr_mutex fr"
| "pc_ok (PRelock fr g) \<longleftrightarrow> frame_ok fr \<and> guard_mutex g = fr_mutex fr"
| "pc_ok (PCheckBit fr g) \<longleftrightarrow> frame_ok fr \<and> guard_mutex g = fr_mutex fr"
| "pc_ok (PPopSelf fr g b) \<longleftrightarrow> frame_ok fr \<and> guard_mutex g = fr_mutex fr"
| "pc_ok (PQueuePoison fr g w) \<longleftrightarrow> frame_ok fr \<and> guard_mutex g = fr_mutex fr"
| "pc_ok (PMutexPoison fr g v) \<longleftrightarrow> frame_ok fr \<and> guard_mutex g = fr_mutex fr"
| "pc_ok (PCallback fr h cb) \<longleftrightarrow>
     frame_ok fr \<and> ns_get (qh_mutex h) = fr_mutex fr \<and> handle_for (fr_mutex fr) h"
| "pc_ok (PUnlocked fr h clo kc) \<longleftrightarrow> frame_ok fr \<and> ns_get (qh_mutex h) = fr_mutex fr"
| "pc_ok (PUnlockedHolds fr h g x kc) \<longleftrightarrow> frame_ok fr \<and> ns_get (qh_mutex h) = fr_mutex fr \<and>
     ((\<exists>c. x = InCritical c) \<or> guard_mutex g = fr_mutex fr)"
| "pc_ok (PUnlockRelock fr h out kc) \<longleftrightarrow> frame_ok fr \<and> ns_get (qh_mutex h) = fr_mutex fr"
| "pc_ok (PErrLock fr p) \<longleftrightarrow> frame_ok fr"
| "pc_ok (PErrHandoff fr g p) \<longleftrightarrow> frame_ok fr \<and> guard_mutex g = fr_mutex fr"
| "pc_ok (PHandoff fr g r) \<longleftrightarrow> frame_ok fr \<and> guard_mutex g = fr_mutex fr"
| "pc_ok (PReturn fr g r) \<longleftrightarrow> frame_ok fr \<and> guard_mutex g = fr_mutex fr"
| "pc_ok (PIsLock a k) \<longleftrightarrow> a \<noteq> 0 \<and> (\<forall>out. client_ok (k out))"
| "pc_ok (PIsRead g k) \<longleftrightarrow> guard_mutex g \<noteq> 0 \<and> (\<forall>out. client_ok (k out))"
| "pc_ok (PClearLock a k') \<longleftrightarrow> a \<noteq> 0 \<and> (\<forall>out. client_ok (k' out))"
| "pc_ok (PClearWrite g k') \<longleftrightarrow> guard_mutex g \<noteq> 0 \<and> (\<forall>out. client_ok (k' out))"

lemma bound_nonzero: "pc_ok p \<Longrightarrow> bound p = Some a \<Longrightarrow> a \<noteq> 0"
  by (cases p) (auto simp: frame_ok_def)

lemma holds_mutex_guard:
  "pc_ok p \<Longrightarrow> holds_mutex (stage_of p) \<Longrightarrow> \<exists>a. guard_of p = Some a \<and> bound p = Some a"
  by (cases p) auto

section \<open>The invariant\<close>

definition guards_inv :: "(addr \<Rightarrow> hold) \<Rightarrow> (tid \<Rightarrow> addr option) \<Rightarrow> bool" where
  "guards_inv H G \<longleftrightarrow> (\<forall>t a. H a = Held t \<longleftrightarrow> G t = Some a)"

definition holders :: "('v, 'fs, 'm, 'u, 'r) sys \<Rightarrow> addr \<Rightarrow> hold" where
  "holders s a = holder (mutexes s a)"

definition stages :: "('v, 'fs, 'm, 'u, 'r) sys \<Rightarrow> tid \<Rightarrow> stage" where
  "stages s t = stage_of (pcs s t)"

definition guards :: "('v, 'fs, 'm, 'u, 'r) sys \<Rightarrow> tid \<Rightarrow> addr option" where
  "guards s t = guard_of (pcs s t)"

definition lost :: "('v, 'fs, 'm, 'u, 'r) sys \<Rightarrow> bool" where
  "lost s \<longleftrightarrow> (\<exists>a t. holders s a = Leaked t)"

definition proto :: "('v, 'fs, 'm, 'u, 'r) sys \<Rightarrow> (tid \<Rightarrow> stage) \<Rightarrow> bool" where
  "proto s S \<longleftrightarrow>
     proto_inv S (frames s) (queue (mx s)) (front_locked (mx s)) (lost s) (max_len (elem_size s))"

definition sys_inv :: "('v, 'fs, 'm, 'u, 'r) sys \<Rightarrow> bool" where
  "sys_inv s \<longleftrightarrow>
     status s \<noteq> Undefined \<and> guards_inv (holders s) (guards s) \<and>
     (\<forall>t a. bound (pcs s t) = Some a \<longrightarrow> a = mutex_address (cq s)) \<and>
     (\<forall>t. pc_ok (pcs s t)) \<and> proto s (stages s)"

lemma invD:
  assumes "sys_inv s"
  shows "status s \<noteq> Undefined" "guards_inv (holders s) (guards s)"
    "bound (pcs s t) = Some a \<Longrightarrow> a = mutex_address (cq s)" "pc_ok (pcs s t)" "proto s (stages s)"
  using assms by (auto simp: sys_inv_def)

lemma guards_acquire:
  "guards_inv H G \<Longrightarrow> H a = Free \<Longrightarrow> G t = None \<Longrightarrow> guards_inv (H(a := Held t)) (G(t := Some a))"
  unfolding guards_inv_def by (auto; metis hold.distinct(1) option.distinct(1))

lemma guards_release:
  "guards_inv H G \<Longrightarrow> G t = Some a \<Longrightarrow> x = Free \<or> x = Leaked t \<Longrightarrow>
     guards_inv (H(a := x)) (G(t := None))"
  unfolding guards_inv_def by (auto; metis hold.inject(1) option.inject)

text \<open>Mutual exclusion between threads that have passed the mutex check.\<close>

lemma inv_exclusive:
  assumes "sys_inv s" "guard_of (pcs s t) = Some a" "bound (pcs s t) = Some a"
    "guard_of (pcs s u) = Some b" "bound (pcs s u) = Some b"
  shows "t = u"
proof -
  have "a = b" using invD(3) [OF assms(1)] assms(3,5) by metis
  then show ?thesis
    using invD(2) [OF assms(1)] assms(2,4) unfolding guards_inv_def guards_def
    by (metis hold.inject(1))
qed

lemma inv_quiet:
  assumes "sys_inv s" "guard_of (pcs s t) = Some a" "bound (pcs s t) = Some a" "u \<noteq> t"
  shows "\<not> holds_mutex (stages s u)"
  using holds_mutex_guard [OF invD(4) [OF assms(1)], of u] inv_exclusive [OF assms(1-3), of u] assms(4)
  by (auto simp: stages_def)

end
