(* ===== verification/Preservation.thy ===== *)
theory Preservation
  imports Invariants
begin

text \<open>
  Every step of every thread keeps the invariant: one lemma per program counter, each an
  application of a protocol transition and of a lemma about who holds which guard.
\<close>

section \<open>Rules for showing the invariant after a step\<close>

lemma lost_iff: "lost s \<longleftrightarrow> (\<exists>a t. holders s a = Leaked t)"
  by (simp add: lost_def)

lemma inv_update:
  assumes inv: "sys_inv s" and st: "status s' \<noteq> Undefined" and pcs: "pcs s' = (pcs s)(t := p)"
    and ok: "pc_ok p"
    and guards: "guards_inv (holders s') ((guards s)(t := guard_of p))"
    and bound: "bound p = None \<or> bound p = Some (mutex_address (cq s'))"
    and addr: "mutex_address (cq s') = mutex_address (cq s) \<or> mutex_address (cq s) = 0"
    and proto: "proto_inv ((stages s)(t := stage_of p)) (frames s') (queue (mx s'))
      (front_locked (mx s')) (lost s) (max_len (elem_size s'))"
    and lost: "lost s \<Longrightarrow> lost s'"
  shows "sys_inv s'"
proof -
  have "guards s' = (guards s)(t := guard_of p)" "stages s' = (stages s)(t := stage_of p)"
    using pcs by (auto simp: guards_def stages_def)
  moreover have "bound (pcs s' u) = Some a \<Longrightarrow> a = mutex_address (cq s')" for u a
    using bound addr invD(3) [OF inv, of u a] bound_nonzero [OF invD(4) [OF inv], of u a] pcs
    by (auto split: if_splits)
  moreover have "pc_ok (pcs s' u)" for u
    using pcs ok invD(4) [OF inv, of u] by auto
  moreover have "proto s' (stages s')"
    using proto_lost_mono [OF proto lost] calculation(2) by (simp add: proto_def)
  ultimately show ?thesis using st guards by (simp add: sys_inv_def)
qed

lemma holders_simps [simp]:
  "holders (s\<lparr>pcs := x\<rparr>) = holders s" "holders (s\<lparr>cq := y\<rparr>) = holders s"
  "holders (s\<lparr>frames := z\<rparr>) = holders s"
  "holders (s\<lparr>mutexes := (mutexes s')(a := m)\<rparr>) = (holders s')(a := holder m)"
  by (auto simp: holders_def)

text \<open>A step between program counters that differ in nothing the invariant sees.\<close>

lemma inv_silent:
  assumes inv: "sys_inv s" and st: "status s0 \<noteq> Undefined" and pcs: "pcs s1 = pcs s"
    and ok: "pc_ok p"
    and same: "guard_of p = guard_of (pcs s t)" "stage_of p = stage_of (pcs s t)"
      "bound p = None \<or> bound p = bound (pcs s t)"
      "holders s0 = holders s" "mutex_address (cq s0) = mutex_address (cq s)"
      "frames s0 = frames s" "queue (mx s0) = queue (mx s)"
      "front_locked (mx s0) = front_locked (mx s)" "elem_size s0 = elem_size s"
  shows "sys_inv (s0\<lparr>pcs := (pcs s1)(t := p)\<rparr>)" (is "sys_inv ?s'")
proof (rule inv_update [OF inv, where t = t and p = p])
  show "guards_inv (holders ?s') ((guards s)(t := guard_of p))"
    using invD(2) [OF inv] same by (simp add: guards_def fun_upd_idem)
  show "bound p = None \<or> bound p = Some (mutex_address (cq ?s'))"
    using same invD(3) [OF inv, of t] by (cases "bound (pcs s t)") auto
  have "(stages s)(t := stage_of p) = stages s"
    using same by (auto simp: stages_def)
  then show "proto_inv ((stages s)(t := stage_of p)) (frames ?s') (queue (mx ?s'))
      (front_locked (mx ?s')) (lost s) (max_len (elem_size ?s'))"
    using invD(5) [OF inv] same by (simp add: proto_def)
qed (use st pcs ok same in \<open>simp_all add: lost_iff\<close>)

text \<open>A step that keeps the guards and moves in the protocol.\<close>

lemma inv_move:
  assumes inv: "sys_inv s" and st: "status s0 \<noteq> Undefined" and pcs: "pcs s1 = pcs s"
    and ok: "pc_ok p"
    and same: "guard_of p = guard_of (pcs s t)" "bound p = None \<or> bound p = bound (pcs s t)"
      "holders s0 = holders s" "mutex_address (cq s0) = mutex_address (cq s)"
    and proto: "proto_inv ((stages s)(t := stage_of p)) (frames s0) (queue (mx s0))
      (front_locked (mx s0)) (lost s) (max_len (elem_size s0))"
  shows "sys_inv (s0\<lparr>pcs := (pcs s1)(t := p)\<rparr>)" (is "sys_inv ?s'")
proof (rule inv_update [OF inv, where t = t and p = p])
  show "guards_inv (holders ?s') ((guards s)(t := guard_of p))"
    using invD(2) [OF inv] same by (simp add: guards_def fun_upd_idem)
  show "bound p = None \<or> bound p = Some (mutex_address (cq ?s'))"
    using same invD(3) [OF inv, of t] by (cases "bound (pcs s t)") auto
qed (use st pcs ok same proto in \<open>simp_all add: lost_iff\<close>)

text \<open>Taking and giving up a guard, with a protocol transition.\<close>

lemma inv_acquire:
  assumes inv: "sys_inv s" and st: "status s0 \<noteq> Undefined" and pcs: "pcs s1 = pcs s"
    and ok: "pc_ok p"
    and free: "holder (mutexes s a) = Free" and none: "guard_of (pcs s t) = None"
    and same: "guard_of p = Some a" "bound p = None \<or> bound p = bound (pcs s t)"
      "holders s0 = (holders s)(a := Held t)" "mutex_address (cq s0) = mutex_address (cq s)"
    and proto: "proto_inv ((stages s)(t := stage_of p)) (frames s0) (queue (mx s0))
      (front_locked (mx s0)) (lost s) (max_len (elem_size s0))"
  shows "sys_inv (s0\<lparr>pcs := (pcs s1)(t := p)\<rparr>)" (is "sys_inv ?s'")
proof (rule inv_update [OF inv, where t = t and p = p])
  show "guards_inv (holders ?s') ((guards s)(t := guard_of p))"
    unfolding same holders_simps using invD(2) [OF inv] free none
    by (intro guards_acquire) (simp_all add: holders_def guards_def)
  show "bound p = None \<or> bound p = Some (mutex_address (cq ?s'))"
    using same invD(3) [OF inv, of t] by (cases "bound (pcs s t)") auto
  show "lost s \<Longrightarrow> lost ?s'"
    using same(3) free by (auto simp: lost_iff holders_def split: if_splits) (metis hold.distinct(3))
qed (use st pcs ok same proto in simp_all)

lemma inv_release:
  assumes inv: "sys_inv s" and st: "status s0 \<noteq> Undefined" and pcs: "pcs s1 = pcs s"
    and ok: "pc_ok p"
    and guard: "guard_of (pcs s t) = Some a"
    and same: "guard_of p = None" "bound p = None \<or> bound p = Some (mutex_address (cq s0))"
      "holders s0 = (holders s)(a := x)" "x = Free \<or> x = Leaked t"
      "mutex_address (cq s0) = mutex_address (cq s) \<or> mutex_address (cq s) = 0"
    and proto: "proto_inv ((stages s)(t := stage_of p)) (frames s0) (queue (mx s0))
      (front_locked (mx s0)) (lost s) (max_len (elem_size s0))"
  shows "sys_inv (s0\<lparr>pcs := (pcs s1)(t := p)\<rparr>)" (is "sys_inv ?s'")
proof (rule inv_update [OF inv, where t = t and p = p])
  show "guards_inv (holders ?s') ((guards s)(t := guard_of p))"
    unfolding same holders_simps using invD(2) [OF inv] guard same(4)
    by (intro guards_release) (simp_all add: guards_def)
  have "holders s a = Held t"
    using invD(2) [OF inv] guard by (simp add: guards_inv_def guards_def)
  then show "lost s \<Longrightarrow> lost ?s'"
    using same(3) by (auto simp: lost_iff) (metis hold.distinct(5))
qed (use st pcs ok same proto in simp_all)

lemma proto_keep:
  "sys_inv s \<Longrightarrow> stage_of p = stage_of (pcs s t) \<Longrightarrow>
     proto_inv ((stages s)(t := stage_of p)) (frames s) (queue (mx s)) (front_locked (mx s)) (lost s)
       (max_len (elem_size s))"
  using invD(5) [of s] by (simp add: proto_def stages_def [abs_def] fun_upd_idem)

lemma inv_proto:
  "sys_inv s \<Longrightarrow> proto_inv (stages s) (frames s) (queue (mx s)) (front_locked (mx s)) (lost s)
     (max_len (elem_size s))"
  using invD(5) [of s] by (simp add: proto_def)

section \<open>Client steps\<close>

lemma leave_unwinding_pcs:
  "leave_unwinding t fr p s = set_pc t (PClient (case fr_caller fr of
     ByLockAndProcess k \<Rightarrow> k (Unwound p) | ByProcess k kp \<Rightarrow> kp p)) s"
  by (simp add: leave_unwinding_def)

lemma unwound_client_ok:
  "frame_ok fr \<Longrightarrow> client_ok (case fr_caller fr of
     ByLockAndProcess k \<Rightarrow> k (Unwound p) | ByProcess k kp \<Rightarrow> kp p)"
  by (auto simp: frame_ok_def split: caller.splits)

lemma assert_mutex_good_keeps:
  assumes "assert_mutex_good a n q = (r, q')"
  shows "mutex_exclusive_mut q' = mutex_exclusive_mut q"
    "mutex_address q' = mutex_address q \<or> mutex_address q = 0"
    "r = Ret () \<Longrightarrow> mutex_address q' = a" "r \<noteq> UB" "options q' = options q"
  using assms by (auto simp: assert_mutex_good_eq split: if_splits)

text \<open>A call that has to lock before it begins touches only the queue's mutex address.\<close>

lemma inv_address:
  assumes inv: "sys_inv s" and q: "assert_mutex_good a n (cq s) = (r, q)"
    and ok: "pc_ok p" and none: "guard_of p = None" "guard_of (pcs s t) = None"
      "stage_of p = stage_of (pcs s t)" "bound p = None \<or> r = Ret () \<and> bound p = Some a"
  shows "sys_inv (s\<lparr>cq := q, pcs := (pcs s)(t := p)\<rparr>)"
proof (rule inv_update [OF inv _ _ ok])
  note keeps = assert_mutex_good_keeps [OF q]
  show "guards_inv (holders (s\<lparr>cq := q, pcs := (pcs s)(t := p)\<rparr>)) ((guards s)(t := guard_of p))"
    using invD(2) [OF inv] none by (simp add: guards_def fun_upd_idem)
  show "proto_inv ((stages s)(t := stage_of p)) (frames (s\<lparr>cq := q, pcs := (pcs s)(t := p)\<rparr>))
      (queue (mx (s\<lparr>cq := q, pcs := (pcs s)(t := p)\<rparr>)))
      (front_locked (mx (s\<lparr>cq := q, pcs := (pcs s)(t := p)\<rparr>))) (lost s)
      (max_len (elem_size (s\<lparr>cq := q, pcs := (pcs s)(t := p)\<rparr>)))"
    using proto_keep [OF inv none(3)] by (simp add: keeps(1))
  show "bound p = None \<or> bound p = Some (mutex_address (cq (s\<lparr>cq := q, pcs := (pcs s)(t := p)\<rparr>)))"
    using none(4) keeps(3) by auto
qed (use invD(1) [OF inv] assert_mutex_good_keeps [OF q] in \<open>simp_all add: lost_iff\<close>)

text \<open>A thread whose call has passed the check finds the address set.\<close>

lemma checked_again:
  assumes inv: "sys_inv s" and b: "bound (pcs s t) = Some b"
    and q: "assert_mutex_good a n (cq s) = (r, q)"
  shows "q = cq s" "r = Ret () \<Longrightarrow> a = b" "r \<noteq> UB"
proof -
  have "mutex_address (cq s) = b" "b \<noteq> 0"
    using invD(3) [OF inv b] bound_nonzero [OF invD(4) [OF inv] b] by simp_all
  with q show "q = cq s" "r = Ret () \<Longrightarrow> a = b" "r \<noteq> UB"
    by (auto simp: assert_mutex_good_eq split: if_splits)
qed

lemma inv_step_client:
  assumes inv: "sys_inv s" and pc: "pcs s t = PClient c" and step: "step_client ch t c s = Some s'"
  shows "sys_inv s'"
proof (cases c)
  case Exit
  with step show ?thesis by (simp add: step_client_def)
next
  case (CallLockAndProcess a v task k)
  with step have s': "s' = set_pc t (PLock (Frame a v task (ByLockAndProcess k))) s"
    by (simp add: step_client_def)
  show ?thesis unfolding s'
    by (rule inv_silent [OF inv])
      (use invD(1) [OF inv] invD(4) [OF inv, of t] pc CallLockAndProcess in \<open>auto simp: frame_ok_def\<close>)
next
  case (CallIsQueuePoisoned a k)
  obtain r q where q: "assert_mutex_good a (mutex_size s) (cq s) = (r, q)" by fastforce
  show ?thesis
    using inv_address [OF inv q, of "case r of Unwind p \<Rightarrow> PClient (k (Unwound p)) | _ \<Rightarrow> PIsLock a k" t]
      step q pc invD(4) [OF inv, of t] assert_mutex_good_keeps(4) [OF q]
    by (cases r) (auto simp: step_client_def CallIsQueuePoisoned)
next
  case (CallClearQueuePoison a k)
  obtain r q where q: "assert_mutex_good a (mutex_size s) (cq s) = (r, q)" by fastforce
  show ?thesis
    using inv_address [OF inv q, of "case r of Unwind p \<Rightarrow> PClient (k (Unwound p)) | _ \<Rightarrow> PClearLock a k" t]
      step q pc invD(4) [OF inv, of t] assert_mutex_good_keeps(4) [OF q]
    by (cases r) (auto simp: step_client_def CallClearQueuePoison)
next
  case (LockMutex a k)
  with step have free: "holder (mutexes s a) = Free"
    and s': "s' = set_pc t (PSession (Guard a False) (k (poisoned (mutexes s a)))) (upd_mutex a (lock t) s)"
    by (auto simp: step_client_def with_lock_def lock_attempt_Panics split: attempt.splits)
  show ?thesis unfolding s'
    by (rule inv_acquire [OF inv _ _ _ free])
      (use invD(1) [OF inv] invD(4) [OF inv, of t] pc LockMutex proto_keep [OF inv, of "PClient c" t] in \<open>auto\<close>)
next
  case (ClearMutexPoison a c')
  with step have s': "s' = set_pc t (PClient c') (upd_mutex a (\<lambda>m. m\<lparr>poisoned := False\<rparr>) s)"
    by (simp add: step_client_def)
  show ?thesis unfolding s'
    by (rule inv_silent [OF inv])
      (use invD(1) [OF inv] invD(4) [OF inv, of t] pc ClearMutexPoison in \<open>auto simp: holders_def\<close>)
qed

lemma inv_step_session:
  assumes inv: "sys_inv s" and pc: "pcs s t = PSession g c"
  shows "sys_inv (step_session t g c s)"
proof (cases c)
  case (SReadState k)
  show ?thesis unfolding step_session_def SReadState session.case
    by (rule inv_silent [OF inv])
      (use invD(1) [OF inv] invD(4) [OF inv, of t] pc SReadState in \<open>auto\<close>)
next
  case (SWriteState m c')
  show ?thesis unfolding step_session_def SWriteState session.case
    by (rule inv_silent [OF inv])
      (use invD(1) [OF inv] invD(4) [OF inv, of t] pc SWriteState in \<open>auto simp: holders_def\<close>)
next
  case (SProcess a v task k kp)
  show ?thesis unfolding step_session_def SProcess session.case
    by (rule inv_silent [OF inv])
      (use invD(1) [OF inv] invD(4) [OF inv, of t] pc SProcess in \<open>auto simp: frame_ok_def\<close>)
next
  case (SDrop c')
  show ?thesis unfolding step_session_def SDrop session.case
    by (rule inv_release [OF inv])
      (use invD(1) [OF inv] invD(4) [OF inv, of t] pc SDrop proto_keep [OF inv, of "PClient c'" t] in \<open>auto\<close>)
next
  case (SForget c')
  show ?thesis unfolding step_session_def SForget session.case
    by (rule inv_release [OF inv, where x = "Leaked t"])
      (use invD(1) [OF inv] invD(4) [OF inv, of t] pc SForget proto_keep [OF inv, of "PClient c'" t] in
        \<open>auto simp: holders_def\<close>)
next
  case (SPanic c')
  show ?thesis unfolding step_session_def SPanic session.case
    by (rule inv_release [OF inv])
      (use invD(1) [OF inv] invD(4) [OF inv, of t] pc SPanic proto_keep [OF inv, of "PClient c'" t] in \<open>auto\<close>)
qed

section \<open>Entering the queue\<close>

lemma inv_step_lock:
  assumes inv: "sys_inv s" and pc: "pcs s t = PLock fr" and step: "step_lock ch t fr s = Some s'"
  shows "sys_inv s'"
proof -
  let ?a = "fr_mutex fr"
  have ok: "frame_ok fr" using invD(4) [OF inv, of t] pc by simp
  consider (acq) "holder (mutexes s ?a) = Free" "\<not> (unwrap_mutex_poison (options (cq s)) \<and> poisoned (mutexes s ?a))"
      "s' = set_pc t (PAssert fr (Guard ?a False)) (upd_mutex ?a (lock t) s)"
    | (poison) "holder (mutexes s ?a) = Free"
      "s' = leave_unwinding t fr PoisonedMutex (dropping True (Guard ?a False) (upd_mutex ?a (lock t) s))"
    | (panics) "s' = leave_unwinding t fr LockReentered s"
    using step by (auto simp: step_lock_def with_lock_def Let_def split: attempt.splits if_splits)
  then show ?thesis
  proof cases
    case acq
    show ?thesis unfolding acq(3)
      by (rule inv_acquire [OF inv _ _ _ acq(1)])
        (use invD(1) [OF inv] ok pc proto_keep [OF inv, of "PLock fr" t] in \<open>auto\<close>)
  next
    case poison
    show ?thesis unfolding poison(2) leave_unwinding_pcs
      by (rule inv_silent [OF inv])
        (use invD(1) [OF inv] unwound_client_ok [OF ok] pc poison(1) in \<open>auto simp: holders_def\<close>)
  next
    case panics
    show ?thesis unfolding panics leave_unwinding_pcs
      by (rule inv_silent [OF inv]) (use invD(1) [OF inv] unwound_client_ok [OF ok] pc in \<open>auto\<close>)
  qed
qed

lemma inv_step_assert:
  assumes inv: "sys_inv s" and pc: "pcs s t = PAssert fr g"
  shows "sys_inv (step_assert t fr g s)"
proof -
  have ok: "frame_ok fr" "guard_mutex g = fr_mutex fr" using invD(4) [OF inv, of t] pc by simp_all
  obtain r q where q: "assert_mutex_good (fr_mutex fr) (mutex_size s) (cq s) = (r, q)" by fastforce
  note keeps = assert_mutex_good_keeps [OF q]
  have keep: "proto_inv ((stages s)(t := Away)) (frames s) (queue (mutex_exclusive_mut q))
      (front_locked (mutex_exclusive_mut q)) (lost s) (max_len (elem_size s))"
    using proto_keep [OF inv, of "PAssert fr g" t] pc keeps(1) by simp
  show ?thesis
  proof (cases r)
    case (Ret u)
    then have s': "step_assert t fr g s = set_pc t (PAcquire fr g) (s\<lparr>cq := q\<rparr>)"
      by (simp add: step_assert_def q)
    have "guards_inv (holders s) ((guards s)(t := guard_of (PAcquire fr g)))"
      using invD(2) [OF inv] pc by (simp add: guards_def fun_upd_idem)
    then show ?thesis unfolding s'
      by (intro inv_update [OF inv, where t = t and p = "PAcquire fr g"])
        (use invD(1) [OF inv] ok keeps keep Ret in \<open>auto simp: lost_iff\<close>)
  next
    case (Unwind p)
    then have s': "step_assert t fr g s = leave_unwinding t fr p (dropping True g (s\<lparr>cq := q\<rparr>))"
      by (simp add: step_assert_def q)
    show ?thesis unfolding s' leave_unwinding_pcs
      by (rule inv_release [OF inv, where a = "guard_mutex g" and x = Free])
        (use invD(1) [OF inv] unwound_client_ok [OF ok(1)] keeps keep pc in \<open>auto\<close>)
  next
    case UB
    with keeps(4) show ?thesis by simp
  qed
qed

end
