(* ===== verification/Preservation_Front.thy ===== *)
theory Preservation_Front
  imports Preservation
begin

text \<open>
  Preservation for the program counters from the attempt to take the front permission to its
  hand-over, and the theorem for all steps: the invariant, without undefined behaviour, holds
  in every state that clients keeping the contract can reach.
\<close>

section \<open>The slow path\<close>

lemma stage_at: "stages s t = stage_of (pcs s t)"
  by (simp add: stages_def)

lemma mx_put_simps [simp]:
  "queue (m\<lparr>front_locked := b\<rparr>) = queue m" "front_locked (m\<lparr>queue := q\<rparr>) = front_locked m"
  by simp_all

lemma sys_inv_step_acquire:
  assumes inv: "sys_inv s" and pc: "pcs s t = PAcquire fr g"
  shows "sys_inv (step_acquire t fr g s)"
proof -
  have ok: "frame_ok fr" "guard_mutex g = fr_mutex fr" using invD(4) [OF inv, of t] pc by simp_all
  have away: "stages s t = Away" by (simp add: stage_at pc)
  show ?thesis
  proof (cases "front_locked (mx s)")
    case True
    then have s': "step_acquire t fr g s =
        set_pc t (PPush fr g) (s\<lparr>frames := (frames s)(t \<mapsto> TaskState_new)\<rparr>)"
      by (simp add: step_acquire_def try_acquire_front_fast_def Let_def)
    have "proto_inv ((stages s)(t := Pushing)) ((frames s)(t \<mapsto> TaskState_new)) (queue (mx s))
        True (lost s) (max_len (elem_size s))"
      using inv_proto [OF inv] True away by (intro proto_start_push) simp_all
    then show ?thesis unfolding s'
      by (intro inv_move [OF inv]) (use invD(1) [OF inv] ok pc True in simp_all)
  next
    case False
    then have s': "step_acquire t fr g s =
        set_pc t (PMutexPoison fr g (fr_value fr)) (set_mx ((mx s)\<lparr>front_locked := True\<rparr>) s)"
      by (simp add: step_acquire_def try_acquire_front_fast_def Let_def)
    have "proto_inv ((stages s)(t := AtFront Fresh)) (frames s) (queue (mx s)) True (lost s)
        (max_len (elem_size s))"
      using inv_proto [OF inv] False away by (intro proto_fast) simp_all
    then show ?thesis unfolding s'
      by (intro inv_move [OF inv]) (use invD(1) [OF inv] ok pc in simp_all)
  qed
qed

lemma sys_inv_status: "sys_inv s \<Longrightarrow> x \<noteq> Undefined \<Longrightarrow> sys_inv (s\<lparr>status := x\<rparr>)"
  by (simp add: sys_inv_def holders_def [abs_def] guards_def [abs_def] stages_def [abs_def]
      proto_def lost_def)

lemma sys_inv_step_push:
  assumes inv: "sys_inv s" and pc: "pcs s t = PPush fr g"
  shows "sys_inv (step_push ch t fr g s)"
proof (cases "push_task (ch = AllocFails) (elem_size s) t (fr_value fr) (mx s)")
  case None
  then show ?thesis
    using sys_inv_status [OF inv, of Aborted] by (simp add: step_push_def)
next
  case (Some m)
  note m = push_task_queue [OF Some]
  have ok: "frame_ok fr" "guard_mutex g = fr_mutex fr" using invD(4) [OF inv, of t] pc by simp_all
  have "stages s t = Pushing" by (simp add: stage_at pc)
  with inv_proto [OF inv] have "proto_inv ((stages s)(t := InQueue Waits)) (frames s)
      (queue (mx s) @ [erased_new \<lparr>task_state = t, task_value = Some (fr_value fr)\<rparr>])
      (front_locked (mx s)) (lost s) (max_len (elem_size s))"
    using m by (intro proto_push) simp_all
  then show ?thesis unfolding step_push_def Some option.case
    by (intro inv_move [OF inv]) (use invD(1) [OF inv] ok pc m in simp_all)
qed

lemma frame_at:
  assumes "sys_inv s" "stages s t = InQueue w"
  obtains ts where "frames s t = Some ts" "wait_ok t w ts"
  using frames_waitD [OF protoD(2) [OF inv_proto [OF assms(1)]] assms(2)] by blast

lemma sys_inv_step_wait:
  assumes inv: "sys_inv s" and pc: "pcs s t = PWait fr g"
  shows "sys_inv (step_wait t fr g s)"
proof -
  have ok: "frame_ok fr" "guard_mutex g = fr_mutex fr" using invD(4) [OF inv, of t] pc by simp_all
  have st: "stages s t = InQueue Waits" by (simp add: stage_at pc)
  from frame_at [OF inv st] obtain ts where ts: "frames s t = Some ts" "wait_ok t Waits ts" .
  have "proto_inv ((stages s)(t := InQueue Blocks)) ((frames s)(t \<mapsto> wait_enter t ts))
      (queue (mx s)) (front_locked (mx s)) (lost s) (max_len (elem_size s))"
    using ts by (intro proto_stage [OF inv_proto [OF inv]]) (simp_all add: st)
  then show ?thesis unfolding step_wait_def ts option.case
    by (intro inv_release [OF inv, where a = "guard_mutex g" and x = Free])
      (use invD(1) [OF inv] invD(3) [OF inv, of t] ok pc in simp_all)
qed

lemma sys_inv_step_blocked:
  assumes inv: "sys_inv s" and pc: "pcs s t = PBlocked fr g"
    and step: "step_blocked ch t fr g s = Some s'"
  shows "sys_inv s'"
proof -
  have ok: "frame_ok fr" "guard_mutex g = fr_mutex fr" using invD(4) [OF inv, of t] pc by simp_all
  have st: "stages s t = InQueue Blocks" by (simp add: stage_at pc)
  from frame_at [OF inv st] obtain ts where ts: "frames s t = Some ts" "wait_ok t Blocks ts" .
  consider (notified) "condvar ts = []" "s' = set_pc t (PRelock fr g) s"
    | (spurious) "condvar ts = [t]"
      "s' = set_pc t (PRelock fr g) (s\<lparr>frames := (frames s)(t \<mapsto> wait_spurious t ts)\<rparr>)"
    using step ts by (auto simp: step_blocked_def split: if_splits)
  then show ?thesis
  proof cases
    case notified
    have "proto_inv ((stages s)(t := InQueue Relocks)) (frames s)
        (queue (mx s)) (front_locked (mx s)) (lost s) (max_len (elem_size s))"
      using ts notified by (intro proto_stage [OF inv_proto [OF inv]]) (simp_all add: st)
    then show ?thesis unfolding notified(2)
      by (intro inv_move [OF inv]) (use invD(1) [OF inv] ok pc in simp_all)
  next
    case spurious
    have "proto_inv ((stages s)(t := InQueue Relocks)) ((frames s)(t \<mapsto> wait_spurious t ts))
        (queue (mx s)) (front_locked (mx s)) (lost s) (max_len (elem_size s))"
      using ts spurious by (intro proto_stage [OF inv_proto [OF inv]]) (simp_all add: st)
    then show ?thesis unfolding spurious(2)
      by (intro inv_move [OF inv]) (use invD(1) [OF inv] ok pc in simp_all)
  qed
qed

lemma sys_inv_step_relock:
  assumes inv: "sys_inv s" and pc: "pcs s t = PRelock fr g"
    and step: "step_relock t fr g s = Some s'"
  shows "sys_inv s'"
proof -
  have ok: "frame_ok fr" "guard_mutex g = fr_mutex fr" using invD(4) [OF inv, of t] pc by simp_all
  have st: "stages s t = InQueue Relocks" by (simp add: stage_at pc)
  from frame_at [OF inv st] obtain ts where ts: "frames s t = Some ts" "wait_ok t Relocks ts" .
  have free: "holder (mutexes s (guard_mutex g)) = Free"
    and s': "s' = set_pc t (PCheckBit fr g) (upd_mutex (guard_mutex g) (lock t) s)"
    using step by (auto simp: step_relock_def with_lock_def lock_attempt_Panics split: attempt.splits)
  have "proto_inv ((stages s)(t := InQueue Checks)) (frames s)
      (queue (mx s)) (front_locked (mx s)) (lost s) (max_len (elem_size s))"
    using ts by (intro proto_stage [OF inv_proto [OF inv]]) (simp_all add: st)
  then show ?thesis unfolding s'
    by (intro inv_acquire [OF inv _ _ _ free]) (use invD(1) [OF inv] ok pc in simp_all)
qed

lemma sys_inv_step_check_bit:
  assumes inv: "sys_inv s" and pc: "pcs s t = PCheckBit fr g"
  shows "sys_inv (step_check_bit t fr g s)"
proof -
  have ok: "frame_ok fr" "guard_mutex g = fr_mutex fr" using invD(4) [OF inv, of t] pc by simp_all
  have st: "stages s t = InQueue Checks" by (simp add: stage_at pc)
  from frame_at [OF inv st] obtain ts where ts: "frames s t = Some ts" "wait_ok t Checks ts" .
  show ?thesis
  proof (cases "front_bit ts")
    case True
    then have s': "step_check_bit t fr g s = set_pc t (PPopSelf fr g (panic_bit ts)) s"
      by (simp add: step_check_bit_def ts wait_check_bits)
    have "proto_inv ((stages s)(t := InQueue (Pops (panic_bit ts)))) (frames s)
        (queue (mx s)) (front_locked (mx s)) (lost s) (max_len (elem_size s))"
      using ts True by (intro proto_stage [OF inv_proto [OF inv]]) (auto simp: st)
    then show ?thesis unfolding s'
      by (intro inv_move [OF inv]) (use invD(1) [OF inv] ok pc in simp_all)
  next
    case False
    then have s': "step_check_bit t fr g s = set_pc t (PWait fr g) s"
      by (simp add: step_check_bit_def ts wait_check_bits)
    have "proto_inv ((stages s)(t := InQueue Waits)) (frames s)
        (queue (mx s)) (front_locked (mx s)) (lost s) (max_len (elem_size s))"
      using ts False by (intro proto_stage [OF inv_proto [OF inv]]) (simp_all add: st)
    then show ?thesis unfolding s'
      by (intro inv_move [OF inv]) (use invD(1) [OF inv] ok pc in simp_all)
  qed
qed

text \<open>The task a thread pops is its own, and there is one.\<close>

lemma pop_self_own:
  assumes inv: "sys_inv s" and pc: "pcs s t = PPopSelf fr g b"
  obtains et q where "queue (mx s) = et # q" "owner et = t" "is_init et"
proof -
  have st: "stages s t = InQueue (Pops b)" by (simp add: stage_at pc)
  from frame_at [OF inv st] obtain ts where "frames s t = Some ts" "front_bit ts" by auto
  from proto_head [OF inv_proto [OF inv] st this] that show thesis by metis
qed

lemma sys_inv_step_pop_self:
  assumes inv: "sys_inv s" and pc: "pcs s t = PPopSelf fr g b"
  shows "sys_inv (step_pop_self t fr g b s)"
proof -
  have ok: "frame_ok fr" "guard_mutex g = fr_mutex fr" using invD(4) [OF inv, of t] pc by simp_all
  have st: "stages s t = InQueue (Pops b)" by (simp add: stage_at pc)
  from pop_self_own [OF inv pc] obtain et q
    where q: "queue (mx s) = et # q" "owner et = t" "is_init et" .
  let ?w = "case value_of et of Some v \<Rightarrow> WaitProcess v
    | None \<Rightarrow> if b then WaitProcessingPanicked else WaitProcessedElsewhere"
  have s': "step_pop_self t fr g b s = set_pc t (PQueuePoison fr g ?w) (set_mx ((mx s)\<lparr>queue := q\<rparr>) s)"
    by (simp add: step_pop_self_def pop_this_task_Cons [OF q(1,3,2)] Let_def)
  have w: "(\<exists>v. ?w = WaitProcess v) \<longleftrightarrow> value_of et \<noteq> None"
    by (auto split: option.splits)
  have "proto_inv ((stages s)(t := AtFront (Deciding (value_of et \<noteq> None)))) (frames s) q
      (front_locked (mx s)) (lost s) (max_len (elem_size s))"
    using inv_proto [OF inv] st q by (intro proto_pop_self) simp_all
  then show ?thesis unfolding s'
    by (intro inv_move [OF inv]) (use invD(1) [OF inv] ok pc w in simp_all)
qed

lemma sys_inv_step_queue_poison:
  assumes inv: "sys_inv s" and pc: "pcs s t = PQueuePoison fr g w"
  shows "sys_inv (step_queue_poison t fr g w s)"
proof -
  have ok: "frame_ok fr" "guard_mutex g = fr_mutex fr" using invD(4) [OF inv, of t] pc by simp_all
  have st: "stages s t = AtFront (Deciding (\<exists>v. w = WaitProcess v))" by (simp add: stage_at pc)
  have leave: "proto_inv ((stages s)(t := AtFront Leaving)) ((frames s)(t := None))
      (queue (mx s)) (front_locked (mx s)) (lost s) (max_len (elem_size s))"
    by (intro proto_stage [OF inv_proto [OF inv]]) (simp_all add: st)
  show ?thesis
  proof (cases "unwrap_queue_poison (options (cq s)) \<and> queue_poisoned (mx s)")
    case True
    then have s': "step_queue_poison t fr g w s =
        set_pc t (PErrLock fr QueuePoisoned) (dropping True g (s\<lparr>frames := (frames s)(t := None)\<rparr>))"
      by (simp add: step_queue_poison_def Let_def)
    show ?thesis unfolding s'
      by (intro inv_release [OF inv, where a = "guard_mutex g" and x = Free])
        (use invD(1) [OF inv] invD(3) [OF inv, of t] ok pc leave in simp_all)
  next
    case False
    then have s': "step_queue_poison t fr g w s = set_pc t (case w of
          WaitProcess this_value \<Rightarrow> PMutexPoison fr g this_value
        | WaitProcessedElsewhere \<Rightarrow> PHandoff fr g ProcessedElsewhere
        | WaitProcessingPanicked \<Rightarrow> PHandoff fr g ProcessingPanicked) (s\<lparr>frames := (frames s)(t := None)\<rparr>)"
      unfolding step_queue_poison_def Let_def by (simp only: if_False)
    have fresh: "proto_inv ((stages s)(t := AtFront Fresh)) ((frames s)(t := None))
        (queue (mx s)) (front_locked (mx s)) (lost s) (max_len (elem_size s))"
      if "w = WaitProcess v" for v
      by (intro proto_stage [OF inv_proto [OF inv]]) (simp_all add: st that)
    show ?thesis unfolding s'
      by (intro inv_move [OF inv])
        (use invD(1) [OF inv] ok pc leave fresh in \<open>simp_all split: TaskWaitResult.splits\<close>)
  qed
qed

section \<open>The callback\<close>

lemma sys_inv_step_mutex_poison:
  assumes inv: "sys_inv s" and pc: "pcs s t = PMutexPoison fr g v"
  shows "sys_inv (step_mutex_poison t fr g v s)"
proof -
  have ok: "frame_ok fr" "guard_mutex g = fr_mutex fr" using invD(4) [OF inv, of t] pc by simp_all
  have st: "stages s t = AtFront Fresh" by (simp add: stage_at pc)
  have to: "proto_inv ((stages s)(t := AtFront w)) (frames s)
      (queue (mx s)) (front_locked (mx s)) (lost s) (max_len (elem_size s))"
    if "w = Serving 0 \<or> w = Leaving" for w
    using that by (intro proto_stage [OF inv_proto [OF inv]]) (auto simp: st)
  show ?thesis
  proof (cases "unwrap_mutex_poison (options (cq s)) \<and> poisoned (mutexes s (fr_mutex fr))")
    case True
    then have s': "step_mutex_poison t fr g v s = set_pc t (PErrLock fr MutexPoisoned) (dropping True g s)"
      by (simp add: step_mutex_poison_def)
    show ?thesis unfolding s'
      by (intro inv_release [OF inv, where a = "guard_mutex g" and x = Free])
        (use invD(1) [OF inv] invD(3) [OF inv, of t] ok pc to in simp_all)
  next
    case False
    then have s': "step_mutex_poison t fr g v s =
        set_pc t (PCallback fr (handle_new (fr_mutex fr) g) (fr_task fr v)) s"
      unfolding step_mutex_poison_def by (simp only: if_False)
    show ?thesis unfolding s'
      by (intro inv_move [OF inv])
        (use invD(1) [OF inv] ok pc to in \<open>simp_all add: handle_for_def handle_ready_def\<close>)
  qed
qed

text \<open>The handle of a thread in its callback is in order, so no method of it can fail.\<close>

lemma serving_handle_ok:
  assumes inv: "sys_inv s" and st: "stages s t = AtFront (Serving (unat (next_idx h)))"
  shows "handle_ok h (mx s)"
proof -
  have "popped_prefix (unat (next_idx h)) (queue (mx s))"
    using protoD(4) [OF inv_proto [OF inv]] st unfolding values_inv_def
    by (metis prefix_ok.simps(3))
  moreover have "length (queue (mx s)) < 2 ^ 63" "\<forall>et \<in> set (queue (mx s)). is_init et"
    using protoD(1) [OF inv_proto [OF inv]] max_len_bound [of "elem_size s"]
    by (auto simp: queue_inv_def)
  ultimately show ?thesis by (simp add: handle_ok_def)
qed

lemma callback_facts:
  assumes inv: "sys_inv s" and pc: "pcs s t = PCallback fr h cb"
  obtains g where "qh_guard h = Init g" "guard_mutex g = fr_mutex fr" "frame_ok fr"
    "ns_get (qh_mutex h) = fr_mutex fr" "mutex_exclusive_guard h = Init ()" "handle_ready h"
    "handle_ok h (mx s)"
proof -
  have ok: "frame_ok fr" "ns_get (qh_mutex h) = fr_mutex fr" "handle_for (fr_mutex fr) h"
    using invD(4) [OF inv, of t] pc by simp_all
  then obtain g where "qh_guard h = Init g" "guard_mutex g = fr_mutex fr"
    by (cases "qh_guard h") (auto simp: handle_for_def handle_ready_def)
  moreover have "mutex_exclusive_guard h = Init ()" "handle_ready h"
    using ok(3) by (auto simp: handle_for_def handle_ready_def) (metis MaybeUninit.exhaust old.unit.exhaust)
  moreover have "handle_ok h (mx s)"
    using serving_handle_ok [OF inv, of t h] by (simp add: stage_at pc)
  ultimately show thesis using that ok by blast
qed

lemma sys_inv_callback_stays:
  assumes inv: "sys_inv s" and pc: "pcs s t = PCallback fr h cb"
    and st: "status s0 \<noteq> Undefined" and pcs: "pcs s1 = pcs s"
    and same: "holders s0 = holders s" "mutex_address (cq s0) = mutex_address (cq s)"
      "frames s0 = frames s" "queue (mx s0) = queue (mx s)"
      "front_locked (mx s0) = front_locked (mx s)" "elem_size s0 = elem_size s"
  shows "sys_inv (s0\<lparr>pcs := (pcs s1)(t := PCallback fr h cb')\<rparr>)"
  by (rule inv_silent [OF inv st pcs]) (use invD(4) [OF inv, of t] pc same in simp_all)

lemma sys_inv_step_callback_pop:
  assumes inv: "sys_inv s" and pc: "pcs s t = PCallback fr h (CbPop k)"
  shows "sys_inv (step_callback t fr h (CbPop k) s)"
proof (rule callback_facts [OF inv pc])
  fix g
  assume h: "qh_guard h = Init g" "guard_mutex g = fr_mutex fr" "frame_ok fr"
    "ns_get (qh_mutex h) = fr_mutex fr" "mutex_exclusive_guard h = Init ()" "handle_ready h"
    "handle_ok h (mx s)"
  let ?i = "unat (next_idx h)"
  show ?thesis
  proof (cases "?i < length (queue (mx s))")
    case True
    have st: "stages s t = AtFront (Serving ?i)" by (simp add: stage_at pc)
    have "proto_inv ((stages s)(t := AtFront (Serving (Suc ?i)))) (frames s)
        ((queue (mx s))[?i := taken (queue (mx s) ! ?i)]) (front_locked (mx s)) (lost s)
        (max_len (elem_size s))"
      using inv_proto [OF inv] st True by (rule proto_take)
    then show ?thesis
      unfolding step_callback_def callback.case handle_pop_ok [OF h(7,6) True] Let_def prod.case res.case
      by (intro inv_move [OF inv])
        (use invD(1) [OF inv] h pc next_idx_no_wrap [OF h(7) True]
          in \<open>simp_all add: handle_for_def handle_ready_def\<close>)
  next
    case False
    show ?thesis
      unfolding step_callback_def callback.case handle_pop_empty [OF h(7,6) False] Let_def prod.case res.case
      by (rule sys_inv_callback_stays [OF inv pc]) (use invD(1) [OF inv] in simp_all)
  qed
qed

lemma sys_inv_step_callback:
  assumes inv: "sys_inv s" and pc: "pcs s t = PCallback fr h cb"
  shows "sys_inv (step_callback t fr h cb s)"
proof (rule callback_facts [OF inv pc])
  fix g
  assume h: "qh_guard h = Init g" "guard_mutex g = fr_mutex fr" "frame_ok fr"
    "ns_get (qh_mutex h) = fr_mutex fr" "mutex_exclusive_guard h = Init ()" "handle_ready h"
    "handle_ok h (mx s)"
  have st: "stages s t = AtFront (Serving (unat (next_idx h)))" by (simp add: stage_at pc)
  have leave: "proto_inv ((stages s)(t := AtFront Leaving)) (frames s)
      (queue (mx s)) (front_locked (mx s)) (lost s) (max_len (elem_size s))"
    by (intro proto_stage [OF inv_proto [OF inv]]) (simp_all add: st)
  note run = invD(1) [OF inv]
  note stays = sys_inv_callback_stays [OF inv pc]
  show ?thesis
  proof (cases cb)
    case (CbReturn r)
    have s': "step_callback t fr h cb s = set_pc t (PHandoff fr g (Processed r)) s"
      by (simp add: step_callback_def CbReturn h)
    show ?thesis unfolding s' by (intro inv_move [OF inv]) (use run h pc leave in simp_all)
  next
    case (CbPanic n)
    have s': "step_callback t fr h cb s = set_pc t (PErrLock fr (UserPanic n))
        (upd_mutex (guard_mutex g) (leak_guard t) s)"
      by (simp add: step_callback_def CbPanic h)
    show ?thesis unfolding s'
      by (intro inv_release [OF inv, where a = "guard_mutex g" and x = "Leaked t"])
        (use run invD(3) [OF inv, of t] h pc leave in simp_all)
  next
    case (CbReadFront k)
    show ?thesis unfolding step_callback_def CbReadFront callback.case
      by (rule stays) (use run in simp_all)
  next
    case (CbWriteFront fs cb')
    show ?thesis unfolding step_callback_def CbWriteFront callback.case
      by (rule stays) (use run in simp_all)
  next
    case (CbPeek k)
    show ?thesis
      unfolding step_callback_def CbPeek callback.case handle_peek_ok [OF h(7,6)] res.case
      by (rule stays) (use run in simp_all)
  next
    case (CbPop k)
    with sys_inv_step_callback_pop [OF inv] pc show ?thesis by simp
  next
    case (CbMutexState k)
    show ?thesis
      unfolding step_callback_def CbMutexState callback.case handle_mutex_state_def h
        assume_init.simps bind_res.simps res.case
      by (rule stays) (use run in simp_all)
  next
    case (CbMutexStateMut m cb')
    show ?thesis
      unfolding step_callback_def CbMutexStateMut callback.case handle_mutex_state_mut_def h
        assume_init.simps bind_res.simps res.case
      by (rule stays) (use run in \<open>simp_all add: holders_def fun_eq_iff\<close>)
  next
    case (CbUnlocked clo k)
    let ?h = "h\<lparr>qh_guard := Uninit, mutex_exclusive_guard := Uninit\<rparr>"
    have s': "step_callback t fr h cb s = set_pc t (PUnlocked fr ?h clo k) (dropping False g s)"
      by (simp add: step_callback_def CbUnlocked h relock_new_def)
    show ?thesis unfolding s'
      by (intro inv_release [OF inv, where a = "guard_mutex g" and x = Free])
        (use run invD(3) [OF inv, of t] h pc proto_keep [OF inv, of "PUnlocked fr ?h clo k" t] in simp_all)
  next
    case (CbIsQueuePoisoned k)
    show ?thesis
      unfolding step_callback_def CbIsQueuePoisoned callback.case handle_is_queue_poisoned_def h
        assume_init.simps bind_res.simps res.case
      by (rule stays) (use run in simp_all)
  next
    case (CbClearQueuePoison cb')
    show ?thesis
      unfolding step_callback_def CbClearQueuePoison callback.case handle_clear_queue_poison_def h
        assume_init.simps bind_res.simps res.case
      by (rule stays) (use run in simp_all)
  qed
qed

lemma sys_inv_closure_lock:
  assumes inv: "sys_inv s" and pc: "pcs s t = PUnlocked fr h clo k" and a: "a = fr_mutex fr"
    and step: "closure_lock ch t fr h a x unwound k s = Some s'"
  shows "sys_inv s'"
proof -
  have ok: "frame_ok fr" "ns_get (qh_mutex h) = fr_mutex fr" using invD(4) [OF inv, of t] pc by simp_all
  consider (acq) "holder (mutexes s a) = Free"
      "s' = set_pc t (PUnlockedHolds fr h (Guard a False) x k) (upd_mutex a (lock t) s)"
    | (panics) "s' = set_pc t (PUnlocked fr h unwound k) s"
    using step by (auto simp: closure_lock_def with_lock_def split: attempt.splits)
  then show ?thesis
  proof cases
    case acq
    show ?thesis unfolding acq(2)
      by (intro inv_acquire [OF inv _ _ _ acq(1)])
        (use invD(1) [OF inv] ok a pc proto_keep [OF inv, of "PUnlocked fr h clo k" t] in simp_all)
  next
    case panics
    show ?thesis unfolding panics
      by (intro inv_silent [OF inv]) (use invD(1) [OF inv] ok pc in simp_all)
  qed
qed

text \<open>The accessors of the queue's poison, called by a closure: the check, then the lock.\<close>

lemma sys_inv_closure_accessor:
  assumes inv: "sys_inv s" and pc: "pcs s t = PUnlocked fr h clo k"
    and step: "(let (r, q) = assert_mutex_good a (mutex_size s) (cq s); s' = s\<lparr>cq := q\<rparr>
      in case r of
           Unwind p \<Rightarrow> Some (set_pc t (PUnlocked fr h (f (Unwound p)) k) s')
         | _ \<Rightarrow> closure_lock ch t fr h a x (f (Unwound LockReentered)) k s') = Some s'"
  shows "sys_inv s'"
proof -
  obtain r q where q: "assert_mutex_good a (mutex_size s) (cq s) = (r, q)" by fastforce
  have "bound (pcs s t) = Some (fr_mutex fr)" by (simp add: pc)
  note same = checked_again [OF inv this q]
  show ?thesis
  proof (cases r)
    case (Ret u)
    with step q same have "closure_lock ch t fr h a x (f (Unwound LockReentered)) k s = Some s'" by simp
    with same(2) Ret show ?thesis by (intro sys_inv_closure_lock [OF inv pc]) simp_all
  next
    case (Unwind p)
    with step q same(1) have s': "s' = set_pc t (PUnlocked fr h (f (Unwound p)) k) s" by simp
    show ?thesis unfolding s'
      by (rule inv_silent [OF inv]) (use invD(1) [OF inv] invD(4) [OF inv, of t] pc in simp_all)
  qed (use same(3) in simp)
qed

lemma sys_inv_step_unlocked:
  assumes inv: "sys_inv s" and pc: "pcs s t = PUnlocked fr h clo k"
    and step: "step_unlocked ch t fr h clo k s = Some s'"
  shows "sys_inv s'"
proof (cases clo)
  case (CloLockMutex a f)
  with step consider (acq) "holder (mutexes s a) = Free"
      "s' = set_pc t (PUnlockedHolds fr h (Guard a False) (InCritical (f (poisoned (mutexes s a)))) k)
        (upd_mutex a (lock t) s)"
    | (panics) "s' = set_pc t (PUnlockRelock fr h (Unwound LockReentered) k) s"
    by (auto simp: step_unlocked_def with_lock_def split: attempt.splits)
  then show ?thesis
  proof cases
    case acq
    show ?thesis unfolding acq(2)
      by (rule inv_acquire [OF inv _ _ _ acq(1)])
        (use invD(1) [OF inv] invD(4) [OF inv, of t] pc proto_keep [OF inv, of "PUnlocked fr h clo k" t]
          in simp_all)
  next
    case panics
    show ?thesis unfolding panics
      by (rule inv_silent [OF inv]) (use invD(1) [OF inv] invD(4) [OF inv, of t] pc in simp_all)
  qed
next
  case (CloIsQueuePoisoned a f)
  show ?thesis
    by (rule sys_inv_closure_accessor [OF inv pc step [unfolded step_unlocked_def CloIsQueuePoisoned closure.case]])
next
  case (CloClearQueuePoison a f)
  show ?thesis
    by (rule sys_inv_closure_accessor [OF inv pc step [unfolded step_unlocked_def CloClearQueuePoison closure.case]])
next
  case (CloReturn u)
  with step have s': "s' = set_pc t (PUnlockRelock fr h (Returned u) k) s" by (simp add: step_unlocked_def)
  show ?thesis unfolding s'
    by (rule inv_silent [OF inv]) (use invD(1) [OF inv] invD(4) [OF inv, of t] pc in simp_all)
next
  case (CloPanic n)
  with step have s': "s' = set_pc t (PUnlockRelock fr h (Unwound (UserPanic n)) k) s"
    by (simp add: step_unlocked_def)
  show ?thesis unfolding s'
    by (rule inv_silent [OF inv]) (use invD(1) [OF inv] invD(4) [OF inv, of t] pc in simp_all)
next
  case (CloReadFront f)
  with step have s': "s' = set_pc t (PUnlocked fr h (f (front_exclusive_mut (cq s))) k) s"
    by (simp add: step_unlocked_def)
  show ?thesis unfolding s'
    by (rule inv_silent [OF inv]) (use invD(1) [OF inv] invD(4) [OF inv, of t] pc in simp_all)
next
  case (CloWriteFront fs clo')
  with step have s': "s' = set_pc t (PUnlocked fr h clo' k) (s\<lparr>cq := put_front_state fs (cq s)\<rparr>)"
    by (simp add: step_unlocked_def)
  show ?thesis unfolding s'
    by (rule inv_silent [OF inv]) (use invD(1) [OF inv] invD(4) [OF inv, of t] pc in simp_all)
qed

lemma sys_inv_step_holding:
  assumes inv: "sys_inv s" and pc: "pcs s t = PUnlockedHolds fr h g x k"
  shows "sys_inv (step_holding t fr h g x k s)"
proof -
  note ok = invD(1) [OF inv] invD(4) [OF inv, of t] invD(3) [OF inv, of t] pc
  note keep = proto_keep [OF inv, of "PUnlockedHolds fr h g x k" t]
  show ?thesis
  proof (cases x)
    case (InCritical c)
    show ?thesis
    proof (cases c)
      case (CritDrop clo)
      have s': "step_holding t fr h g x k s = set_pc t (PUnlocked fr h clo k) (dropping False g s)"
        by (simp add: step_holding_def InCritical CritDrop)
      show ?thesis unfolding s'
        by (rule inv_release [OF inv, where a = "guard_mutex g" and x = Free])
          (use ok keep InCritical in simp_all)
    next
      case (CritForget clo)
      have s': "step_holding t fr h g x k s =
          set_pc t (PUnlocked fr h clo k) (upd_mutex (guard_mutex g) (leak_guard t) s)"
        by (simp add: step_holding_def InCritical CritForget)
      show ?thesis unfolding s'
        by (rule inv_release [OF inv, where a = "guard_mutex g" and x = "Leaked t"])
          (use ok keep InCritical in simp_all)
    next
      case (CritPanic n)
      have s': "step_holding t fr h g x k s =
          set_pc t (PUnlockRelock fr h (Unwound (UserPanic n)) k) (dropping True g s)"
        by (simp add: step_holding_def InCritical CritPanic)
      show ?thesis unfolding s'
        by (rule inv_release [OF inv, where a = "guard_mutex g" and x = Free])
          (use ok keep InCritical in simp_all)
    next
      case (CritReadState f)
      have s': "step_holding t fr h g x k s =
          set_pc t (PUnlockedHolds fr h g (InCritical (f (data (mutexes s (guard_mutex g))))) k) s"
        by (simp add: step_holding_def InCritical CritReadState)
      show ?thesis unfolding s'
        by (rule inv_silent [OF inv]) (use ok in \<open>simp_all\<close>)
    next
      case (CritWriteState m c')
      have s': "step_holding t fr h g x k s =
          set_pc t (PUnlockedHolds fr h g (InCritical c') k) (upd_mutex (guard_mutex g) (\<lambda>mu. mu\<lparr>data := m\<rparr>) s)"
        by (simp add: step_holding_def InCritical CritWriteState)
      show ?thesis unfolding s'
        by (rule inv_silent [OF inv]) (use ok in \<open>simp_all add: holders_def fun_eq_iff\<close>)
    next
      case (CritReadFront f)
      have s': "step_holding t fr h g x k s =
          set_pc t (PUnlockedHolds fr h g (InCritical (f (front_exclusive_mut (cq s)))) k) s"
        by (simp add: step_holding_def InCritical CritReadFront)
      show ?thesis unfolding s'
        by (rule inv_silent [OF inv]) (use ok in \<open>simp_all\<close>)
    next
      case (CritWriteFront fs c')
      have s': "step_holding t fr h g x k s =
          set_pc t (PUnlockedHolds fr h g (InCritical c') k) (s\<lparr>cq := put_front_state fs (cq s)\<rparr>)"
        by (simp add: step_holding_def InCritical CritWriteFront)
      show ?thesis unfolding s'
        by (rule inv_silent [OF inv]) (use ok in \<open>simp_all\<close>)
    qed
  next
    case (ReadsPoison f)
    show ?thesis
      unfolding step_holding_def ReadsPoison holding.case closure_is_read_def
      by (rule inv_release [OF inv, where a = "guard_mutex g" and x = Free]) (use ok keep in simp_all)
  next
    case (ClearsPoison f)
    show ?thesis
      unfolding step_holding_def ClearsPoison holding.case closure_clear_write_def
      by (rule inv_release [OF inv, where a = "guard_mutex g" and x = Free]) (use ok keep in simp_all)
  qed
qed

lemma sys_inv_step_unlock_relock:
  assumes inv: "sys_inv s" and pc: "pcs s t = PUnlockRelock fr h out k"
    and step: "step_unlock_relock ch t fr h out k s = Some s'"
  shows "sys_inv s'"
proof -
  let ?a = "ns_get (qh_mutex h)"
  let ?g = "Guard ?a (case out of Returned _ \<Rightarrow> False | Unwound _ \<Rightarrow> True)"
  have ok: "frame_ok fr" "?a = fr_mutex fr" using invD(4) [OF inv, of t] pc by simp_all
  consider (acq) "holder (mutexes s ?a) = Free"
      "s' = set_pc t (PCallback fr (relock_drop ?g h) (k out)) (upd_mutex ?a (lock t) s)"
    | (panics) "s' = s\<lparr>status := Aborted\<rparr>"
    using step by (auto simp: step_unlock_relock_def with_lock_def Let_def split: attempt.splits)
  then show ?thesis
  proof cases
    case acq
    show ?thesis unfolding acq(2)
      by (intro inv_acquire [OF inv _ _ _ acq(1)])
        (use invD(1) [OF inv] ok pc proto_keep [OF inv, of "PUnlockRelock fr h out k" t]
          in \<open>simp_all add: relock_drop_def handle_for_def handle_ready_def\<close>)
  next
    case panics
    with sys_inv_status [OF inv, of Aborted] show ?thesis by simp
  qed
qed

section \<open>Handing the permission on\<close>

text \<open>
  What both ends of \<open>process_unchecked\<close> do with the permission, in terms of the interface of
  the two wake-ups: the hand-over cannot fail, and it is a transition of the protocol.
\<close>

context front_waker
begin

lemma transfer_front_inv:
  assumes inv: "sys_inv s" and t: "at_front (stages s t)"
    and guard: "guard_of (pcs s t) = Some a" "bound (pcs s t) = Some a"
    and m: "queue m = queue (mx s)" "front_locked m = front_locked (mx s)"
  obtains fs m' where "transfer_front wake (frames s) m = Ret (fs, m')" "queue m' = queue (mx s)"
    "proto_inv ((stages s)(t := Away)) fs (queue (mx s)) (front_locked m') (lost s)
       (max_len (elem_size s))"
proof (cases "queue (mx s)")
  case Nil
  have "stages s u \<noteq> Pushing" for u
    using inv_quiet [OF inv guard, of u] t by (cases "u = t") auto
  then have "proto_inv ((stages s)(t := Away)) (frames s) (queue (mx s)) False (lost s)
      (max_len (elem_size s))"
    using inv_proto [OF inv] t Nil by (intro proto_release) simp_all
  with Nil that m show thesis by (simp add: transfer_front_Nil)
next
  case (Cons et q)
  have P: "proto_inv (stages s) (frames s) (et # q) (front_locked (mx s)) (lost s)
      (max_len (elem_size s))"
    using inv_proto [OF inv] Cons by simp
  obtain ts where ts: "is_init et" "frames s (owner et) = Some ts"
    using proto_head_frame [OF P] by blast
  have "transfer_front wake (frames s) m = Ret ((frames s)(owner et \<mapsto> wake ts), m)"
    using transfer_front_Cons [of m et q "frames s" ts wake] Cons m ts by simp
  moreover have "proto_inv ((stages s)(t := Away)) ((frames s)(owner et \<mapsto> wake ts)) (et # q)
      (front_locked (mx s)) (lost s) (max_len (elem_size s))"
    using P t ts(2) inv_quiet [OF inv guard] by (rule proto_wake)
  ultimately show thesis using that m Cons by simp
qed

end

lemma sys_inv_step_err_lock:
  assumes inv: "sys_inv s" and pc: "pcs s t = PErrLock fr p"
    and step: "step_err_lock ch t fr p s = Some s'"
  shows "sys_inv s'"
proof -
  let ?a = "fr_mutex fr"
  have ok: "frame_ok fr" using invD(4) [OF inv, of t] pc by simp
  have st: "stages s t = AtFront Leaving" by (simp add: stage_at pc)
  consider (acq) "holder (mutexes s ?a) = Free"
      "s' = set_pc t (PErrHandoff fr (Guard ?a False) p) (upd_mutex ?a (lock t) s)"
    | (panics) "holder (mutexes s ?a) = Held t \<or> holder (mutexes s ?a) = Leaked t"
      "s' = leave_unwinding t fr LockReentered s"
    using step
    by (auto simp: step_err_lock_def with_lock_def Let_def lock_attempt_Panics split: attempt.splits)
  then show ?thesis
  proof cases
    case acq
    show ?thesis unfolding acq(2)
      by (intro inv_acquire [OF inv _ _ _ acq(1)])
        (use invD(1) [OF inv] ok pc proto_keep [OF inv, of "PErrLock fr p" t] in simp_all)
  next
    case panics
    have "holder (mutexes s ?a) \<noteq> Held t"
      using invD(2) [OF inv] pc by (auto simp: guards_inv_def holders_def guards_def)
    with panics(1) have "lost s" by (auto simp: lost_def holders_def)
    moreover have "proto_inv ((stages s)(t := Away)) (frames s) (queue (mx s))
        (front_locked (mx s)) True (max_len (elem_size s))"
      using inv_proto [OF inv] by (rule proto_lose) (simp add: st)
    ultimately show ?thesis unfolding panics(2) leave_unwinding_pcs
      by (intro inv_move [OF inv]) (use invD(1) [OF inv] unwound_client_ok [OF ok] pc in simp_all)
  qed
qed

lemma sys_inv_step_err_handoff:
  assumes inv: "sys_inv s" and pc: "pcs s t = PErrHandoff fr g p"
  shows "sys_inv (step_err_handoff t fr g p s)"
proof -
  have ok: "frame_ok fr" "guard_mutex g = fr_mutex fr" using invD(4) [OF inv, of t] pc by simp_all
  have "at_front (stages s t)" "guard_of (pcs s t) = Some (fr_mutex fr)" "bound (pcs s t) = Some (fr_mutex fr)"
    using ok by (simp_all add: stage_at pc)
  from panic_waker.transfer_front_inv [OF inv this, of "(mx s)\<lparr>queue_poisoned := True\<rparr>"]
  obtain fs m where m: "finish_err (frames s) (mx s) = Ret (fs, m)" "queue m = queue (mx s)"
    "proto_inv ((stages s)(t := Away)) fs (queue (mx s)) (front_locked m) (lost s) (max_len (elem_size s))"
    by (auto simp: finish_err_def)
  show ?thesis
    unfolding step_err_handoff_def m(1) res.case prod.case leave_unwinding_pcs
    by (intro inv_release [OF inv, where a = "guard_mutex g" and x = Free])
      (use invD(1) [OF inv] unwound_client_ok [OF ok(1)] m pc in simp_all)
qed

lemma sys_inv_step_handoff:
  assumes inv: "sys_inv s" and pc: "pcs s t = PHandoff fr g r"
  shows "sys_inv (step_handoff t fr g r s)"
proof -
  have ok: "frame_ok fr" "guard_mutex g = fr_mutex fr" using invD(4) [OF inv, of t] pc by simp_all
  have "at_front (stages s t)" "guard_of (pcs s t) = Some (fr_mutex fr)" "bound (pcs s t) = Some (fr_mutex fr)"
    using ok by (simp_all add: stage_at pc)
  from ok_waker.transfer_front_inv [OF inv this, of "mx s"]
  obtain fs m where m: "finish_ok (frames s) (mx s) = Ret (fs, m)" "queue m = queue (mx s)"
    "proto_inv ((stages s)(t := Away)) fs (queue (mx s)) (front_locked m) (lost s) (max_len (elem_size s))"
    by (auto simp: finish_ok_def)
  show ?thesis unfolding step_handoff_def m(1) res.case prod.case
    by (intro inv_move [OF inv]) (use invD(1) [OF inv] ok m pc in simp_all)
qed

lemma sys_inv_step_return:
  assumes inv: "sys_inv s" and pc: "pcs s t = PReturn fr g r"
  shows "sys_inv (step_return t fr g r s)"
proof -
  have ok: "frame_ok fr" "guard_mutex g = fr_mutex fr" using invD(4) [OF inv, of t] pc by simp_all
  have keep: "proto_inv ((stages s)(t := Away)) (frames s) (queue (mx s))
      (front_locked (mx s)) (lost s) (max_len (elem_size s))"
    using proto_keep [OF inv, of "PReturn fr g r" t] pc by simp
  show ?thesis
  proof (cases "fr_caller fr")
    case (ByLockAndProcess k)
    show ?thesis unfolding step_return_def ByLockAndProcess caller.case
      by (intro inv_release [OF inv, where a = "guard_mutex g" and x = Free])
        (use invD(1) [OF inv] ok pc keep ByLockAndProcess in \<open>simp_all add: frame_ok_def\<close>)
  next
    case (ByProcess k kp)
    show ?thesis unfolding step_return_def ByProcess caller.case
      by (intro inv_silent [OF inv])
        (use invD(1) [OF inv] ok pc ByProcess in \<open>simp_all add: frame_ok_def\<close>)
  qed
qed

section \<open>The poison accessors\<close>

lemma sys_inv_step_is_lock:
  assumes inv: "sys_inv s" and pc: "pcs s t = PIsLock a k" and step: "step_is_lock ch t a k s = Some s'"
  shows "sys_inv s'"
proof -
  have ok: "a \<noteq> 0" "client_ok (k out)" for out using invD(4) [OF inv, of t] pc by simp_all
  consider (acq) "holder (mutexes s a) = Free"
      "s' = set_pc t (PIsRead (Guard a False) k) (upd_mutex a (lock t) s)"
    | (panics) "s' = set_pc t (PClient (k (Unwound LockReentered))) s"
    using step by (auto simp: step_is_lock_def with_lock_def split: attempt.splits)
  then show ?thesis
  proof cases
    case acq
    show ?thesis unfolding acq(2)
      by (intro inv_acquire [OF inv _ _ _ acq(1)])
        (use invD(1) [OF inv] ok pc proto_keep [OF inv, of "PIsLock a k" t] in simp_all)
  next
    case panics
    show ?thesis unfolding panics
      by (intro inv_silent [OF inv]) (use invD(1) [OF inv] ok pc in simp_all)
  qed
qed

lemma sys_inv_step_clear_lock:
  assumes inv: "sys_inv s" and pc: "pcs s t = PClearLock a k" and step: "step_clear_lock ch t a k s = Some s'"
  shows "sys_inv s'"
proof -
  have ok: "a \<noteq> 0" "client_ok (k out)" for out using invD(4) [OF inv, of t] pc by simp_all
  consider (acq) "holder (mutexes s a) = Free"
      "s' = set_pc t (PClearWrite (Guard a False) k) (upd_mutex a (lock t) s)"
    | (panics) "s' = set_pc t (PClient (k (Unwound LockReentered))) s"
    using step by (auto simp: step_clear_lock_def with_lock_def split: attempt.splits)
  then show ?thesis
  proof cases
    case acq
    show ?thesis unfolding acq(2)
      by (intro inv_acquire [OF inv _ _ _ acq(1)])
        (use invD(1) [OF inv] ok pc proto_keep [OF inv, of "PClearLock a k" t] in simp_all)
  next
    case panics
    show ?thesis unfolding panics
      by (intro inv_silent [OF inv]) (use invD(1) [OF inv] ok pc in simp_all)
  qed
qed

lemma sys_inv_step_is_read:
  assumes inv: "sys_inv s" and pc: "pcs s t = PIsRead g k"
  shows "sys_inv (step_is_read t g k s)"
  unfolding step_is_read_def
  by (intro inv_release [OF inv, where a = "guard_mutex g" and x = Free])
    (use invD(1) [OF inv] invD(4) [OF inv, of t] pc proto_keep [OF inv, of "PIsRead g k" t] in simp_all)

lemma sys_inv_step_clear_write:
  assumes inv: "sys_inv s" and pc: "pcs s t = PClearWrite g k"
  shows "sys_inv (step_clear_write t g k s)"
  unfolding step_clear_write_def
  by (intro inv_release [OF inv, where a = "guard_mutex g" and x = Free])
    (use invD(1) [OF inv] invD(4) [OF inv, of t] pc proto_keep [OF inv, of "PClearWrite g k" t] in simp_all)

section \<open>All steps\<close>

lemmas sys_inv_total_steps =
  sys_inv_step_acquire sys_inv_step_push sys_inv_step_wait sys_inv_step_check_bit
  sys_inv_step_pop_self sys_inv_step_queue_poison sys_inv_step_mutex_poison sys_inv_step_callback
  sys_inv_step_holding sys_inv_step_err_handoff sys_inv_step_handoff sys_inv_step_return
  sys_inv_step_is_read sys_inv_step_clear_write inv_step_session inv_step_assert

lemmas sys_inv_partial_steps =
  inv_step_client inv_step_lock sys_inv_step_blocked sys_inv_step_relock
  sys_inv_step_unlocked sys_inv_step_unlock_relock sys_inv_step_err_lock sys_inv_step_is_lock sys_inv_step_clear_lock

lemma sys_inv_step_pc:
  assumes "sys_inv s" and "step_pc ch t (pcs s t) s = Some s'"
  shows "sys_inv s'"
  using assms(2) sys_inv_total_steps [OF assms(1), of t] sys_inv_partial_steps [OF assms(1), of t]
  unfolding step_pc_def by (cases "pcs s t") (simp_all, blast?)

lemma sys_inv_step: "sys_step s s' \<Longrightarrow> sys_inv s \<Longrightarrow> sys_inv s'"
  by (auto elim!: sys_step.cases intro: sys_inv_step_pc simp: thread_step_def split: if_splits)

interpretation machine: invariant sys_step sys_inv
  by unfold_locales (rule sys_inv_step)

lemma proto_initial: "proto_inv (\<lambda>t. Away) (\<lambda>t. None) [] False l n"
  by (simp add: proto_defs)

lemma sys_inv_initial:
  assumes "\<And>t. client_ok (clients t)"
  shows "sys_inv (initial fs opts msize esize ms clients)"
  using assms
  by (simp add: sys_inv_def initial_def guards_inv_def holders_def guards_def stages_def [abs_def]
      proto_def proto_initial new_with_options_def mutex_exclusive_mut_def)

text \<open>The states that clients keeping the contract can reach from a new queue.\<close>

definition reachable ::
  "'fs \<Rightarrow> PanicOptions \<Rightarrow> nat \<Rightarrow> nat \<Rightarrow> (addr \<Rightarrow> 'm) \<Rightarrow> (tid \<Rightarrow> ('v, 'fs, 'm, 'u, 'r) client) \<Rightarrow>
     ('v, 'fs, 'm, 'u, 'r) sys \<Rightarrow> bool" where
  "reachable fs opts msize esize ms clients s \<longleftrightarrow>
     (\<forall>t. client_ok (clients t)) \<and> reach sys_step (initial fs opts msize esize ms clients) s"

lemma reachable_inv: "reachable fs opts msize esize ms clients s \<Longrightarrow> sys_inv s"
  unfolding reachable_def by (metis machine.reach_inv sys_inv_initial)

end
