(* ===== verification/Scenarios.thy ===== *)
theory Scenarios
  imports Preservation_Front
begin

text \<open>
  A contended run, step by step: thread 0 takes the fast path and unlocks the mutex inside its
  callback, thread 1 queues its task and blocks, thread 0 pops that task's value and returns,
  thread 1 learns that its task was processed elsewhere. The states along the run instantiate
  the properties of the reachable states.
\<close>

type_synonym ex_client = "(nat, nat, nat, nat, nat) client"
type_synonym ex_sys = "(nat, nat, nat, nat, nat) sys"

definition merge_task :: "(nat, nat, nat, nat, nat) ProcessTask" where
  "merge_task v = CbUnlocked (CloReturn 0) (\<lambda>_. CbPeek (\<lambda>first. CbPop (\<lambda>out.
     case out of
       Returned (Some w) \<Rightarrow> CbReturn (v + w)
     | _ \<Rightarrow> CbReturn v)))"

definition ex_clients :: "tid \<Rightarrow> ex_client" where
  "ex_clients t = (if t < 2 then CallLockAndProcess 8 (10 + t) merge_task (\<lambda>_. Exit) else Exit)"

definition ex_start :: ex_sys where
  "ex_start = initial 0 default_options 8 8 (\<lambda>_. 0) ex_clients"

definition by_threads :: "tid list \<Rightarrow> (tid \<times> choice) list" where
  "by_threads ts = map (\<lambda>t. (t, Normal)) ts"

lemma ex_clients_ok: "client_ok (ex_clients t)"
  by (simp add: ex_clients_def)

lemma run_append: "run (xs @ ys) s = (case run xs s of None \<Rightarrow> None | Some s' \<Rightarrow> run ys s')"
  by (induction xs s rule: run.induct) (auto split: option.splits)

lemma ex_reachable:
  "run sched ex_start = Some s \<Longrightarrow> reachable 0 default_options 8 8 (\<lambda>_. 0) ex_clients s"
  by (auto simp: reachable_def ex_clients_ok ex_start_def dest: run_reach)

lemmas run_simps =
  by_threads_def thread_step_def step_pc_def step_defs with_lock_def Let_def initial_def
  assert_mutex_good_eq new_with_options_def try_acquire_front_fast_def lock_outcome_def
  handle_new_def relock_new_def relock_drop_def push_task_def max_len_def unwrap_poison_def
  mutex_exclusive_mut_def put_mutex_exclusive_def default_options_def vd_push_back_def
  wait_enter_def into_inner_def


section \<open>The states along the run\<close>

text \<open>Mutex 8 with its holder, the queue's state, the stack frames, and the two threads.\<close>

definition ex_state ::
  "hold \<Rightarrow> nat MutexExclusive \<Rightarrow> (tid \<Rightarrow> TaskState option) \<Rightarrow>
     (nat, nat, nat, nat, nat) pc \<Rightarrow> (nat, nat, nat, nat, nat) pc \<Rightarrow> ex_sys" where
  "ex_state x m fs p0 p1 =
     \<lparr>status = Running,
      mutexes = (\<lambda>a. \<lparr>holder = if a = 8 then x else Free, poisoned = False, data = 0\<rparr>),
      cq = \<lparr>mutex_address = 8, options = default_options,
            front_exclusive = cell_new \<lparr>front_state = 0\<rparr>, mutex_exclusive = cell_new m\<rparr>,
      frames = fs,
      pcs = (\<lambda>t. if t = 0 then p0 else if t = 1 then p1 else PClient Exit),
      mutex_size = 8, elem_size = 8\<rparr>"

definition ex_frame :: "nat \<Rightarrow> (nat, nat, nat, nat, nat) frame" where
  "ex_frame v = Frame 8 v merge_task (ByLockAndProcess (\<lambda>_. Exit))"

definition ex_guard :: guard where "ex_guard = Guard 8 False"

definition ex_handle :: "usize \<Rightarrow> QueueHandle" where
  "ex_handle i = (handle_new 8 ex_guard)\<lparr>next_idx := i\<rparr>"

definition ex_mx :: "nat ErasedTask list \<Rightarrow> nat MutexExclusive" where
  "ex_mx q = \<lparr>front_locked = True, queue_poisoned = False, queue = q\<rparr>"

definition ex_task :: "nat option \<Rightarrow> nat ErasedTask" where
  "ex_task v = erased_new \<lparr>task_state = 1, task_value = v\<rparr>"

definition ex_waiting :: "tid \<Rightarrow> TaskState option" where
  "ex_waiting = [1 \<mapsto> wait_enter 1 TaskState_new]"

definition ex_popping :: "(nat, nat, nat, nat, nat) callback" where
  "ex_popping = CbPop (\<lambda>out. case out of Returned (Some w) \<Rightarrow> CbReturn (10 + w) | _ \<Rightarrow> CbReturn 10)"

definition ex_peeking :: "(nat, nat, nat, nat, nat) callback" where
  "ex_peeking = CbPeek (\<lambda>first. ex_popping)"

definition ex_blocked :: ex_sys where
  "ex_blocked = ex_state Free (ex_mx [ex_task (Some 11)]) ex_waiting
     (PUnlocked (ex_frame 10) (snd (relock_new (ex_handle 0))) (CloReturn 0) (\<lambda>_. ex_peeking))
     (PBlocked (ex_frame 11) ex_guard)"

definition ex_peek :: ex_sys where
  "ex_peek = ex_state (Held 0) (ex_mx [ex_task (Some 11)]) ex_waiting
     (PCallback (ex_frame 10) (ex_handle 0) ex_peeking) (PBlocked (ex_frame 11) ex_guard)"

definition ex_pop :: ex_sys where
  "ex_pop = ex_state (Held 0) (ex_mx [ex_task (Some 11)]) ex_waiting
     (PCallback (ex_frame 10) (ex_handle 0) ex_popping) (PBlocked (ex_frame 11) ex_guard)"

definition ex_popped :: ex_sys where
  "ex_popped = ex_state (Held 0) (ex_mx [ex_task None]) ex_waiting
     (PCallback (ex_frame 10) (ex_handle 1) (CbReturn 21)) (PBlocked (ex_frame 11) ex_guard)"

definition ex_leaving :: ex_sys where
  "ex_leaving = ex_state (Held 0) (ex_mx [ex_task None]) ex_waiting
     (PHandoff (ex_frame 10) ex_guard (Processed 21)) (PBlocked (ex_frame 11) ex_guard)"

definition ex_woken :: ex_sys where
  "ex_woken = ex_state (Held 0) (ex_mx [ex_task None])
     [1 \<mapsto> wake_front_task (wait_enter 1 TaskState_new)]
     (PReturn (ex_frame 10) ex_guard (Processed 21)) (PBlocked (ex_frame 11) ex_guard)"

definition ex_checked :: ex_sys where
  "ex_checked = ex_state (Held 1) (ex_mx [ex_task None])
     [1 \<mapsto> wake_front_task (wait_enter 1 TaskState_new)]
     (PClient Exit) (PPopSelf (ex_frame 11) ex_guard False)"

definition ex_finished :: ex_sys where
  "ex_finished = ex_state Free \<lparr>front_locked = False, queue_poisoned = False, queue = []\<rparr>
     Map.empty (PClient Exit) (PClient Exit)"

lemmas ex_data_defs =
  ex_state_def ex_frame_def ex_guard_def ex_handle_def ex_mx_def ex_task_def ex_waiting_def
  ex_popping_def ex_peeking_def

lemmas run_state_simps =
  run_simps lock_def drop_guard_def cell_new_def cell_put_def fun_eq_iff

lemma ex_run_blocked:
  "run (by_threads [0, 0, 0, 0, 0, 0, 1, 1, 1, 1, 1, 1]) ex_start = Some ex_blocked"
  by (simp add: run_state_simps ex_start_def ex_clients_def merge_task_def ex_blocked_def ex_data_defs)

lemma ex_run_peek: "run (by_threads [0, 0]) ex_blocked = Some ex_peek"
  by (simp add: run_state_simps ex_blocked_def ex_peek_def ex_data_defs)

lemma ex_run_pop: "run (by_threads [0]) ex_peek = Some ex_pop"
  by (simp add: run_state_simps ex_peek_def ex_pop_def ex_data_defs handle_peek_def vd_get_def
      erased_inner_def erased_new_def)

lemma ex_run_popped: "run (by_threads [0]) ex_pop = Some ex_popped"
  by (simp add: run_state_simps ex_pop_def ex_popped_def ex_data_defs handle_pop_def vd_get_def
      erased_take_def erased_new_def)

lemma ex_run_leaving: "run (by_threads [0]) ex_popped = Some ex_leaving"
  by (simp add: run_state_simps ex_popped_def ex_leaving_def ex_data_defs)

lemma ex_run_woken: "run (by_threads [0]) ex_leaving = Some ex_woken"
  by (simp add: run_state_simps ex_leaving_def ex_woken_def ex_data_defs finish_ok_def
      transfer_front_def vd_front_def erased_inner_def erased_new_def)

lemma ex_run_checked: "run (by_threads [0, 1, 1, 1]) ex_woken = Some ex_checked"
  by (simp add: run_state_simps ex_woken_def ex_checked_def ex_data_defs ok_waker.wait_check_wake
      ok_waker.wake_condvar notify_one_def panic_bit_def TaskState_new_def)

lemma ex_run_finished: "run (by_threads [1, 1, 1, 1]) ex_checked = Some ex_finished"
  by (simp add: run_state_simps ex_checked_def ex_finished_def ex_data_defs pop_this_task_def
      vd_pop_front_def erased_into_inner_def erased_new_def finish_ok_def transfer_front_def vd_front_def)

text \<open>All of them are reachable.\<close>

lemma run_then: "run xs s = Some s' \<Longrightarrow> run ys s' = Some s'' \<Longrightarrow> run (xs @ ys) s = Some s''"
  by (simp add: run_append)

lemmas ex_to_peek = run_then [OF ex_run_blocked ex_run_peek]
lemmas ex_to_pop = run_then [OF ex_to_peek ex_run_pop]
lemmas ex_to_popped = run_then [OF ex_to_pop ex_run_popped]
lemmas ex_to_leaving = run_then [OF ex_to_popped ex_run_leaving]
lemmas ex_to_woken = run_then [OF ex_to_leaving ex_run_woken]
lemmas ex_to_checked = run_then [OF ex_to_woken ex_run_checked]
lemmas ex_to_finished = run_then [OF ex_to_checked ex_run_finished]

lemmas ex_reachable_states =
  ex_reachable [OF ex_run_blocked] ex_reachable [OF ex_to_pop] ex_reachable [OF ex_to_popped]
  ex_reachable [OF ex_to_leaving] ex_reachable [OF ex_to_woken] ex_reachable [OF ex_to_checked]
  ex_reachable [OF ex_to_finished] ex_reachable [OF ex_to_peek]

lemma ex_mutex_exclusive [simp]: "mx (ex_state x m fs p0 p1) = m"
  by (simp add: ex_state_def mutex_exclusive_mut_def)

lemma ex_state_simps [simp]:
  "pcs (ex_state x m fs p0 p1) = (\<lambda>t. if t = 0 then p0 else if t = 1 then p1 else PClient Exit)"
  "frames (ex_state x m fs p0 p1) = fs" "status (ex_state x m fs p0 p1) = Running"
  "holder (mutexes (ex_state x m fs p0 p1) a) = (if a = 8 then x else Free)"
  "mutex_address (cq (ex_state x m fs p0 p1)) = 8"
  "options (cq (ex_state x m fs p0 p1)) = default_options"
  "queue (ex_mx q) = q" "front_locked (ex_mx q)" "owner (ex_task v) = 1" "value_of (ex_task v) = v"
  "is_init (ex_task v)" "\<not> queue_poisoned (ex_mx q)"
  by (simp_all add: ex_state_def ex_mx_def ex_task_def)

lemma ex_not_lost [simp]: "x = Free \<or> x = Held t \<Longrightarrow> \<not> lost (ex_state x m fs p0 p1)"
  by (auto simp: lost_def holders_def)

section \<open>A poisoned mutex\<close>

text \<open>
  One thread: it panics while it holds the mutex, which poisons the mutex, and then calls
  \<open>process\<close> with a guard it locked ignoring the poison.
\<close>

definition poison_client :: ex_client where
  "poison_client = LockMutex 8 (\<lambda>_. SPanic (LockMutex 8 (\<lambda>_.
     SProcess 8 5 CbReturn (\<lambda>_. SDrop Exit) (\<lambda>_. Exit))))"

definition poison_start :: ex_sys where
  "poison_start = initial 0 default_options 8 8 (\<lambda>_. 0) (\<lambda>t. if t = 0 then poison_client else Exit)"

definition poison_frame :: "(nat, nat, nat, nat, nat) frame" where
  "poison_frame = Frame 8 5 CbReturn (ByProcess (\<lambda>_. SDrop Exit) (\<lambda>_. Exit))"

lemma poison_reachable:
  "run sched poison_start = Some s \<Longrightarrow>
     reachable 0 default_options 8 8 (\<lambda>_. 0) (\<lambda>t. if t = 0 then poison_client else Exit) s"
  by (auto simp: reachable_def poison_client_def poison_start_def dest: run_reach)

definition poison_leaving :: ex_sys where
  "poison_leaving =
     \<lparr>status = Running,
      mutexes = (\<lambda>a. \<lparr>holder = if a = 8 then Held 0 else Free, poisoned = (a = 8), data = 0\<rparr>),
      cq = \<lparr>mutex_address = 8, options = default_options,
            front_exclusive = cell_new \<lparr>front_state = 0\<rparr>, mutex_exclusive = cell_new (ex_mx [])\<rparr>,
      frames = Map.empty,
      pcs = (\<lambda>t. PClient Exit)(0 := PErrHandoff poison_frame ex_guard MutexPoisoned),
      mutex_size = 8, elem_size = 8\<rparr>"

lemma poison_run: "run (by_threads [0, 0, 0, 0, 0, 0, 0, 0]) poison_start = Some poison_leaving"
  by (simp add: run_state_simps poison_start_def poison_client_def poison_leaving_def
      poison_frame_def ex_data_defs)

end
