(* ===== verification/Safety.thy ===== *)
theory Safety
  imports Scenarios
begin

text \<open>
  Memory safety of the concurrent model: which program counters use the state behind the mutex
  and the state behind the front permission, and that the reachable states never reach
  undefined behaviour, never have two users of the same state, and keep the queue's references
  to stack frames live.
\<close>

section \<open>The program counters that use the protected state\<close>

text \<open>
  The next step reads or writes \<open>mutex_exclusive\<close> or the \<open>state\<close> of a \<open>TaskState\<close>, or a
  \<open>QueueHandle\<close> with a reference to \<open>mutex_exclusive\<close> is live.
\<close>

fun uses_mutex_exclusive :: "('v, 'fs, 'm, 'u, 'r) pc \<Rightarrow> bool" where
  "uses_mutex_exclusive (PAcquire fr g) = True"
| "uses_mutex_exclusive (PPush fr g) = True"
| "uses_mutex_exclusive (PCheckBit fr g) = True"
| "uses_mutex_exclusive (PPopSelf fr g b) = True"
| "uses_mutex_exclusive (PQueuePoison fr g w) = True"
| "uses_mutex_exclusive (PMutexPoison fr g v) = True"
| "uses_mutex_exclusive (PCallback fr h cb) = True"
| "uses_mutex_exclusive (PUnlockedHolds fr h g x k) = (\<forall>c. x \<noteq> InCritical c)"
| "uses_mutex_exclusive (PErrHandoff fr g p) = True"
| "uses_mutex_exclusive (PHandoff fr g r) = True"
| "uses_mutex_exclusive (PIsRead g k) = True"
| "uses_mutex_exclusive (PClearWrite g k') = True"
| "uses_mutex_exclusive _ = False"

text \<open>A callback or the closure of its \<open>unlocked\<close> holds the reference to \<open>front_state\<close>.\<close>

fun uses_front_state :: "('v, 'fs, 'm, 'u, 'r) pc \<Rightarrow> bool" where
  "uses_front_state (PCallback fr h cb) = True"
| "uses_front_state (PUnlocked fr h clo k) = True"
| "uses_front_state (PUnlockedHolds fr h g x k) = True"
| "uses_front_state (PUnlockRelock fr h out k) = True"
| "uses_front_state _ = False"

lemma uses_mutex_guard:
  "pc_ok p \<Longrightarrow> uses_mutex_exclusive p \<Longrightarrow> \<exists>a. guard_of p = Some a \<and> bound p = Some a"
  by (cases p) (auto simp: handle_for_def handle_ready_def split: MaybeUninit.splits)

lemma uses_front_at_front: "uses_front_state p \<Longrightarrow> at_front (stage_of p)"
  by (cases p) auto

lemma with_lock_Some:
  "with_lock ch t a s f p = Some s' \<longleftrightarrow>
     (holder (mutexes s a) = Free \<and> s' = f (upd_mutex a (lock t) s)) \<or>
     (ch = LockMayPanic \<and> (holder (mutexes s a) = Held t \<or> holder (mutexes s a) = Leaked t) \<and> s' = p s)"
  by (auto simp: with_lock_def lock_attempt_Panics split: attempt.splits)

text \<open>What a step does, and the cases it distinguishes.\<close>

lemmas machine_defs = step_pc_def step_pc_defs with_lock_Some Let_def leave_unwinding_def

lemmas machine_splits =
  client.splits session.splits option.splits if_splits closure.splits critical.splits holding.splits
  caller.splits res.splits callback.splits prod.splits MaybeUninit.splits

lemma step_keeps_mutex_exclusive:
  assumes "step_pc ch t p s = Some s'" "\<not> uses_mutex_exclusive p"
  shows "mx s' = mx s"
  using assms
  by (cases p)
    (auto simp: machine_defs assert_mutex_good_eq
      split: machine_splits)

lemma step_keeps_front_state:
  assumes "step_pc ch t p s = Some s'" "\<not> uses_front_state p"
  shows "front_exclusive_mut (cq s') = front_exclusive_mut (cq s)"
  using assms
  by (cases p)
    (auto simp: machine_defs assert_mutex_good_eq
      try_acquire_front_fast_def
      split: machine_splits)


section \<open>Owners of the front permission\<close>

text \<open>
  A thread owns the permission from the moment it is handed to it (its front bit is set while
  it waits) or it takes it on the fast path, until it hands it on.
\<close>

definition owns_front :: "('v, 'fs, 'm, 'u, 'r) sys \<Rightarrow> tid \<Rightarrow> bool" where
  "owns_front s t \<longleftrightarrow>
     at_front (stages s t) \<or> (in_queue (stages s t) \<and> bit_at (frames s) t)"

lemma owns_front_unique:
  assumes "sys_inv s" "owns_front s t" "owns_front s u" shows "t = u"
proof -
  note F = protoD(3) [OF inv_proto [OF assms(1)]]
  show ?thesis
    using assms(2,3) front_unique [OF F, of t u] front_bitD [OF F, of t] front_bitD [OF F, of u]
    unfolding owns_front_def by metis
qed

lemma owns_front_locked: "sys_inv s \<Longrightarrow> owns_front s t \<Longrightarrow> front_locked (mx s)"
  using front_lockedI [OF protoD(3) [OF inv_proto], of s t] by (auto simp: owns_front_def)

lemma owns_front_exists:
  assumes inv: "sys_inv s" and locked: "front_locked (mx s)"
  shows "lost s \<or> (\<exists>t. owns_front s t)"
proof -
  note P = inv_proto [OF inv]
  show ?thesis
    using front_ownerD [OF protoD(3) [OF P] locked] queue_hd_in [OF protoD(1) [OF P]]
    unfolding owns_front_def by blast
qed

lemma queue_nonempty_locked:
  assumes inv: "sys_inv s" and "queue (mx s) \<noteq> []" shows "front_locked (mx s)"
  using queue_hd_in [OF protoD(1) [OF inv_proto [OF inv]] assms(2)]
    front_lockedI [OF protoD(3) [OF inv_proto [OF inv]]] by blast

text \<open>The state behind the mutex is changed only by a thread that holds the mutex.\<close>

lemma mutex_exclusive_change:
  assumes inv: "sys_inv s" and step: "thread_step ch t s = Some s'" and "mx s' \<noteq> mx s"
  shows "holder (mutexes s (mutex_address (cq s))) = Held t"
proof -
  have "uses_mutex_exclusive (pcs s t)"
    using step_keeps_mutex_exclusive [of ch t "pcs s t" s s'] step assms(3)
    by (auto simp: thread_step_def split: if_splits)
  then obtain a where a: "guards s t = Some a" "bound (pcs s t) = Some a"
    using uses_mutex_guard [OF invD(4) [OF inv]] by (auto simp: guards_def)
  with invD(2,3) [OF inv] show ?thesis by (auto simp: guards_inv_def holders_def)
qed

section \<open>Properties of the reachable states\<close>

text \<open>
  C1. No undefined behaviour: whatever the threads do, as long as every guard passed to
  \<open>process\<close> belongs to the mutex passed with it, no step reads an uninitialised
  \<open>MaybeUninit\<close>, pops from an empty queue with \<open>unwrap_unchecked\<close>, reads another thread's
  task as its own, or follows a task's reference to a stack frame that is gone.
\<close>

theorem no_undefined_behaviour:
  "reachable fs opts msize esize ms clients s \<Longrightarrow> status s \<noteq> Undefined"
  by (drule reachable_inv) (rule invD(1))

theorem no_undefined_behaviour_witness: "status ex_checked \<noteq> Undefined"
  by (rule no_undefined_behaviour [OF ex_reachable_states(6)])

text \<open>
  C2. Synchronisation of \<open>mutex_exclusive\<close>: two threads are never both at a point where they
  use the state behind the mutex, and a step that changes it is made by a thread that holds
  the queue's mutex.
\<close>

theorem mutex_exclusive_synchronised:
  assumes r: "reachable fs opts msize esize ms clients s"
  shows "(uses_mutex_exclusive (pcs s t) \<and> uses_mutex_exclusive (pcs s u) \<longrightarrow> t = u) \<and>
    (thread_step ch t s = Some s' \<and> mx s' \<noteq> mx s \<longrightarrow>
       holder (mutexes s (mutex_address (cq s))) = Held t)"
proof (intro conjI impI)
  note inv = reachable_inv [OF r]
  note guarded = uses_mutex_guard [OF invD(4) [OF inv]]
  show "uses_mutex_exclusive (pcs s t) \<and> uses_mutex_exclusive (pcs s u) \<Longrightarrow> t = u"
    using guarded inv_exclusive [OF inv, of t] by blast
  show "thread_step ch t s = Some s' \<and> mx s' \<noteq> mx s \<Longrightarrow>
      holder (mutexes s (mutex_address (cq s))) = Held t"
    using mutex_exclusive_change [OF inv] by blast
qed

theorem mutex_exclusive_synchronised_witness:
  "holder (mutexes ex_pop (mutex_address (cq ex_pop))) = Held 0 \<and>
    uses_mutex_exclusive (pcs ex_pop 0) \<and> \<not> uses_mutex_exclusive (pcs ex_pop 1)"
proof -
  have "thread_step Normal 0 ex_pop = Some ex_popped"
    using ex_run_popped by (simp add: by_threads_def split: option.splits)
  moreover have "mx ex_popped \<noteq> mx ex_pop" "uses_mutex_exclusive (pcs ex_pop 0)"
    by (simp_all add: ex_popped_def ex_pop_def ex_mx_def ex_task_def erased_new_def)
  ultimately show ?thesis
    using mutex_exclusive_synchronised [OF ex_reachable_states(2), of 0 1 Normal ex_popped] by auto
qed

text \<open>
  C3. Exclusiveness of the front permission: two threads never both own it; only its owner is
  in a callback (or in the closure of \<open>unlocked\<close>, without the mutex), and only its owner
  changes \<open>front_state\<close>.
\<close>

theorem front_permission_exclusive:
  assumes r: "reachable fs opts msize esize ms clients s"
  shows "(owns_front s t \<and> owns_front s u \<longrightarrow> t = u) \<and>
    (uses_front_state (pcs s t) \<longrightarrow> owns_front s t) \<and>
    (thread_step ch t s = Some s' \<and> front_exclusive_mut (cq s') \<noteq> front_exclusive_mut (cq s) \<longrightarrow>
       owns_front s t)"
proof (intro conjI impI)
  have own: "uses_front_state (pcs s t) \<Longrightarrow> owns_front s t" for t
    using uses_front_at_front [of "pcs s t"] by (simp add: owns_front_def stages_def)
  show "owns_front s t \<and> owns_front s u \<Longrightarrow> t = u"
    using owns_front_unique [OF reachable_inv [OF r]] by blast
  show "uses_front_state (pcs s t) \<Longrightarrow> owns_front s t" by (rule own)
  show "thread_step ch t s = Some s' \<and> front_exclusive_mut (cq s') \<noteq> front_exclusive_mut (cq s)
      \<Longrightarrow> owns_front s t"
    using step_keeps_front_state [of ch t "pcs s t" s s'] own
    by (auto simp: thread_step_def split: if_splits)
qed

theorem front_permission_exclusive_witness: "owns_front ex_blocked 0 \<and> \<not> owns_front ex_blocked 1"
  using front_permission_exclusive [OF ex_reachable_states(1), of 0 1]
  by (auto simp: ex_blocked_def)

text \<open>
  C19. The flag \<open>front_locked\<close> is the presence of an owner: in a state in which no guard has
  been leaked, it is set exactly when some thread owns the front permission; without an owner
  the queue is empty.
\<close>

theorem front_locked_iff_owner:
  assumes r: "reachable fs opts msize esize ms clients s" and "\<not> lost s"
  shows "(front_locked (mx s) \<longleftrightarrow> (\<exists>t. owns_front s t)) \<and>
    (\<not> front_locked (mx s) \<longrightarrow> queue (mx s) = [])"
  using owns_front_exists [OF reachable_inv [OF r]] owns_front_locked [OF reachable_inv [OF r]]
    queue_nonempty_locked [OF reachable_inv [OF r]] assms(2) by blast

theorem front_locked_iff_owner_witness: "\<exists>t. owns_front ex_woken t"
  using front_locked_iff_owner [OF ex_reachable_states(5)] ex_not_lost [of "Held 0" 0]
  by (simp add: ex_woken_def)

text \<open>
  C20. The queue and the stack frames: the tasks in the queue are initialised and belong to
  different threads, each of which is inside \<open>try_wait_until_at_front\<close> with its \<open>TaskState\<close>
  alive; conversely a thread that waits has its task in the queue. The queue never grows past
  what one allocation can hold.
\<close>

theorem queued_tasks_live:
  assumes r: "reachable fs opts msize esize ms clients s"
  shows "(\<forall>et \<in> set (queue (mx s)). is_init et \<and> frames s (owner et) \<noteq> None) \<and>
    distinct (map owner (queue (mx s))) \<and>
    (\<forall>t. t \<in> owner ` set (queue (mx s)) \<longleftrightarrow> in_queue (stages s t)) \<and>
    length (queue (mx s)) \<le> max_len (elem_size s)"
proof -
  note P = inv_proto [OF reachable_inv [OF r]]
  have "frames s t \<noteq> None" if "in_queue (stages s t)" for t
    using frames_waitD [OF protoD(2) [OF P], of t] that by (cases "stages s t") auto
  with protoD(1) [OF P] show ?thesis unfolding queue_inv_def by blast
qed

theorem queued_tasks_live_witness:
  "frames ex_popped (owner (ex_task None)) \<noteq> None \<and> in_queue (stages ex_popped 1)"
  using queued_tasks_live [OF ex_reachable_states(3)] by (auto simp: ex_popped_def)

text \<open>
  C21. Popped values form a prefix: the tasks whose values were taken are the first ones of the
  queue, and while a callback runs there are exactly \<open>next_idx\<close> of them.
\<close>

theorem popped_tasks_prefix:
  assumes r: "reachable fs opts msize esize ms clients s"
  shows "\<exists>k. popped_prefix k (queue (mx s)) \<and>
    (\<forall>t fr h cb. pcs s t = PCallback fr h cb \<longrightarrow> k = unat (next_idx h))"
proof -
  obtain k where "popped_prefix k (queue (mx s))" "\<And>t. prefix_ok (stages s t) k"
    using protoD(4) [OF inv_proto [OF reachable_inv [OF r]]] by (auto simp: values_inv_def)
  moreover have "k = unat (next_idx h)" if "pcs s t = PCallback fr h cb" for t fr h cb
    using calculation(2) [of t] that by (simp add: stage_at)
  ultimately show ?thesis by blast
qed

theorem popped_tasks_prefix_witness: "popped_prefix 1 [ex_task None]"
  using popped_tasks_prefix [OF ex_reachable_states(3)]
  by (auto simp: ex_popped_def ex_handle_def dest!: spec [of _ 0])

text \<open>
  C22. The guard a callback's \<open>QueueHandle\<close> holds, and the guard that \<open>process\<close> returns, are
  guards of the mutex passed to \<open>process\<close>, and the thread holds that mutex; inside the
  closure of \<open>unlocked\<close> it does not, unless the closure locks it itself.
\<close>

theorem guards_of_same_mutex:
  assumes r: "reachable fs opts msize esize ms clients s"
  shows "(\<forall>fr g x. pcs s t = PReturn fr g x \<longrightarrow>
      guard_mutex g = fr_mutex fr \<and> holder (mutexes s (fr_mutex fr)) = Held t) \<and>
    (\<forall>fr h cb. pcs s t = PCallback fr h cb \<longrightarrow>
      (\<exists>g. qh_guard h = Init g \<and> guard_mutex g = fr_mutex fr) \<and>
      holder (mutexes s (fr_mutex fr)) = Held t) \<and>
    (\<forall>fr h clo k. pcs s t = PUnlocked fr h clo k \<longrightarrow> holder (mutexes s (fr_mutex fr)) \<noteq> Held t)"
proof -
  note inv = reachable_inv [OF r]
  have held: "holder (mutexes s a) = Held t \<longleftrightarrow> guard_of (pcs s t) = Some a" for a
    using invD(2) [OF inv] by (simp add: guards_inv_def guards_def holders_def)
  show ?thesis
  proof (intro conjI allI impI)
    fix fr g x assume pc: "pcs s t = PReturn fr g x"
    with invD(4) [OF inv, of t] show "guard_mutex g = fr_mutex fr" by simp
    with pc show "holder (mutexes s (fr_mutex fr)) = Held t" by (simp add: held)
  next
    fix fr h cb assume pc: "pcs s t = PCallback fr h cb"
    then show "\<exists>g. qh_guard h = Init g \<and> guard_mutex g = fr_mutex fr"
      using callback_facts [OF inv pc] by metis
    with pc show "holder (mutexes s (fr_mutex fr)) = Held t" by (auto simp: held)
  qed (simp add: held)
qed

theorem guards_of_same_mutex_witness:
  "holder (mutexes ex_woken 8) = Held 0 \<and> holder (mutexes ex_blocked 8) \<noteq> Held 0"
  using guards_of_same_mutex [OF ex_reachable_states(5), of 0]
    guards_of_same_mutex [OF ex_reachable_states(1), of 0]
  by (simp add: ex_woken_def ex_blocked_def ex_frame_def)

text \<open>
  C23. Well-formed threads: whatever a thread is doing, its handle, its guards and the arguments
  of its call are those of one mutex with an address (\<open>pc_ok\<close>), which is the mutex of the
  queue once the check has been passed (a critical section of a closure of \<open>unlocked\<close> may have
  another), and the mutexes held by a thread are exactly those whose guard it has.
\<close>

theorem threads_well_formed:
  assumes r: "reachable fs opts msize esize ms clients s"
  shows "pc_ok (pcs s t) \<and>
    (\<forall>a. bound (pcs s t) = Some a \<longrightarrow> a = mutex_address (cq s) \<and> a \<noteq> 0) \<and>
    (\<forall>a. guard_of (pcs s t) = Some a \<longleftrightarrow> holder (mutexes s a) = Held t)"
proof (intro conjI allI impI)
  note inv = reachable_inv [OF r]
  show "pc_ok (pcs s t)" by (rule invD(4) [OF inv])
  fix a
  show "guard_of (pcs s t) = Some a \<longleftrightarrow> holder (mutexes s a) = Held t"
    using invD(2) [OF inv] by (simp add: guards_inv_def guards_def holders_def)
  assume b: "bound (pcs s t) = Some a"
  show "a = mutex_address (cq s)" by (rule invD(3) [OF inv b])
  show "a \<noteq> 0" by (rule bound_nonzero [OF invD(4) [OF inv] b])
qed

theorem threads_well_formed_witness:
  "pc_ok (pcs ex_pop 0) \<and> holder (mutexes ex_pop 8) = Held 0 \<and> mutex_address (cq ex_pop) = 8"
  using threads_well_formed [OF ex_reachable_states(2), of 0]
  by (simp add: ex_pop_def ex_frame_def)

end
