(* ===== verification/Progress.thy ===== *)
theory Progress
  imports Safety
begin

text \<open>
  Progress: wake-ups are not lost, and the queue never brings all threads to a halt as long as
  no guard has been leaked.
\<close>

section \<open>Threads that can move\<close>

definition can_step :: "('v, 'fs, 'm, 'u, 'r) sys \<Rightarrow> tid \<Rightarrow> bool" where
  "can_step s t \<longleftrightarrow> thread_step Normal t s \<noteq> None"

lemma with_lock_Free: "holder (mutexes s a) = Free \<Longrightarrow> with_lock ch t a s f p \<noteq> None"
  by (simp add: with_lock_def)

text \<open>A thread that holds a guard is never blocked: it waits for no second mutex.\<close>

lemma guard_can_step:
  assumes "status s = Running" "guard_of (pcs s t) = Some a" shows "can_step s t"
  using assms by (cases "pcs s t") (simp_all add: can_step_def thread_step_def step_pc_def)

text \<open>When all mutexes are free, only finished threads and threads on a condition variable wait.\<close>

lemma free_can_step:
  assumes "status s = Running" "\<And>a. holder (mutexes s a) = Free"
    and "pcs s t \<noteq> PClient Exit" "\<And>fr g. pcs s t \<noteq> PBlocked fr g"
  shows "can_step s t"
  using assms with_lock_Free [of s] with_lock_Free [of "s\<lparr>cq := q\<rparr>" for q]
  by (cases "pcs s t")
    (auto simp: can_step_def thread_step_def step_pc_def step_client_def step_lock_def
      step_relock_def step_unlock_relock_def step_err_lock_def step_is_lock_def step_clear_lock_def
      step_unlocked_def closure_lock_def Let_def
      split: client.splits prod.splits closure.splits res.splits)

lemma blocked_can_step:
  assumes inv: "sys_inv s" and run: "status s = Running" and pc: "pcs s t = PBlocked fr g"
  shows "can_step s t \<longleftrightarrow> bit_at (frames s) t"
proof -
  from frame_at [OF inv, of t Blocks] obtain ts
    where ts: "frames s t = Some ts" "wait_ok t Blocks ts" by (auto simp: stage_at pc)
  then show ?thesis
    by (simp add: can_step_def thread_step_def run pc step_pc_def step_blocked_def)
qed

lemma all_free:
  assumes inv: "sys_inv s" and "status s = Running" "\<not> lost s" "\<And>t. \<not> can_step s t"
  shows "holder (mutexes s a) = Free"
proof (cases "holders s a")
  case (Held t)
  then have "guard_of (pcs s t) = Some a"
    using invD(2) [OF inv] by (simp add: guards_inv_def guards_def)
  then show ?thesis using guard_can_step [OF assms(2)] assms(4) by blast
qed (use assms(3) in \<open>auto simp: lost_def holders_def\<close>)

lemma owner_can_step:
  assumes inv: "sys_inv s" and run: "status s = Running"
    and free: "\<And>a. holder (mutexes s a) = Free" and own: "owns_front s t"
  shows "can_step s t"
proof (cases "\<exists>fr g. pcs s t = PBlocked fr g")
  case True
  then show ?thesis
    using own blocked_can_step [OF inv run] by (auto simp: owns_front_def stage_at)
next
  case False
  moreover have "pcs s t \<noteq> PClient Exit" using own by (auto simp: owns_front_def stage_at)
  ultimately show ?thesis using free_can_step [OF run free] by blast
qed

text \<open>
  C10. No lost wake-ups: a thread inside \<open>Condvar::wait\<close> is registered as a waiter exactly as
  long as its front bit is off, so the notification that comes with the bit releases it; once
  the bit is on, its task is the head of the queue and no other thread owns the permission.
\<close>

theorem no_lost_wakeup:
  assumes r: "reachable fs opts msize esize ms clients s" and pc: "pcs s t = PBlocked fr g"
  shows "\<exists>ts. frames s t = Some ts \<and> (t \<in> set (condvar ts) \<longleftrightarrow> \<not> front_bit ts) \<and>
    (front_bit ts \<longrightarrow> queue (mx s) \<noteq> [] \<and> owner (hd (queue (mx s))) = t \<and>
       (\<forall>u. owns_front s u \<longrightarrow> u = t))"
proof -
  note inv = reachable_inv [OF r]
  from frame_at [OF inv, of t Blocks] obtain ts
    where ts: "frames s t = Some ts" "wait_ok t Blocks ts" by (auto simp: stage_at pc)
  have "front_bit ts \<Longrightarrow> owns_front s t"
    using ts by (simp add: owns_front_def stage_at pc)
  moreover have "front_bit ts \<Longrightarrow> queue (mx s) \<noteq> [] \<and> owner (hd (queue (mx s))) = t"
    using front_bitD [OF protoD(3) [OF inv_proto [OF inv]], of t] ts by (simp add: stage_at pc)
  ultimately show ?thesis
    using ts owns_front_unique [OF inv] by (intro exI [of _ ts]) auto
qed

theorem no_lost_wakeup_witness:
  "front_bit (wake_front_task (wait_enter 1 TaskState_new)) \<and> owner (hd (queue (mx ex_woken))) = 1"
  using no_lost_wakeup [OF ex_reachable_states(5), of 1 "ex_frame 11" ex_guard]
  by (simp add: ex_woken_def ok_waker.wake_front)

text \<open>Without a leaked guard some thread can move, unless all have finished.\<close>

lemma progress:
  assumes inv: "sys_inv s" and run: "status s = Running" and "\<not> lost s" and t: "pcs s t \<noteq> PClient Exit"
  shows "\<exists>u s'. thread_step Normal u s = Some s'"
proof (rule ccontr)
  assume "\<nexists>u s'. thread_step Normal u s = Some s'"
  then have stuck: "\<not> can_step s u" for u by (simp add: can_step_def)
  note free = all_free [OF inv run assms(3) stuck]
  obtain fr g where pc: "pcs s t = PBlocked fr g"
    using free_can_step [OF run free t] stuck by blast
  then have "in_queue (stages s t)" by (simp add: stage_at)
  then have "front_locked (mx s)"
    using front_lockedI [OF protoD(3) [OF inv_proto [OF inv]], of t] by blast
  then obtain u where "owns_front s u"
    using owns_front_exists [OF inv] assms(3) by blast
  with owner_can_step [OF inv run free] stuck show False by blast
qed

text \<open>
  C9. Deadlock freedom: in a reachable state that has not aborted and in which no guard has
  been leaked, if some thread has not finished its program then some thread can take a step,
  without a spurious wake-up and without a failing allocation.
\<close>

theorem no_deadlock:
  assumes r: "reachable fs opts msize esize ms clients s"
    and run: "status s = Running" and "\<not> lost s" and t: "pcs s t \<noteq> PClient Exit"
  shows "\<exists>u s'. thread_step Normal u s = Some s'"
  by (rule progress [OF reachable_inv [OF r] assms(2-4)])

theorem no_deadlock_witness: "\<exists>u s'. thread_step Normal u ex_blocked = Some s'"
  using no_deadlock [OF ex_reachable_states(1), of 1] ex_not_lost [of Free 0]
  by (simp add: ex_blocked_def)

end
