(* ===== verification/Monitor.thy ===== *)
theory Monitor
  imports Progress
begin

text \<open>
  What the queue promises, as an abstract system: a turn that is passed along a FIFO list of
  submitted values, where the owner of the turn may take values over from the front of the
  list. The concurrent model refines it.
\<close>

section \<open>The abstract monitor\<close>

datatype turn = Nobody | Owner tid | Abandoned

text \<open>
  Whose turn it is, the threads whose values were taken over and who have to be told, and the
  values still to be processed, both oldest first.
\<close>

record 'v monitor =
  turn :: turn
  merged :: "tid list"
  waiting_values :: "(tid \<times> 'v) list"

inductive monitor_step :: "'v monitor \<Rightarrow> 'v monitor \<Rightarrow> bool" where
  enter: "turn M = Nobody \<Longrightarrow> monitor_step M (M\<lparr>turn := Owner t\<rparr>)"
| enqueue: "turn M \<noteq> Nobody \<Longrightarrow> t \<notin> set (merged M) \<union> fst ` set (waiting_values M) \<Longrightarrow>
    monitor_step M (M\<lparr>waiting_values := waiting_values M @ [(t, v)]\<rparr>)"
| merge: "turn M = Owner t \<Longrightarrow> waiting_values M = (u, v) # w \<Longrightarrow>
    monitor_step M (M\<lparr>merged := merged M @ [u], waiting_values := w\<rparr>)"
| tell: "turn M = Owner t \<Longrightarrow> merged M = u # us \<Longrightarrow>
    monitor_step M (M\<lparr>turn := Owner u, merged := us\<rparr>)"
| pass: "turn M = Owner t \<Longrightarrow> merged M = [] \<Longrightarrow> waiting_values M = (u, v) # w \<Longrightarrow>
    monitor_step M (M\<lparr>turn := Owner u, waiting_values := w\<rparr>)"
| release: "turn M = Owner t \<Longrightarrow> merged M = [] \<Longrightarrow> waiting_values M = [] \<Longrightarrow>
    monitor_step M (M\<lparr>turn := Nobody\<rparr>)"
| abandon: "turn M = Owner t \<Longrightarrow> monitor_step M (M\<lparr>turn := Abandoned\<rparr>)"

text \<open>The turn is handed on: to those who have to be told, then to the next value, then to nobody.\<close>

definition hand_on :: "'v monitor \<Rightarrow> 'v monitor" where
  "hand_on M =
     (case merged M of
        u # us \<Rightarrow> M\<lparr>turn := Owner u, merged := us\<rparr>
      | [] \<Rightarrow>
          (case waiting_values M of
             (u, v) # w \<Rightarrow> M\<lparr>turn := Owner u, waiting_values := w\<rparr>
           | [] \<Rightarrow> M\<lparr>turn := Nobody\<rparr>))"

text \<open>What the step of a thread does to the monitor, read off its program counter.\<close>

fun monitor_effect :: "tid \<Rightarrow> ('v, 'fs, 'm, 'u, 'r) pc \<Rightarrow> 'v monitor \<Rightarrow> 'v monitor" where
  "monitor_effect t (PAcquire fr g) M = (if turn M = Nobody then M\<lparr>turn := Owner t\<rparr> else M)"
| "monitor_effect t (PPush fr g) M = M\<lparr>waiting_values := waiting_values M @ [(t, fr_value fr)]\<rparr>"
| "monitor_effect t (PCallback fr h (CbPop k)) M =
     (case waiting_values M of
        (u, v) # w \<Rightarrow> M\<lparr>merged := merged M @ [u], waiting_values := w\<rparr>
      | [] \<Rightarrow> M)"
| "monitor_effect t (PErrHandoff fr g p) M = hand_on M"
| "monitor_effect t (PHandoff fr g r) M = hand_on M"
| "monitor_effect t p M = M"

definition monitor_start :: "'v monitor" where
  "monitor_start = \<lparr>turn = Nobody, merged = [], waiting_values = []\<rparr>"

text \<open>An idle monitor has nothing queued, and nobody is queued twice.\<close>

definition monitor_inv :: "'v monitor \<Rightarrow> bool" where
  "monitor_inv M \<longleftrightarrow>
     (turn M = Nobody \<longrightarrow> merged M = [] \<and> waiting_values M = []) \<and>
     distinct (merged M @ map fst (waiting_values M))"

interpretation monitor: invariant monitor_step monitor_inv
  by unfold_locales (erule monitor_step.cases; force simp: monitor_inv_def)

section \<open>The abstraction\<close>

text \<open>A woken task has the turn, although its thread has not yet taken it out of the queue.\<close>

definition woken_head :: "('v, 'fs, 'm, 'u, 'r) sys \<Rightarrow> bool" where
  "woken_head s \<longleftrightarrow> queue (mx s) \<noteq> [] \<and> bit_at (frames s) (owner (hd (queue (mx s))))"

definition queued :: "('v, 'fs, 'm, 'u, 'r) sys \<Rightarrow> 'v ErasedTask list" where
  "queued s = (if woken_head s then tl (queue (mx s)) else queue (mx s))"

definition popped_owners :: "'v ErasedTask list \<Rightarrow> tid list" where
  "popped_owners q = map owner (filter (\<lambda>et. value_of et = None) q)"

definition abs_turn :: "('v, 'fs, 'm, 'u, 'r) sys \<Rightarrow> turn" where
  "abs_turn s =
     (if \<exists>t. owns_front s t then Owner (THE t. owns_front s t)
      else if front_locked (mx s) then Abandoned else Nobody)"

definition abs_monitor :: "('v, 'fs, 'm, 'u, 'r) sys \<Rightarrow> 'v monitor" where
  "abs_monitor s =
     \<lparr>turn = abs_turn s, merged = popped_owners (queued s), waiting_values = pending (queued s)\<rparr>"

lemma abs_turn_Owner: "sys_inv s \<Longrightarrow> owns_front s t \<Longrightarrow> abs_turn s = Owner t"
  unfolding abs_turn_def using owns_front_unique [of s] by (metis the_equality)

lemma abs_turn_none: "(\<And>t. \<not> owns_front s t) \<Longrightarrow> abs_turn s = (if front_locked (mx s) then Abandoned else Nobody)"
  by (simp add: abs_turn_def)

lemma abs_turn_Nobody:
  assumes "sys_inv s" shows "front_locked (mx s) \<Longrightarrow> abs_turn s \<noteq> Nobody"
  by (simp add: abs_turn_def)

lemma popped_owners_simps [simp]:
  "popped_owners [] = []"
  "popped_owners (et # q) = (if value_of et = None then owner et # popped_owners q else popped_owners q)"
  "popped_owners (q @ q') = popped_owners q @ popped_owners q'"
  by (simp_all add: popped_owners_def)

lemma popped_owners_prefix:
  assumes "popped_prefix k q" shows "popped_owners q = map owner (take k q)"
  using assms
proof (induction q arbitrary: k)
  case (Cons et q)
  note tl = Cons.IH [OF popped_prefix_tl [OF Cons.prems]]
  show ?case
    using popped_prefix_hd [OF Cons.prems] tl by (cases k) auto
qed simp

lemma popped_prefix_0: "popped_prefix k (et # q) \<Longrightarrow> value_of et \<noteq> None \<Longrightarrow> popped_owners (et # q) = []"
  using popped_owners_prefix [of k "et # q"] popped_prefix_hd [of k et q] by simp

lemma queued_owners: "set (popped_owners q) \<union> fst ` set (pending q) = owner ` set q"
  by (induction q) (auto split: option.splits)

text \<open>Steps that leave owners, queue and flag alone are invisible.\<close>

lemma abs_monitor_cong:
  assumes "queue (mx s') = queue (mx s)" "front_locked (mx s') = front_locked (mx s)"
    and "\<And>t. owns_front s' t = owns_front s t" "woken_head s' = woken_head s"
  shows "abs_monitor s' = abs_monitor s"
proof -
  have "owns_front s' = owns_front s" using assms(3) by blast
  with assms show ?thesis by (simp add: abs_monitor_def abs_turn_def queued_def)
qed

lemma abs_monitor_silent:
  assumes inv: "sys_inv s" and pcs: "pcs s' = (pcs s)(t := p)"
    and kind: "at_front (stage_of p) = at_front (stage_of (pcs s t))"
      "in_queue (stage_of p) = in_queue (stage_of (pcs s t))"
    and same: "queue (mx s') = queue (mx s)" "front_locked (mx s') = front_locked (mx s)"
    and bits: "\<And>u. in_queue (stages s u) \<Longrightarrow> bit_at (frames s') u = bit_at (frames s) u"
  shows "abs_monitor s' = abs_monitor s"
proof (rule abs_monitor_cong [OF same])
  have "stages s' = (stages s)(t := stage_of p)" using pcs by (auto simp: stages_def)
  then show "owns_front s' u = owns_front s u" for u
    using kind bits [of u] by (auto simp: owns_front_def stages_def)
  show "woken_head s' = woken_head s"
    using bits queue_hd_in [OF protoD(1) [OF inv_proto [OF inv]]] same
    by (auto simp: woken_head_def)
qed

text \<open>Which steps are visible.\<close>

fun visible :: "('v, 'fs, 'm, 'u, 'r) pc \<Rightarrow> bool" where
  "visible (PAcquire fr g) = True"
| "visible (PPush fr g) = True"
| "visible (PPopSelf fr g b) = True"
| "visible (PCallback fr h cb) = (\<exists>k. cb = CbPop k)"
| "visible (PErrLock fr p) = True"
| "visible (PErrHandoff fr g p) = True"
| "visible (PHandoff fr g r) = True"
| "visible _ = False"

lemma bit_at_wait [simp]:
  "F t = Some ts \<Longrightarrow> bit_at (F(t \<mapsto> wait_enter t' ts)) u = bit_at F u"
  "F t = Some ts \<Longrightarrow> bit_at (F(t \<mapsto> wait_spurious t' ts)) u = bit_at F u"
  by (auto simp: bit_at_def)

lemmas invisible_defs =
  machine_defs assert_mutex_good_eq
  bind_res_Ret relock_drop_def handle_is_queue_poisoned_def handle_clear_queue_poison_def

lemma invisible_queue:
  assumes "step_pc ch t p s = Some s'" "\<not> visible p"
  shows "queue (mx s') = queue (mx s) \<and> front_locked (mx s') = front_locked (mx s)"
proof (cases "uses_mutex_exclusive p")
  case True
  with assms show ?thesis
    by (cases p) (auto simp: invisible_defs split: if_splits option.splits res.splits callback.splits
      prod.splits MaybeUninit.splits holding.splits)
next
  case False
  with step_keeps_mutex_exclusive [OF assms(1)] show ?thesis by simp
qed

lemma invisible_bits:
  assumes "step_pc ch t p s = Some s'" "\<not> visible p" "in_queue (stage_of p) \<or> u \<noteq> t"
  shows "bit_at (frames s') u = bit_at (frames s) u"
  using assms
  by (cases p) (auto simp: invisible_defs split: machine_splits)

lemma invisible_pcs:
  assumes "step_pc ch t p s = Some s'" "\<not> visible p"
  shows "pcs s' = pcs s \<or> (\<exists>p'. pcs s' = (pcs s)(t := p') \<and>
    at_front (stage_of p') = at_front (stage_of p) \<and> in_queue (stage_of p') = in_queue (stage_of p))"
  using assms
  by (cases p) (auto simp: invisible_defs split: machine_splits TaskWaitResult.splits)

lemma invisible_step:
  assumes "step_pc ch t p s = Some s'" "\<not> visible p"
  shows "queue (mx s') = queue (mx s) \<and> front_locked (mx s') = front_locked (mx s) \<and>
    (\<forall>u. in_queue (stage_of p) \<or> u \<noteq> t \<longrightarrow> bit_at (frames s') u = bit_at (frames s) u) \<and>
    (pcs s' = pcs s \<or> (\<exists>p'. pcs s' = (pcs s)(t := p') \<and>
       at_front (stage_of p') = at_front (stage_of p) \<and> in_queue (stage_of p') = in_queue (stage_of p)))"
  using invisible_queue [OF assms] invisible_bits [OF assms] invisible_pcs [OF assms] by blast

section \<open>The visible steps\<close>

text \<open>What the abstraction of a state is, by who owns the turn.\<close>

lemma abs_monitor_at_front:
  assumes inv: "sys_inv s" and t: "at_front (stages s t)"
  shows "abs_monitor s = \<lparr>turn = Owner t, merged = popped_owners (queue (mx s)),
    waiting_values = pending (queue (mx s))\<rparr>" and "\<not> woken_head s"
proof -
  note P = inv_proto [OF inv]
  have "\<not> woken_head s"
    using front_bitD [OF protoD(3) [OF P] queue_hd_in [OF protoD(1) [OF P]]] t
    by (auto simp: woken_head_def)
  moreover have "owns_front s t" using t by (simp add: owns_front_def)
  ultimately show "abs_monitor s = \<lparr>turn = Owner t, merged = popped_owners (queue (mx s)),
    waiting_values = pending (queue (mx s))\<rparr>" "\<not> woken_head s"
    using abs_turn_Owner [OF inv] by (simp_all add: abs_monitor_def queued_def)
qed

lemma abs_monitor_woken:
  assumes inv: "sys_inv s" and q: "queue (mx s) = et # q" and bit: "bit_at (frames s) (owner et)"
  shows "abs_monitor s = \<lparr>turn = Owner (owner et), merged = popped_owners q, waiting_values = pending q\<rparr>"
proof -
  have "in_queue (stages s (owner et))"
    using queue_hd_in [OF protoD(1) [OF inv_proto [OF inv]]] q by simp
  with bit have "owns_front s (owner et)" by (simp add: owns_front_def)
  with q bit abs_turn_Owner [OF inv] show ?thesis
    by (simp add: abs_monitor_def queued_def woken_head_def)
qed

lemma abs_monitor_idle:
  assumes inv: "sys_inv s" and "\<not> front_locked (mx s)"
  shows "abs_monitor s = monitor_start"
proof -
  have "queue (mx s) = []" using queue_nonempty_locked [OF inv] assms(2) by blast
  moreover have "\<not> owns_front s t" for t using owns_front_locked [OF inv] assms(2) by blast
  ultimately show ?thesis using assms(2)
    by (simp add: abs_monitor_def abs_turn_def queued_def woken_head_def monitor_start_def)
qed

text \<open>
  A step simulates its effect: the abstract state changes as the effect says, and the change is
  a step of the monitor or nothing.
\<close>

definition simulates ::
  "('v, 'fs, 'm, 'u, 'r) sys \<Rightarrow> ('v monitor \<Rightarrow> 'v monitor) \<Rightarrow> ('v, 'fs, 'm, 'u, 'r) sys \<Rightarrow> bool" where
  "simulates s f s' \<longleftrightarrow> abs_monitor s' = f (abs_monitor s) \<and>
     (abs_monitor s' = abs_monitor s \<or> monitor_step (abs_monitor s) (abs_monitor s'))"

lemma simulatesD:
  assumes "simulates s f s'"
  shows "abs_monitor s' = f (abs_monitor s)"
    "abs_monitor s' = abs_monitor s \<or> monitor_step (abs_monitor s) (abs_monitor s')"
  using assms unfolding simulates_def by blast+

lemma simulates_silent: "abs_monitor s' = abs_monitor s \<Longrightarrow> f (abs_monitor s) = abs_monitor s \<Longrightarrow> simulates s f s'"
  by (simp add: simulates_def)

lemma simulates_step:
  "abs_monitor s' = f (abs_monitor s) \<Longrightarrow> monitor_step (abs_monitor s) (f (abs_monitor s)) \<Longrightarrow> simulates s f s'"
  by (simp add: simulates_def)

lemma sim_acquire:
  assumes inv: "sys_inv s" and pc: "pcs s t = PAcquire fr g"
  shows "simulates s (monitor_effect t (PAcquire fr g)) (step_acquire t fr g s)" (is "simulates _ _ ?s'")
proof (cases "front_locked (mx s)")
  case True
  then have s': "?s' = set_pc t (PPush fr g) (s\<lparr>frames := (frames s)(t \<mapsto> TaskState_new)\<rparr>)"
    by (simp add: step_acquire_def try_acquire_front_fast_def Let_def)
  have "abs_monitor ?s' = abs_monitor s" unfolding s'
    by (rule abs_monitor_silent [OF inv, where t = t and p = "PPush fr g"]) (auto simp: pc stage_at)
  then show ?thesis
    by (rule simulates_silent) (use abs_turn_Nobody [OF inv True] in \<open>simp add: abs_monitor_def\<close>)
next
  case False
  have inv': "sys_inv ?s'" using inv pc by (rule sys_inv_step_acquire)
  have s': "?s' = set_pc t (PMutexPoison fr g (fr_value fr)) (set_mx ((mx s)\<lparr>front_locked := True\<rparr>) s)"
    using False by (simp add: step_acquire_def try_acquire_front_fast_def Let_def)
  have "queue (mx s) = []" using queue_nonempty_locked [OF inv] False by blast
  with abs_monitor_at_front(1) [OF inv', of t] s'
  have "abs_monitor ?s' = (abs_monitor s)\<lparr>turn := Owner t\<rparr>"
    by (simp add: stage_at abs_monitor_idle [OF inv False] monitor_start_def)
  then show ?thesis
    by (intro simulates_step)
      (use enter [of "abs_monitor s" t] abs_monitor_idle [OF inv False] in \<open>simp_all add: monitor_start_def\<close>)
qed

lemma sim_push:
  assumes inv: "sys_inv s" and run: "status s = Running" and pc: "pcs s t = PPush fr g"
  shows "simulates s (if status (step_push ch t fr g s) = Aborted then id else monitor_effect t (PPush fr g))
    (step_push ch t fr g s)" (is "simulates _ _ ?s'")
proof (cases "push_task (ch = AllocFails) (elem_size s) t (fr_value fr) (mx s)")
  case None
  then have "abs_monitor ?s' = abs_monitor s"
    by (intro abs_monitor_cong) (simp_all add: step_push_def owns_front_def stage_at woken_head_def)
  then show ?thesis by (rule simulates_silent) (simp add: None step_push_def)
next
  case (Some m)
  note m = push_task_queue [OF Some]
  note P = inv_proto [OF inv]
  let ?et = "erased_new \<lparr>task_state = t, task_value = Some (fr_value fr)\<rparr>"
  have frame: "frames s t = Some TaskState_new"
    using protoD(2) [OF P] pc by (simp add: frames_inv_def stage_at)
  have s': "?s' = set_pc t (PWait fr g) (set_mx m s)" by (simp add: step_push_def Some)
  have own: "owns_front ?s' u = owns_front s u" for u
    using frame by (auto simp: s' owns_front_def stage_at pc)
  have q: "queue (mx ?s') = queue (mx s) @ [?et]" "front_locked (mx ?s') = front_locked (mx s)"
    using m by (simp_all add: s')
  have woken: "woken_head ?s' = woken_head s"
    using frame by (cases "queue (mx s)") (simp_all add: woken_head_def q, simp_all add: s')
  have queued: "queued ?s' = queued s @ [?et]"
    using woken by (auto simp: queued_def q woken_head_def)
  have "t \<notin> owner ` set (queue (mx s))"
    using protoD(1) [OF P] pc by (simp add: queue_inv_def stage_at)
  then have fresh: "t \<notin> owner ` set (queued s)"
    by (cases "queue (mx s)") (auto simp: queued_def)
  have locked: "front_locked (mx s)"
    using front_lockedI [OF protoD(3) [OF P], of t] pc by (simp add: stage_at)
  have "owns_front ?s' = owns_front s" using own by blast
  then have "abs_monitor ?s' = (abs_monitor s)\<lparr>waiting_values := waiting_values (abs_monitor s) @ [(t, fr_value fr)]\<rparr>"
    by (simp add: abs_monitor_def queued abs_turn_def q)
  moreover have "status ?s' = Running" using run by (simp add: s')
  ultimately show ?thesis
    by (intro simulates_step)
      (use enqueue [of "abs_monitor s" t "fr_value fr"] fresh queued_owners [of "queued s"]
        abs_turn_Nobody [OF inv locked] in \<open>simp_all add: abs_monitor_def\<close>)
qed

lemma sim_pop_self:
  assumes inv: "sys_inv s" and pc: "pcs s t = PPopSelf fr g b"
  shows "abs_monitor (step_pop_self t fr g b s) = abs_monitor s"
proof -
  have st: "stages s t = InQueue (Pops b)" by (simp add: stage_at pc)
  from pop_self_own [OF inv pc] obtain et q
    where q: "queue (mx s) = et # q" "owner et = t" "is_init et" .
  from frame_at [OF inv st] obtain ts where "frames s t = Some ts" "front_bit ts" by auto
  with q(2) have bit: "bit_at (frames s) (owner et)" by simp
  have inv': "sys_inv (step_pop_self t fr g b s)" using inv pc by (rule sys_inv_step_pop_self)
  have "at_front (stages (step_pop_self t fr g b s) t)" "queue (mx (step_pop_self t fr g b s)) = q"
    by (simp_all add: step_pop_self_def pop_this_task_Cons [OF q(1,3,2)] Let_def stage_at)
  with abs_monitor_at_front(1) [OF inv', of t] abs_monitor_woken [OF inv q(1) bit] q(2)
  show ?thesis by simp
qed

lemma sim_pop:
  assumes inv: "sys_inv s" and pc: "pcs s t = PCallback fr h (CbPop k)"
  shows "simulates s (monitor_effect t (PCallback fr h (CbPop k))) (step_callback t fr h (CbPop k) s)"
    (is "simulates _ _ ?s'")
proof (rule callback_facts [OF inv pc])
  fix g
  assume h: "handle_ready h" "handle_ok h (mx s)"
  let ?i = "unat (next_idx h)" and ?q = "queue (mx s)"
  have inv': "sys_inv ?s'" using inv pc by (rule sys_inv_step_callback)
  have prefix: "popped_prefix ?i ?q" using h(2) by (simp add: handle_ok_def)
  show ?thesis
  proof (cases "?i < length ?q")
    case True
    let ?et = "?q ! ?i" and ?q' = "?q[?i := taken (?q ! ?i)]"
    have s': "at_front (stages ?s' t)" "queue (mx ?s') = ?q'"
      by (simp_all add: step_callback_def handle_pop_ok [OF h(2,1) True] Let_def stage_at)
    obtain v where v: "value_of ?et = Some v" using vd_get_ok(2) [OF h(2) True] by auto
    have prefix': "popped_prefix (Suc ?i) ?q'" using prefix True by (rule popped_prefix_take)
    have "drop ?i ?q = ?et # drop (Suc ?i) ?q" using True by (simp add: Cons_nth_drop_Suc)
    then have "pending ?q = (owner ?et, v) # pending ?q'"
      using pending_drop [OF prefix] pending_drop [OF prefix'] v by simp
    moreover have "popped_owners ?q' = popped_owners ?q @ [owner ?et]"
      unfolding popped_owners_prefix [OF prefix] popped_owners_prefix [OF prefix']
      using True by (simp add: take_Suc_conv_app_nth)
    moreover have "at_front (stages s t)" by (simp add: pc stage_at)
    ultimately show ?thesis
      by (intro simulates_step)
        (use merge [of "abs_monitor s" t "owner ?et" v "pending ?q'"] s' in
          \<open>simp_all add: abs_monitor_at_front(1) [OF inv] abs_monitor_at_front(1) [OF inv']\<close>)
  next
    case False
    have "at_front (stages s t)" by (simp add: pc stage_at)
    then have none: "waiting_values (abs_monitor s) = []"
      using pending_drop [OF prefix] False by (simp add: abs_monitor_at_front(1) [OF inv])
    from False have "?s' = set_pc t (PCallback fr h (k (Returned None))) (set_mx (mx s) s)"
      by (simp add: step_callback_def handle_pop_empty [OF h(2,1)] Let_def)
    then have "abs_monitor ?s' = abs_monitor s"
      by (intro abs_monitor_silent [OF inv, where t = t]) (auto simp: pc)
    then show ?thesis by (rule simulates_silent) (simp add: none)
  qed
qed

text \<open>The permission is abandoned when the lock of the \<open>Err\<close> branch panics.\<close>

fun abandons :: "('v, 'fs, 'm, 'u, 'r) pc \<Rightarrow> ('v, 'fs, 'm, 'u, 'r) pc \<Rightarrow> bool" where
  "abandons (PErrLock fr p) (PClient c) = True"
| "abandons _ _ = False"

lemma sim_err_lock:
  assumes inv: "sys_inv s" and pc: "pcs s t = PErrLock fr p" and step: "step_err_lock ch t fr p s = Some s'"
  shows "simulates s (if abandons (PErrLock fr p) (pcs s' t) then turn_update (\<lambda>_. Abandoned) else id) s'"
proof -
  have front: "at_front (stages s t)" by (simp add: stage_at pc)
  consider g where "s' = set_pc t (PErrHandoff fr g p) (upd_mutex (fr_mutex fr) (lock t) s)"
    | c where "s' = set_pc t (PClient c) s"
    using step by (auto simp: step_err_lock_def with_lock_Some Let_def leave_unwinding_def)
  then show ?thesis
  proof cases
    case 1
    then have "abs_monitor s' = abs_monitor s"
      by (intro abs_monitor_silent [OF inv, where t = t]) (auto simp: pc)
    then show ?thesis by (rule simulates_silent) (simp add: 1)
  next
    case 2
    have stages': "stages s' = (stages s)(t := Away)" by (auto simp: 2 stages_def)
    have "\<not> owns_front s' u" for u
      using owns_front_unique [OF inv, of u t] front stages'
      by (cases "u = t") (auto simp: owns_front_def 2)
    then have "abs_turn s' = Abandoned"
      using owns_front_locked [OF inv, of t] front by (simp add: abs_turn_none owns_front_def 2)
    moreover have "woken_head s' = woken_head s" by (simp add: woken_head_def 2)
    ultimately have "abs_monitor s' = (abs_monitor s)\<lparr>turn := Abandoned\<rparr>"
      by (simp add: abs_monitor_def queued_def 2)
    then show ?thesis
      by (intro simulates_step)
        (use abandon [of "abs_monitor s" t] abs_monitor_at_front(1) [OF inv front] in \<open>simp_all add: 2\<close>)
  qed
qed

text \<open>Both ends of \<open>process_unchecked\<close>, through the interface of the wake-ups.\<close>

context front_waker
begin

lemma sim_transfer:
  assumes inv: "sys_inv s" and t: "at_front (stages s t)" and inv': "sys_inv s'"
    and trans: "transfer_front wake (frames s) m = Ret (frames s', mx s')"
    and m: "queue m = queue (mx s)" "front_locked m = front_locked (mx s)"
  shows "simulates s hand_on s'"
proof (cases "queue (mx s)")
  case Nil
  with trans m(1) have "mx s' = m\<lparr>front_locked := False\<rparr>" by (simp add: transfer_front_Nil)
  then have "abs_monitor s' = monitor_start" by (intro abs_monitor_idle [OF inv']) simp
  then show ?thesis
    by (intro simulates_step)
      (use release [of "abs_monitor s" t] abs_monitor_at_front(1) [OF inv t] Nil in
        \<open>simp_all add: monitor_start_def hand_on_def\<close>)
next
  case (Cons et q)
  have P: "proto_inv (stages s) (frames s) (et # q) (front_locked (mx s)) (lost s) (max_len (elem_size s))"
    using inv_proto [OF inv] Cons by simp
  obtain ts where ts: "is_init et" "frames s (owner et) = Some ts" using proto_head_frame [OF P] by blast
  have "frames s' = (frames s)(owner et \<mapsto> wake ts)" "mx s' = m"
    using trans transfer_front_Cons [of m et q "frames s" ts wake] Cons m ts by auto
  then have s': "abs_monitor s' = \<lparr>turn = Owner (owner et), merged = popped_owners q, waiting_values = pending q\<rparr>"
    using Cons m wake_front by (intro abs_monitor_woken [OF inv']) simp_all
  obtain k where k: "popped_prefix k (et # q)" using protoD(4) [OF P] by (auto simp: values_inv_def)
  show ?thesis
  proof (cases "value_of et")
    case None
    then show ?thesis
      by (intro simulates_step)
        (use tell [of "abs_monitor s" t "owner et" "popped_owners q"] s' Cons in
          \<open>simp_all add: abs_monitor_at_front(1) [OF inv t] hand_on_def\<close>)
  next
    case (Some v)
    with popped_prefix_0 [OF k] have "popped_owners q = []" by simp
    with Some show ?thesis
      by (intro simulates_step)
        (use pass [of "abs_monitor s" t "owner et" v "pending q"] s' Cons in
          \<open>simp_all add: abs_monitor_at_front(1) [OF inv t] hand_on_def\<close>)
  qed
qed

end

lemma sim_handoff:
  assumes inv: "sys_inv s" and pc: "pcs s t = PHandoff fr g r"
  shows "simulates s hand_on (step_handoff t fr g r s)"
proof -
  have t: "at_front (stages s t)" by (simp add: stage_at pc)
  have "guard_of (pcs s t) = Some (fr_mutex fr)" "bound (pcs s t) = Some (fr_mutex fr)"
    using invD(4) [OF inv, of t] by (simp_all add: pc)
  from ok_waker.transfer_front_inv [OF inv t this, of "mx s"]
  obtain fs m where m: "transfer_front wake_front_task (frames s) (mx s) = Ret (fs, m)" by simp blast
  then have "frames (step_handoff t fr g r s) = fs" "mx (step_handoff t fr g r s) = m"
    by (simp_all add: step_handoff_def finish_ok_def)
  with m show ?thesis
    by (intro ok_waker.sim_transfer [OF inv t sys_inv_step_handoff [OF inv pc]]) simp_all
qed

lemma sim_err_handoff:
  assumes inv: "sys_inv s" and pc: "pcs s t = PErrHandoff fr g p"
  shows "simulates s hand_on (step_err_handoff t fr g p s)"
proof -
  let ?m = "(mx s)\<lparr>queue_poisoned := True\<rparr>"
  have t: "at_front (stages s t)" by (simp add: stage_at pc)
  have "guard_of (pcs s t) = Some (fr_mutex fr)" "bound (pcs s t) = Some (fr_mutex fr)"
    using invD(4) [OF inv, of t] by (simp_all add: pc)
  from panic_waker.transfer_front_inv [OF inv t this, of ?m]
  obtain fs m where m: "transfer_front wake_front_task_panicking (frames s) ?m = Ret (fs, m)" by simp blast
  then have "frames (step_err_handoff t fr g p s) = fs" "mx (step_err_handoff t fr g p s) = m"
    by (simp_all add: step_err_handoff_def finish_err_def leave_unwinding_def)
  with m show ?thesis
    by (intro panic_waker.sim_transfer [OF inv t sys_inv_step_err_handoff [OF inv pc], where m = ?m])
      simp_all
qed

text \<open>The effect of any step.\<close>

definition step_effect ::
  "tid \<Rightarrow> ('v, 'fs, 'm, 'u, 'r) sys \<Rightarrow> ('v, 'fs, 'm, 'u, 'r) sys \<Rightarrow> 'v monitor \<Rightarrow> 'v monitor" where
  "step_effect t s s' =
     (if status s' = Aborted then id
      else if abandons (pcs s t) (pcs s' t) then turn_update (\<lambda>_. Abandoned)
      else monitor_effect t (pcs s t))"

lemma effects:
  "monitor_effect t (PErrHandoff fr g p) = hand_on" "monitor_effect t (PHandoff fr g r) = hand_on"
  "monitor_effect t (PErrLock fr p) = id"
  by (simp_all add: fun_eq_iff)

lemma effect_invisible:
  assumes "\<not> visible p" shows "monitor_effect t p = id" "\<not> abandons p p'"
proof -
  note p = assms
  then have "monitor_effect t p M = M" for M by (induction t p M rule: monitor_effect.induct) simp_all
  then show "monitor_effect t p = id" by (simp add: fun_eq_iff)
  show "\<not> abandons p p'" using p by (cases p) simp_all
qed

lemma visible_aborts:
  assumes "step_pc ch t p s = Some s'" "visible p" "status s = Running" "status s' = Aborted"
  shows "\<exists>fr g. p = PPush fr g"
  using assms by (cases p) (auto simp: machine_defs split: machine_splits)

lemma sim_step_pc:
  assumes inv: "sys_inv s" and run: "status s = Running" and step: "step_pc ch t (pcs s t) s = Some s'"
  shows "simulates s (step_effect t s s') s'"
proof (cases "visible (pcs s t)")
  case True
  note runs = visible_aborts [OF step True run]
  show ?thesis
  proof (cases "pcs s t")
    case (PAcquire fr g)
    with step runs sim_acquire [OF inv PAcquire] show ?thesis by (auto simp: step_effect_def step_pc_def)
  next
    case (PPush fr g)
    with step sim_push [OF inv run PPush, of ch] show ?thesis by (auto simp: step_effect_def step_pc_def)
  next
    case (PPopSelf fr g b)
    with step runs sim_pop_self [OF inv PPopSelf] show ?thesis
      by (auto simp: step_effect_def step_pc_def intro: simulates_silent)
  next
    case (PCallback fr h cb)
    with True obtain k where cb: "cb = CbPop k" by auto
    with PCallback step runs sim_pop [OF inv, of t fr h k] show ?thesis
      by (auto simp: step_effect_def step_pc_def)
  next
    case (PErrLock fr p)
    with step runs sim_err_lock [OF inv PErrLock, of ch s'] show ?thesis
      by (auto simp: step_effect_def step_pc_def effects)
  next
    case (PErrHandoff fr g p)
    with step runs sim_err_handoff [OF inv PErrHandoff] show ?thesis
      by (auto simp: step_effect_def step_pc_def effects)
  next
    case (PHandoff fr g r)
    with step runs sim_handoff [OF inv PHandoff] show ?thesis
      by (auto simp: step_effect_def step_pc_def effects)
  qed (use True in simp_all)
next
  case False
  note eff = invisible_step [OF step False]
  then consider "pcs s' = pcs s"
    | p' where "pcs s' = (pcs s)(t := p')" "at_front (stage_of p') = at_front (stage_of (pcs s t))"
      "in_queue (stage_of p') = in_queue (stage_of (pcs s t))" by blast
  then have "abs_monitor s' = abs_monitor s"
  proof cases
    case 1
    then have "pcs s' = (pcs s)(t := pcs s t)" by simp
    then show ?thesis using eff by (intro abs_monitor_silent [OF inv]) (auto simp: stage_at)
  next
    case 2
    then show ?thesis using eff by (intro abs_monitor_silent [OF inv 2(1)]) (auto simp: stage_at)
  qed
  then show ?thesis
    by (rule simulates_silent) (use effect_invisible [OF False] in \<open>simp add: step_effect_def\<close>)
qed

interpretation queue_monitor: simulation sys_step sys_inv monitor_step abs_monitor
proof unfold_locales
  fix s s' :: "('v, 'fs, 'm, 'u, 'r) sys"
  assume "sys_step s s'" and inv: "sys_inv s"
  then obtain ch t where "status s = Running" "step_pc ch t (pcs s t) s = Some s'"
    by (blast elim: sys_step_pcE)
  then show "abs_monitor s' = abs_monitor s \<or> monitor_step (abs_monitor s) (abs_monitor s')"
    by (rule simulatesD(2) [OF sim_step_pc [OF inv]])
qed

lemma abs_monitor_initial:
  assumes "\<And>t. client_ok (clients t)"
  shows "abs_monitor (initial fs opts msize esize ms clients) = monitor_start"
  by (rule abs_monitor_idle [OF sys_inv_initial [OF assms]])
    (simp_all add: initial_def new_with_options_def mutex_exclusive_mut_def)

text \<open>
  C4. The queue is a FIFO turn-passing monitor, step by step: in every reachable state the step of
  any thread changes the abstract state exactly as its program counter says. Taking the free
  permission takes the turn; a push appends the thread and its value at the end; a pop takes over
  the first waiting value, and its thread has to be told; handing over passes the turn to the
  first thread that has to be told, otherwise to the thread of the first waiting value, otherwise
  to nobody; every other step changes nothing. Only a push that aborts has no effect, and only the
  panic of the lock after a callback's panic abandons the turn. Each change is a step that the
  abstract monitor allows, so only the owner of the turn passes it on or takes values over.
\<close>

theorem refines_monitor:
  assumes r: "reachable fs opts msize esize ms clients s" and step: "thread_step ch t s = Some s'"
  shows "abs_monitor s' = step_effect t s s' (abs_monitor s) \<and>
    (abs_monitor s' = abs_monitor s \<or> monitor_step (abs_monitor s) (abs_monitor s')) \<and>
    reach monitor_step monitor_start (abs_monitor s')"
proof (intro conjI)
  note inv = reachable_inv [OF r]
  have "status s = Running" "step_pc ch t (pcs s t) s = Some s'"
    using step by (rule thread_step_running, rule thread_stepD)
  from sim_step_pc [OF inv this]
  show "abs_monitor s' = step_effect t s s' (abs_monitor s)"
    "abs_monitor s' = abs_monitor s \<or> monitor_step (abs_monitor s) (abs_monitor s')"
    by (rule simulatesD)+
  let ?s0 = "initial fs opts msize esize ms clients"
  have start: "sys_inv ?s0" "abs_monitor ?s0 = monitor_start"
    using r by (auto simp: reachable_def intro: sys_inv_initial abs_monitor_initial)
  have "reach sys_step ?s0 s'"
    using r step by (auto simp: reachable_def intro: reach_step sys_step.thread)
  from queue_monitor.reach_sim [OF this start(1)] show "reach monitor_step monitor_start (abs_monitor s')"
    by (simp add: start(2))
qed

theorem refines_monitor_witness:
  "\<exists>s'. thread_step Normal 0 ex_pop = Some s' \<and>
     abs_monitor ex_pop = \<lparr>turn = Owner 0, merged = [], waiting_values = [(1, 11)]\<rparr> \<and>
     abs_monitor s' = \<lparr>turn = Owner 0, merged = [1], waiting_values = []\<rparr>"
proof -
  have ex: "abs_monitor ex_pop = \<lparr>turn = Owner 0, merged = [], waiting_values = [(1, 11)]\<rparr>"
    using abs_monitor_at_front(1) [OF reachable_inv [OF ex_reachable_states(2)], of 0]
    by (simp add: ex_pop_def stage_at)
  have step: "thread_step Normal 0 ex_pop = Some ex_popped"
    using ex_run_popped by (simp add: by_threads_def split: option.splits)
  from refines_monitor [OF ex_reachable_states(2) this] ex show ?thesis
    by (simp add: step) (simp add: step_effect_def ex_pop_def ex_popped_def ex_state_def ex_popping_def)
qed

end
