(* ===== verification/Traces.thy ===== *)
theory Traces
  imports Monitor
begin

text \<open>
  The values that pass through the queue along a run: every submitted value that had to queue
  is delivered, once and in the order of arrival, to a callback through \<open>pop\<close> or to its own
  thread when that reaches the front. And the order of the tasks: none is overtaken.
\<close>

text \<open>What the step of a thread adds to the queue, and what it gets out of it.\<close>

definition arrival :: "choice \<Rightarrow> tid \<Rightarrow> ('v, 'fs, 'm, 'u, 'r) sys \<Rightarrow> 'v list" where
  "arrival ch t s =
     (case pcs s t of
        PPush fr g \<Rightarrow>
          (case push_task (ch = AllocFails) (elem_size s) t (fr_value fr) (mx s) of
             None \<Rightarrow> [] | Some m \<Rightarrow> [fr_value fr])
      | _ \<Rightarrow> [])"

definition delivery :: "tid \<Rightarrow> ('v, 'fs, 'm, 'u, 'r) sys \<Rightarrow> 'v list" where
  "delivery t s =
     (case pcs s t of
        PCallback fr h cb \<Rightarrow>
          (case cb of
             CbPop k \<Rightarrow> (case fst (handle_pop h (mx s)) of Ret (Some v) \<Rightarrow> [v] | _ \<Rightarrow> [])
           | _ \<Rightarrow> [])
      | PPopSelf fr g b \<Rightarrow>
          (case fst (pop_this_task t b (mx s)) of Ret (WaitProcess v) \<Rightarrow> [v] | _ \<Rightarrow> [])
      | _ \<Rightarrow> [])"

fun arrivals :: "(tid \<times> choice) list \<Rightarrow> ('v, 'fs, 'm, 'u, 'r) sys \<Rightarrow> 'v list" where
  "arrivals [] s = []"
| "arrivals ((t, ch) # sched) s =
     arrival ch t s @ (case thread_step ch t s of None \<Rightarrow> [] | Some s' \<Rightarrow> arrivals sched s')"

fun deliveries :: "(tid \<times> choice) list \<Rightarrow> ('v, 'fs, 'm, 'u, 'r) sys \<Rightarrow> 'v list" where
  "deliveries [] s = []"
| "deliveries ((t, ch) # sched) s =
     delivery t s @ (case thread_step ch t s of None \<Rightarrow> [] | Some s' \<Rightarrow> deliveries sched s')"

abbreviation pending_values :: "('v, 'fs, 'm, 'u, 'r) sys \<Rightarrow> 'v list" where
  "pending_values s \<equiv> map snd (pending (queue (mx s)))"

lemma transfer_front_queue:
  "transfer_front wake F m = Ret (F', m') \<Longrightarrow> queue m' = queue m"
  by (auto simp: transfer_front_def bind_res_Ret split: option.splits)

lemma flow_push:
  assumes "pcs s t = PPush fr g"
  shows "pending_values s @ arrival ch t s = delivery t s @ pending_values (step_push ch t fr g s)"
proof (cases "push_task (ch = AllocFails) (elem_size s) t (fr_value fr) (mx s)")
  case (Some m)
  from push_task_queue [OF this] Some assms show ?thesis
    by (simp add: step_push_def arrival_def delivery_def)
qed (simp add: step_push_def arrival_def delivery_def assms)

lemma flow_pop_self:
  assumes inv: "sys_inv s" and pc: "pcs s t = PPopSelf fr g b"
  shows "pending_values s @ arrival ch t s = delivery t s @ pending_values (step_pop_self t fr g b s)"
proof -
  from pop_self_own [OF inv pc] obtain et q
    where q: "queue (mx s) = et # q" "owner et = t" "is_init et" .
  then show ?thesis
    by (simp add: step_pop_self_def pop_this_task_Cons [OF q(1,3,2)] Let_def arrival_def
        delivery_def pc split: option.splits)
qed

lemma flow_pop:
  assumes inv: "sys_inv s" and pc: "pcs s t = PCallback fr h (CbPop k)"
  shows "pending_values s @ arrival ch t s =
    delivery t s @ pending_values (step_callback t fr h (CbPop k) s)"
proof (rule callback_facts [OF inv pc])
  fix g
  assume "handle_ready h" "handle_ok h (mx s)"
  then have v: "view_valid (h, mx s)" by (simp add: view_valid_def)
  note handle_view.advance_hd [OF v] handle_view.advance_tl [OF v]
  then show ?thesis
    by (auto simp: step_callback_def Let_def arrival_def delivery_def pc view_advance_def
        view_remaining_def handle_pop_def split: prod.splits res.splits option.splits list.splits
        MaybeUninit.splits)
qed

text \<open>Every other step leaves the queue alone.\<close>

lemma queue_unchanged:
  assumes "step_pc ch t p s = Some s'" "\<And>fr g. p \<noteq> PPush fr g" "\<And>fr g b. p \<noteq> PPopSelf fr g b"
    "\<And>fr h k. p \<noteq> PCallback fr h (CbPop k)"
  shows "queue (mx s') = queue (mx s)"
proof (cases "visible p")
  case True
  with assms show ?thesis
    by (cases p)
      (auto simp: step_pc_def step_acquire_def try_acquire_front_fast_def step_err_lock_def
        with_lock_Some step_err_handoff_def step_handoff_def finish_ok_def finish_err_def Let_def
        leave_unwinding_def split: res.splits dest!: transfer_front_queue)
qed (use invisible_queue [OF assms(1)] in blast)

lemma flow_other:
  assumes step: "step_pc ch t (pcs s t) s = Some s'"
    and "\<And>fr g. pcs s t \<noteq> PPush fr g" "\<And>fr g b. pcs s t \<noteq> PPopSelf fr g b"
      "\<And>fr h k. pcs s t \<noteq> PCallback fr h (CbPop k)"
  shows "pending_values s @ arrival ch t s = delivery t s @ pending_values s'"
proof -
  have "arrival ch t s = []" "delivery t s = []"
    using assms(2-4) by (auto simp: arrival_def delivery_def split: pc.splits callback.splits)
  with queue_unchanged [OF assms] show ?thesis by simp
qed

lemma flow_step:
  assumes inv: "sys_inv s" and step: "thread_step ch t s = Some s'"
  shows "pending_values s @ arrival ch t s = delivery t s @ pending_values s'"
proof -
  from step have step: "step_pc ch t (pcs s t) s = Some s'"
    by (rule thread_stepD)
  consider fr g where "pcs s t = PPush fr g" | fr g b where "pcs s t = PPopSelf fr g b"
    | fr h k where "pcs s t = PCallback fr h (CbPop k)"
    | "\<And>fr g. pcs s t \<noteq> PPush fr g" "\<And>fr g b. pcs s t \<noteq> PPopSelf fr g b"
      "\<And>fr h k. pcs s t \<noteq> PCallback fr h (CbPop k)" by blast
  then show ?thesis
  proof cases
    case 1
    with step flow_push [OF 1, of ch] show ?thesis by (simp add: step_pc_def)
  next
    case 2
    with step flow_pop_self [OF inv 2, of ch] show ?thesis by (simp add: step_pc_def)
  next
    case 3
    with step flow_pop [OF inv 3, of ch] show ?thesis by (simp add: step_pc_def)
  qed (rule flow_other [OF step])
qed

lemma flow_run:
  "sys_inv s \<Longrightarrow> run sched s = Some s' \<Longrightarrow>
     pending_values s @ arrivals sched s = deliveries sched s @ pending_values s'"
proof (induction sched s rule: run.induct)
  case (2 t ch sched s)
  then obtain s1 where s1: "thread_step ch t s = Some s1" "run sched s1 = Some s'"
    by (auto split: option.splits)
  have "sys_inv s1" using s1(1) 2(2) by (blast intro: sys_inv_step sys_step.thread)
  from 2(1) [OF s1(1) this s1(2)] flow_step [OF 2(2) s1(1)] s1(1)
  show ?case by (simp flip: append_assoc) (simp add: append_assoc)
qed simp

text \<open>
  C8. Strict FIFO, and exactly once: along any schedule from a new queue, the values that had
  to queue are the values delivered so far, in the same order, followed by those still
  waiting. None is lost, duplicated or overtaken.
\<close>

theorem values_fifo:
  assumes "\<forall>t. client_ok (clients t)"
    and "run sched (initial fs opts msize esize ms clients) = Some s"
  shows "arrivals sched (initial fs opts msize esize ms clients) =
    deliveries sched (initial fs opts msize esize ms clients) @ map snd (pending (queue (mx s)))"
proof -
  have "pending_values (initial fs opts msize esize ms clients) = []"
    by (simp add: initial_def new_with_options_def mutex_exclusive_mut_def)
  with flow_run [OF sys_inv_initial assms(2)] assms(1) show ?thesis by simp
qed

theorem values_fifo_witness:
  "arrivals (by_threads [0, 0, 0, 0, 0, 0, 1, 1, 1, 1, 1, 1]) ex_start =
     deliveries (by_threads [0, 0, 0, 0, 0, 0, 1, 1, 1, 1, 1, 1]) ex_start @ [11]"
  using values_fifo [of ex_clients, OF _ ex_run_blocked [unfolded ex_start_def]]
  by (simp add: ex_clients_ok ex_blocked_def ex_start_def)

section \<open>Positions in the queue\<close>

text \<open>The threads whose tasks are ahead of a thread's task.\<close>

definition ahead :: "tid \<Rightarrow> ('v, 'fs, 'm, 'u, 'r) sys \<Rightarrow> tid list" where
  "ahead u s = takeWhile (\<lambda>t. t \<noteq> u) (map owner (queue (mx s)))"

lemma owners_step:
  assumes inv: "sys_inv s" and step: "step_pc ch t (pcs s t) s = Some s'"
  shows "map owner (queue (mx s')) = map owner (queue (mx s)) \<or>
    map owner (queue (mx s')) = map owner (queue (mx s)) @ [t] \<or>
    map owner (queue (mx s)) = t # map owner (queue (mx s')) \<and> (\<exists>fr g b. pcs s t = PPopSelf fr g b)"
proof -
  consider fr g where "pcs s t = PPush fr g" | fr g b where "pcs s t = PPopSelf fr g b"
    | fr h k where "pcs s t = PCallback fr h (CbPop k)"
    | "\<And>fr g. pcs s t \<noteq> PPush fr g" "\<And>fr g b. pcs s t \<noteq> PPopSelf fr g b"
      "\<And>fr h k. pcs s t \<noteq> PCallback fr h (CbPop k)" by blast
  then show ?thesis
  proof cases
    case 1
    with step show ?thesis
      by (auto simp: step_pc_def step_push_def split: option.splits dest!: push_task_queue)
  next
    case 2
    from pop_self_own [OF inv 2] obtain et q
      where q: "queue (mx s) = et # q" "owner et = t" "is_init et" .
    with 2 step show ?thesis
      by (auto simp: step_pc_def step_pop_self_def pop_this_task_Cons [OF q(1,3,2)] Let_def)
  next
    case 3
    show ?thesis
    proof (rule callback_facts [OF inv 3])
      assume h: "handle_ready h" "handle_ok h (mx s)"
      show ?thesis
      proof (cases "unat (next_idx h) < length (queue (mx s))")
        case True
        with step 3 show ?thesis
          by (auto simp: step_pc_def step_callback_def handle_pop_ok [OF h(2,1) True] Let_def)
      next
        case False
        with step 3 show ?thesis
          by (auto simp: step_pc_def step_callback_def handle_pop_empty [OF h(2,1) False] Let_def)
      qed
    qed
  next
    case 4
    with queue_unchanged [OF step] show ?thesis by metis
  qed
qed

text \<open>
  C16. No overtaking: while a thread is queued, no step of any thread puts a task ahead of its
  task, and one is taken away only by the thread that owns the permission, whose task is then
  the head of the queue.
\<close>

theorem no_overtaking:
  assumes r: "reachable fs opts msize esize ms clients s" and step: "thread_step ch t s = Some s'"
    and u: "in_queue (stages s u)" "in_queue (stages s' u)"
  shows "ahead u s' = ahead u s \<or> ahead u s = t # ahead u s' \<and> owns_front s t"
proof -
  note inv = reachable_inv [OF r]
  have inv': "sys_inv s'" by (rule sys_inv_step [OF sys_step.thread [OF step] inv])
  from step have step: "step_pc ch t (pcs s t) s = Some s'" by (rule thread_stepD)
  have mem: "u \<in> set (map owner (queue (mx s)))" "u \<in> set (map owner (queue (mx s')))"
    using protoD(1) [OF inv_proto [OF inv]] protoD(1) [OF inv_proto [OF inv']] u
    by (simp_all add: queue_inv_def)
  show ?thesis
    using owners_step [OF inv step]
  proof (elim disjE conjE exE)
    assume "map owner (queue (mx s')) = map owner (queue (mx s))"
    then show ?thesis by (simp add: ahead_def)
  next
    assume "map owner (queue (mx s')) = map owner (queue (mx s)) @ [t]"
    with mem(1) show ?thesis by (simp add: ahead_def)
  next
    fix fr g b
    assume pop: "map owner (queue (mx s)) = t # map owner (queue (mx s'))" "pcs s t = PPopSelf fr g b"
    have "distinct (t # map owner (queue (mx s')))"
      using protoD(1) [OF inv_proto [OF inv]] unfolding pop(1) [symmetric] by (simp add: queue_inv_def)
    with mem(2) have "u \<noteq> t" by auto
    then have "ahead u s = t # ahead u s'" unfolding ahead_def pop(1) by simp
    moreover have st: "stages s t = InQueue (Pops b)" by (simp add: pop(2) stage_at)
    from frame_at [OF inv st] obtain ts where "frames s t = Some ts" "front_bit ts" by auto
    with st have "owns_front s t" by (simp add: owns_front_def)
    ultimately show ?thesis by blast
  qed
qed

theorem no_overtaking_witness: "\<exists>s'. thread_step Normal 0 ex_pop = Some s' \<and> ahead 1 s' = ahead 1 ex_pop"
proof -
  have step: "thread_step Normal 0 ex_pop = Some ex_popped"
    using ex_run_popped by (simp add: by_threads_def split: option.splits)
  have "in_queue (stages ex_pop 1)" "in_queue (stages ex_popped 1)"
    by (simp_all add: stage_at ex_pop_def ex_popped_def)
  from no_overtaking [OF ex_reachable_states(2) step this] step show ?thesis
    by (auto simp: ahead_def ex_pop_def)
qed

end
