(* ===== verification/Calls.thy ===== *)
theory Calls
  imports Traces
begin

text \<open>
  What the calls do. First the operations that touch the queue, on every branch, in any
  reachable state; then a whole call of \<open>lock_and_process\<close> on an idle queue, which returns
  what running its callback by itself returns.
\<close>

section \<open>The operations on the queue\<close>

lemma thread_step_pc: "status s = Running \<Longrightarrow> thread_step ch t s = step_pc ch t (pcs s t) s"
  by (simp add: thread_step_def)

lemma peek_step:
  assumes inv: "sys_inv s" and pc: "pcs s t = PCallback fr h (CbPeek k)"
  shows "step_callback t fr h (CbPeek k) s = set_pc t (PCallback fr h (k (Returned
    (case pending (queue (mx s)) of [] \<Rightarrow> None | (u, v) # w \<Rightarrow> Some v)))) s"
proof (rule callback_facts [OF inv pc])
  assume "handle_ready h" "handle_ok h (mx s)"
  from handle_peek_ok [OF this(2,1)] show ?thesis
    by (simp add: step_callback_def split: list.splits)
qed

lemma pop_step:
  assumes inv: "sys_inv s" and pc: "pcs s t = PCallback fr h (CbPop k)"
  shows "\<exists>h' q. step_callback t fr h (CbPop k) s = set_pc t (PCallback fr h' (k (Returned
      (case pending (queue (mx s)) of [] \<Rightarrow> None | (u, v) # w \<Rightarrow> Some v)))) (set_mx ((mx s)\<lparr>queue := q\<rparr>) s) \<and>
    pending q = tl (pending (queue (mx s))) \<and> map owner q = map owner (queue (mx s))"
proof (rule callback_facts [OF inv pc])
  assume h: "handle_ready h" "handle_ok h (mx s)"
  let ?i = "unat (next_idx h)" and ?q = "queue (mx s)"
  have pre: "popped_prefix ?i ?q" using h(2) by (simp add: handle_ok_def)
  show ?thesis
  proof (cases "?i < length ?q")
    case True
    obtain v where v: "value_of (?q ! ?i) = Some v" using vd_get_ok(2) [OF h(2) True] by auto
    have drop: "drop ?i ?q = ?q ! ?i # drop (Suc ?i) ?q" using True by (simp add: Cons_nth_drop_Suc)
    show ?thesis
      using pending_drop [OF pre] pending_drop [OF popped_prefix_take [OF pre True]] v drop
      by (intro exI [of _ "h\<lparr>next_idx := next_idx h + 1\<rparr>"] exI [of _ "?q[?i := taken (?q ! ?i)]"])
        (simp add: step_callback_def handle_pop_ok [OF h(2,1) True] Let_def)
  next
    case False
    with pending_drop [OF pre] show ?thesis
      by (intro exI [of _ h] exI [of _ ?q])
        (simp add: step_callback_def handle_pop_empty [OF h(2,1) False] Let_def)
  qed
qed

text \<open>
  C38. \<open>QueueHandle::peek\<close> in a callback returns the value of the oldest unprocessed task in
  the queue, or \<open>None\<close> if there is none; it never panics and changes nothing.
\<close>

theorem callback_peek:
  assumes r: "reachable fs opts msize esize ms clients s" and run: "status s = Running"
    and pc: "pcs s t = PCallback fr h (CbPeek k)"
  shows "thread_step ch t s = Some (set_pc t (PCallback fr h (k (Returned
    (case pending (queue (mx s)) of [] \<Rightarrow> None | (u, v) # w \<Rightarrow> Some v)))) s)"
  using peek_step [OF reachable_inv [OF r] pc] by (simp add: thread_step_pc [OF run] step_pc_def pc)

theorem callback_peek_witness:
  "thread_step Normal 0 ex_peek =
     Some (set_pc 0 (PCallback (ex_frame 10) (ex_handle 0) ex_popping) ex_peek)"
  using callback_peek [OF ex_reachable_states(8), of 0 "ex_frame 10" "ex_handle 0" "\<lambda>first. ex_popping" Normal]
  by (simp add: ex_peek_def ex_peeking_def)

text \<open>
  C24. \<open>QueueHandle::pop\<close> in a callback returns the value of the oldest unprocessed task and
  marks that task processed, leaving the others as they were, or returns \<open>None\<close>; it never
  panics, and the popped task stays in the queue with its thread.
\<close>

theorem callback_pop:
  assumes r: "reachable fs opts msize esize ms clients s" and run: "status s = Running"
    and pc: "pcs s t = PCallback fr h (CbPop k)"
  shows "\<exists>h' s'. thread_step ch t s = Some s' \<and>
    pcs s' = (pcs s)(t := PCallback fr h' (k (Returned
      (case pending (queue (mx s)) of [] \<Rightarrow> None | (u, v) # w \<Rightarrow> Some v)))) \<and>
    pending (queue (mx s')) = tl (pending (queue (mx s))) \<and>
    map owner (queue (mx s')) = map owner (queue (mx s))"
  using pop_step [OF reachable_inv [OF r] pc] by (auto simp: thread_step_pc [OF run] step_pc_def pc)

theorem callback_pop_witness:
  "\<exists>s'. thread_step Normal 0 ex_pop = Some s' \<and> pending (queue (mx s')) = [] \<and>
     map owner (queue (mx s')) = [1]"
  using callback_pop [OF ex_reachable_states(2), of 0 "ex_frame 10" "ex_handle 0" _ Normal]
  by (auto simp: ex_pop_def ex_popping_def)

text \<open>
  C25. The end of the wait: a thread that has seen its front bit pops its own task, and what it
  learns is decided by that task: if the value is still there it processes it itself, otherwise
  the value was processed elsewhere, or its processing panicked if the panic bit is set.
\<close>

theorem wait_result:
  assumes r: "reachable fs opts msize esize ms clients s" and run: "status s = Running"
    and pc: "pcs s t = PPopSelf fr g b"
  shows "\<exists>et q ts. queue (mx s) = et # q \<and> owner et = t \<and> frames s t = Some ts \<and> b = panic_bit ts \<and>
    thread_step ch t s = Some (set_pc t (PQueuePoison fr g
      (case value_of et of Some v \<Rightarrow> WaitProcess v
       | None \<Rightarrow> if panic_bit ts then WaitProcessingPanicked else WaitProcessedElsewhere))
      (set_mx ((mx s)\<lparr>queue := q\<rparr>) s))"
proof -
  note inv = reachable_inv [OF r]
  from pop_self_own [OF inv pc] obtain et q
    where q: "queue (mx s) = et # q" "owner et = t" "is_init et" .
  from frame_at [OF inv, of t "Pops b"] obtain ts where "frames s t = Some ts" "b = panic_bit ts"
    by (auto simp: stage_at pc)
  with q show ?thesis
    by (simp add: thread_step_pc [OF run] step_pc_def pc step_pop_self_def
        pop_this_task_Cons [OF q(1,3,2)] Let_def)
qed

theorem wait_result_witness:
  "\<exists>s'. thread_step Normal 1 ex_checked = Some s' \<and>
     pcs s' 1 = PQueuePoison (ex_frame 11) ex_guard WaitProcessedElsewhere"
  using wait_result [OF ex_reachable_states(6), of 1 "ex_frame 11" ex_guard False Normal]
  by (auto simp: ex_checked_def)

text \<open>
  C26. The hand-over after a normal return: if a task is queued, the thread of the oldest one
  gets its front bit set, without the panic bit, and is notified, and the permission stays
  taken; otherwise the permission is released. Nothing else of the queue changes.
\<close>

theorem handoff_next:
  assumes r: "reachable fs opts msize esize ms clients s" and run: "status s = Running"
    and pc: "pcs s t = PHandoff fr g x"
  shows "(queue (mx s) = [] \<longrightarrow>
      thread_step ch t s = Some (set_pc t (PReturn fr g x) (set_mx ((mx s)\<lparr>front_locked := False\<rparr>) s))) \<and>
    (\<forall>et q. queue (mx s) = et # q \<longrightarrow> (\<exists>ts. frames s (owner et) = Some ts \<and>
      thread_step ch t s = Some (set_pc t (PReturn fr g x)
        (s\<lparr>frames := (frames s)(owner et \<mapsto> wake_front_task ts)\<rparr>)) \<and>
      front_bit (wake_front_task ts) \<and> panic_bit (wake_front_task ts) = panic_bit ts))"
proof (intro conjI allI impI)
  note P = inv_proto [OF reachable_inv [OF r]]
  assume "queue (mx s) = []"
  then show "thread_step ch t s = Some (set_pc t (PReturn fr g x) (set_mx ((mx s)\<lparr>front_locked := False\<rparr>) s))"
    by (simp add: thread_step_pc [OF run] step_pc_def pc step_handoff_def finish_ok_def transfer_front_Nil)
next
  fix et q assume q: "queue (mx s) = et # q"
  have "proto_inv (stages s) (frames s) (et # q) (front_locked (mx s)) (lost s) (max_len (elem_size s))"
    using inv_proto [OF reachable_inv [OF r]] q by simp
  then obtain ts where ts: "is_init et" "frames s (owner et) = Some ts" using proto_head_frame by blast
  have "thread_step ch t s = Some (set_pc t (PReturn fr g x)
      (set_mx (mx s) (s\<lparr>frames := (frames s)(owner et \<mapsto> wake_front_task ts)\<rparr>)))"
    using ts(2)
    by (simp add: thread_step_pc [OF run] step_pc_def pc step_handoff_def finish_ok_def
        transfer_front_Cons [OF q ts(1)])
  moreover have "set_mx (mx s) (s\<lparr>frames := F\<rparr>) = s\<lparr>frames := F\<rparr>" for F
    by (simp add: mx_place.put_get)
  ultimately show "\<exists>ts. frames s (owner et) = Some ts \<and>
      thread_step ch t s = Some (set_pc t (PReturn fr g x)
        (s\<lparr>frames := (frames s)(owner et \<mapsto> wake_front_task ts)\<rparr>)) \<and>
      front_bit (wake_front_task ts) \<and> panic_bit (wake_front_task ts) = panic_bit ts"
    using ts(2) by (simp add: ok_waker.wake_front ok_waker.wake_panic)
qed

theorem handoff_next_witness:
  "\<exists>s'. thread_step Normal 0 ex_leaving = Some s' \<and> bit_at (frames s') 1"
  using handoff_next [OF ex_reachable_states(4), of 0 "ex_frame 10" ex_guard "Processed 21" Normal]
  by (auto simp: ex_leaving_def)

end
