(* ===== verification/Uncontended.thy ===== *)
theory Uncontended
  imports Calls
begin

text \<open>
  A call that meets no other thread: running it to its end by the steps of its thread alone
  gives what evaluating its callback by itself gives.
\<close>

section \<open>Evaluating a callback by itself\<close>

text \<open>
  The reference: the callback of an uncontended call on mutex \<open>a\<close>, as a function of the front
  state, the mutexes (with \<open>a\<close> free) and the queue's poison flag. There is never anything to pop.
  A panic gives \<open>None\<close>, and so does a closure that would wait for a mutex or forgets a guard.
\<close>

type_synonym ('fs, 'm) world = "'fs \<times> (addr \<Rightarrow> 'm mutex) \<times> bool"

primrec solo_closure ::
    "('fs, 'm, 'u) closure \<Rightarrow> addr \<Rightarrow> 'fs \<Rightarrow> (addr \<Rightarrow> 'm mutex) \<Rightarrow> bool \<Rightarrow>
       ('u outcome \<times> ('fs, 'm) world) option"
  and solo_critical ::
    "('fs, 'm, 'u) critical \<Rightarrow> addr \<Rightarrow> addr \<Rightarrow> 'fs \<Rightarrow> (addr \<Rightarrow> 'm mutex) \<Rightarrow> bool \<Rightarrow>
       ('u outcome \<times> ('fs, 'm) world) option" where
  "solo_closure (CloReturn u) a fs ms qp = Some (Returned u, fs, ms, qp)"
| "solo_closure (CloPanic n) a fs ms qp = Some (Unwound (UserPanic n), fs, ms, qp)"
| "solo_closure (CloReadFront f) a fs ms qp = solo_closure (f fs) a fs ms qp"
| "solo_closure (CloWriteFront fs' clo) a fs ms qp = solo_closure clo a fs' ms qp"
| "solo_closure (CloLockMutex b f) a fs ms qp =
     (if holder (ms b) = Free then solo_critical (f (poisoned (ms b))) a b fs ms qp else None)"
| "solo_closure (CloIsQueuePoisoned b f) a fs ms qp =
     solo_closure (f (if b = a then Returned qp else Unwound WrongMutex)) a fs ms qp"
| "solo_closure (CloClearQueuePoison b f) a fs ms qp =
     (if b = a then solo_closure (f (Returned ())) a fs ms False
      else solo_closure (f (Unwound WrongMutex)) a fs ms qp)"
| "solo_critical (CritReadState f) a b fs ms qp = solo_critical (f (data (ms b))) a b fs ms qp"
| "solo_critical (CritWriteState m c) a b fs ms qp =
     solo_critical c a b fs (ms(b := (ms b)\<lparr>data := m\<rparr>)) qp"
| "solo_critical (CritReadFront f) a b fs ms qp = solo_critical (f fs) a b fs ms qp"
| "solo_critical (CritWriteFront fs' c) a b fs ms qp = solo_critical c a b fs' ms qp"
| "solo_critical (CritDrop clo) a b fs ms qp = solo_closure clo a fs ms qp"
| "solo_critical (CritForget clo) a b fs ms qp = None"
| "solo_critical (CritPanic n) a b fs ms qp =
     Some (Unwound (UserPanic n), fs, ms(b := (ms b)\<lparr>poisoned := True\<rparr>), qp)"

primrec solo ::
  "('v, 'fs, 'm, 'u, 'r) callback \<Rightarrow> addr \<Rightarrow> 'fs \<Rightarrow> (addr \<Rightarrow> 'm mutex) \<Rightarrow> bool \<Rightarrow>
     'r option \<times> ('fs, 'm) world" where
  "solo (CbReturn r) a fs ms qp = (Some r, fs, ms, qp)"
| "solo (CbPanic n) a fs ms qp = (None, fs, ms, qp)"
| "solo (CbReadFront k) a fs ms qp = solo (k fs) a fs ms qp"
| "solo (CbWriteFront fs' cb) a fs ms qp = solo cb a fs' ms qp"
| "solo (CbPeek k) a fs ms qp = solo (k (Returned None)) a fs ms qp"
| "solo (CbPop k) a fs ms qp = solo (k (Returned None)) a fs ms qp"
| "solo (CbMutexState k) a fs ms qp = solo (k (data (ms a))) a fs ms qp"
| "solo (CbMutexStateMut m cb) a fs ms qp = solo cb a fs (ms(a := (ms a)\<lparr>data := m\<rparr>)) qp"
| "solo (CbUnlocked clo k) a fs ms qp =
     (case solo_closure clo a fs ms qp of
        None \<Rightarrow> (None, fs, ms, qp)
      | Some (out, fs', ms', qp') \<Rightarrow> solo (k out) a fs' ms' qp')"
| "solo (CbIsQueuePoisoned k) a fs ms qp = solo (k qp) a fs ms qp"
| "solo (CbClearQueuePoison cb) a fs ms qp = solo cb a fs ms False"

text \<open>The reference does not change who holds a mutex.\<close>

lemma solo_closure_holder:
  "solo_closure clo a fs ms qp = Some (out, fs', ms', qp') \<Longrightarrow> holder (ms' b) = holder (ms b)"
  and solo_critical_holder:
  "solo_critical c a l fs ms qp = Some (out, fs', ms', qp') \<Longrightarrow> holder (ms' b) = holder (ms b)"
  for clo :: "('fs, 'm, 'u) closure" and c :: "('fs, 'm, 'u) critical"
proof (induction clo and c arbitrary: fs ms qp and l fs ms qp rule: closure.induct critical.induct)
  case (CritWriteState m c)
  have "holder (ms' b) = holder ((ms(l := (ms l)\<lparr>data := m\<rparr>)) b)"
    using CritWriteState.IH [of l fs "ms(l := (ms l)\<lparr>data := m\<rparr>)" qp] CritWriteState.prems
    by (simp del: fun_upd_apply)
  then show ?case by (simp split: if_splits)
qed (auto split: if_splits, (metis rangeI)+)

section \<open>Running a thread alone\<close>

text \<open>What running thread \<open>t\<close> alone may have changed.\<close>

definition ran_alone ::
  "tid \<Rightarrow> ('v, 'fs, 'm, 'u, 'r) sys \<Rightarrow> ('v, 'fs, 'm, 'u, 'r) pc \<Rightarrow> ('fs, 'm) world \<Rightarrow>
     ('v, 'fs, 'm, 'u, 'r) sys \<Rightarrow> bool" where
  "ran_alone t s p w s' \<longleftrightarrow>
     status s' = status s \<and> pcs s' = (pcs s)(t := p) \<and> frames s' = frames s \<and>
     mutexes s' = fst (snd w) \<and> mx s' = (mx s)\<lparr>queue_poisoned := snd (snd w)\<rparr> \<and>
     front_exclusive_mut (cq s') = fst w \<and>
     mutex_address (cq s') = mutex_address (cq s) \<and> options (cq s') = options (cq s) \<and>
     mutex_size s' = mutex_size s \<and> elem_size s' = elem_size s"

abbreviation alone :: "tid \<Rightarrow> nat \<Rightarrow> (tid \<times> choice) list" where
  "alone t n \<equiv> replicate n (t, Normal)"

lemma ran_alone_trans:
  "ran_alone t s p w s1 \<Longrightarrow> ran_alone t s1 p' w' s2 \<Longrightarrow> ran_alone t s p' w' s2"
  by (simp add: ran_alone_def)

definition goes_alone ::
  "tid \<Rightarrow> ('v, 'fs, 'm, 'u, 'r) sys \<Rightarrow> ('v, 'fs, 'm, 'u, 'r) pc \<Rightarrow> ('fs, 'm) world \<Rightarrow> bool" where
  "goes_alone t s p w \<longleftrightarrow> (\<exists>n s'. run (alone t n) s = Some s' \<and> ran_alone t s p w s')"

lemma run_alone_append:
  assumes "run (alone t i) s = Some s1" "\<exists>n s2. run (alone t n) s1 = Some s2 \<and> P s2"
  shows "\<exists>n s2. run (alone t n) s = Some s2 \<and> P s2"
proof -
  obtain n s2 where "run (alone t n) s1 = Some s2" "P s2" using assms(2) by blast
  with run_then [OF assms(1)] show ?thesis by (metis replicate_add)
qed

lemma goes_alone_then:
  assumes "goes_alone t s p1 w1" "\<And>s1. ran_alone t s p1 w1 s1 \<Longrightarrow> goes_alone t s1 p w"
  shows "goes_alone t s p w"
proof -
  obtain i s1 where s1: "run (alone t i) s = Some s1" "ran_alone t s p1 w1 s1"
    using assms(1) by (auto simp: goes_alone_def)
  show ?thesis
    using run_alone_append [OF s1(1), of "ran_alone t s p w"] assms(2) [OF s1(2)]
      ran_alone_trans [OF s1(2)]
    unfolding goes_alone_def by blast
qed

text \<open>A thread that makes one step, or two.\<close>

lemma goes_alone_one:
  "(case thread_step Normal t s of None \<Rightarrow> False | Some s1 \<Rightarrow> ran_alone t s p w s1) \<Longrightarrow>
     goes_alone t s p w"
  unfolding goes_alone_def by (rule exI [of _ 1]) (auto split: option.splits)

lemma goes_alone_two:
  "(case run (alone t 2) s of None \<Rightarrow> False | Some s1 \<Rightarrow> ran_alone t s p w s1) \<Longrightarrow> goes_alone t s p w"
  unfolding goes_alone_def by (rule exI [of _ 2]) (auto split: option.splits)

lemmas closure_alone_defs =
  thread_step_def step_pc_def step_unlocked_def step_holding_def closure_lock_def with_lock_def
  ran_alone_def Let_def

text \<open>The accessors of the queue's poison, called by a closure: a lock and a read or write.\<close>

lemma accessors_alone:
  assumes "status s = Running" "mutex_address (cq s) = a" "a \<noteq> 0" "mutex_size s > 0"
    "holder (mutexes s a) = Free"
  shows "pcs s t = PUnlocked fr h (CloIsQueuePoisoned b f) k \<Longrightarrow>
      goes_alone t s (PUnlocked fr h (f (if b = a then Returned (queue_poisoned (mx s)) else Unwound WrongMutex)) k)
        (front_exclusive_mut (cq s), mutexes s, queue_poisoned (mx s))"
    and "pcs s t = PUnlocked fr h (CloClearQueuePoison b f') k \<Longrightarrow>
      goes_alone t s (PUnlocked fr h (f' (if b = a then Returned () else Unwound WrongMutex)) k)
        (front_exclusive_mut (cq s), mutexes s, queue_poisoned (mx s) \<and> b \<noteq> a)"
proof -
  note eval = closure_alone_defs assert_mutex_good_eq numeral_eq_Suc drop_guard_lock
  assume pc: "pcs s t = PUnlocked fr h (CloIsQueuePoisoned b f) k"
  show "goes_alone t s
      (PUnlocked fr h (f (if b = a then Returned (queue_poisoned (mx s)) else Unwound WrongMutex)) k)
      (front_exclusive_mut (cq s), mutexes s, queue_poisoned (mx s))"
  proof (cases "b = a")
    case True
    with assms pc show ?thesis by (intro goes_alone_two) (simp add: eval)
  next
    case False
    with assms pc show ?thesis by (intro goes_alone_one) (simp add: eval)
  qed
next
  note eval = closure_alone_defs assert_mutex_good_eq numeral_eq_Suc drop_guard_lock
  assume pc: "pcs s t = PUnlocked fr h (CloClearQueuePoison b f') k"
  show "goes_alone t s (PUnlocked fr h (f' (if b = a then Returned () else Unwound WrongMutex)) k)
      (front_exclusive_mut (cq s), mutexes s, queue_poisoned (mx s) \<and> b \<noteq> a)"
  proof (cases "b = a")
    case True
    with assms pc show ?thesis by (intro goes_alone_two) (simp add: eval)
  next
    case False
    with assms pc show ?thesis by (intro goes_alone_one) (simp add: eval)
  qed
qed

text \<open>The closure of \<open>unlocked\<close> does what the reference says.\<close>

lemma solo_closure_runs:
  "status s = Running \<Longrightarrow> pcs s t = PUnlocked fr h clo k \<Longrightarrow> mutex_address (cq s) = a \<Longrightarrow> a \<noteq> 0 \<Longrightarrow>
     mutex_size s > 0 \<Longrightarrow> holder (mutexes s a) = Free \<Longrightarrow>
     solo_closure clo a (front_exclusive_mut (cq s)) (mutexes s) (queue_poisoned (mx s)) = Some (out, w) \<Longrightarrow>
     goes_alone t s (PUnlockRelock fr h out k) w"
  and solo_critical_runs:
  "status s = Running \<Longrightarrow> pcs s t = PUnlockedHolds fr h (Guard b False) (InCritical c) k \<Longrightarrow>
     mutex_address (cq s) = a \<Longrightarrow> a \<noteq> 0 \<Longrightarrow> mutex_size s > 0 \<Longrightarrow>
     mutexes s = ms(b := lock t (ms b)) \<Longrightarrow> holder (ms b) = Free \<Longrightarrow> holder (ms a) = Free \<Longrightarrow>
     solo_critical c a b (front_exclusive_mut (cq s)) ms (queue_poisoned (mx s)) = Some (out, w) \<Longrightarrow>
     goes_alone t s (PUnlockRelock fr h out k) w"
  for clo :: "('fs, 'm, 'u) closure" and c :: "('fs, 'm, 'u) critical"
    and s :: "('v, 'fs, 'm, 'u, 'r) sys"
proof (induction clo and c arbitrary: s and s b ms rule: closure.induct critical.induct)
  case (CloReturn u)
  then show ?case by (intro goes_alone_one) (auto simp: closure_alone_defs)
next
  case (CloPanic n)
  then show ?case by (intro goes_alone_one) (auto simp: closure_alone_defs)
next
  case (CloReadFront f)
  then have "goes_alone t s (PUnlocked fr h (f (front_exclusive_mut (cq s))) k)
      (front_exclusive_mut (cq s), mutexes s, queue_poisoned (mx s))"
    by (intro goes_alone_one) (simp add: closure_alone_defs)
  then show ?case
    by (rule goes_alone_then)
      (rule CloReadFront.IH [OF rangeI], use CloReadFront.prems in \<open>simp_all add: ran_alone_def\<close>)
next
  case (CloWriteFront fs clo)
  then have "goes_alone t s (PUnlocked fr h clo k) (fs, mutexes s, queue_poisoned (mx s))"
    by (intro goes_alone_one) (simp add: closure_alone_defs)
  then show ?case
    by (rule goes_alone_then)
      (rule CloWriteFront.IH, use CloWriteFront.prems in \<open>simp_all add: ran_alone_def\<close>)
next
  case (CloLockMutex b f)
  then have free: "holder (mutexes s b) = Free" by (simp split: if_splits)
  with CloLockMutex.prems have "goes_alone t s
      (PUnlockedHolds fr h (Guard b False) (InCritical (f (poisoned (mutexes s b)))) k)
      (front_exclusive_mut (cq s), (mutexes s)(b := lock t (mutexes s b)), queue_poisoned (mx s))"
    by (intro goes_alone_one) (simp add: closure_alone_defs)
  then show ?case
    by (rule goes_alone_then) (rule CloLockMutex.IH [OF rangeI, where ms = "mutexes s"],
      use CloLockMutex.prems free in \<open>simp_all add: ran_alone_def\<close>)
next
  case (CloIsQueuePoisoned b f)
  let ?out = "if b = a then Returned (queue_poisoned (mx s)) else Unwound WrongMutex"
  note prems = CloIsQueuePoisoned.prems
  have "goes_alone t s1 (PUnlockRelock fr h out k) w"
    if s1: "ran_alone t s (PUnlocked fr h (f ?out) k) (front_exclusive_mut (cq s), mutexes s, queue_poisoned (mx s)) s1"
    for s1
    by (rule CloIsQueuePoisoned.IH [OF rangeI [of f ?out]]) (use s1 prems in \<open>simp_all add: ran_alone_def\<close>)
  then show ?case by (rule goes_alone_then [OF accessors_alone(1) [OF prems(1,3-6,2)]])
next
  case (CloClearQueuePoison b f)
  let ?out = "if b = a then Returned () else Unwound WrongMutex"
  note prems = CloClearQueuePoison.prems
  have "goes_alone t s1 (PUnlockRelock fr h out k) w"
    if s1: "ran_alone t s (PUnlocked fr h (f ?out) k)
      (front_exclusive_mut (cq s), mutexes s, queue_poisoned (mx s) \<and> b \<noteq> a) s1" for s1
    by (rule CloClearQueuePoison.IH [OF rangeI [of f ?out]])
      (use s1 prems in \<open>cases "b = a"; simp add: ran_alone_def\<close>)+
  then show ?case by (rule goes_alone_then [OF accessors_alone(2) [OF prems(1,3-6,2)]])
next
  case (CritReadState f)
  then have "goes_alone t s (PUnlockedHolds fr h (Guard b False) (InCritical (f (data (ms b)))) k)
      (front_exclusive_mut (cq s), mutexes s, queue_poisoned (mx s))"
    by (intro goes_alone_one) (simp add: closure_alone_defs)
  then show ?case
    by (rule goes_alone_then) (rule CritReadState.IH [OF rangeI, where ms = ms],
      use CritReadState.prems in \<open>simp_all add: ran_alone_def\<close>)
next
  case (CritWriteState m c)
  let ?ms = "ms(b := (ms b)\<lparr>data := m\<rparr>)"
  have "(mutexes s)(b := (mutexes s b)\<lparr>data := m\<rparr>) = ?ms(b := lock t (?ms b))"
    using CritWriteState.prems(6) by (cases "ms b") (auto simp: lock_def fun_eq_iff)
  with CritWriteState.prems have "goes_alone t s (PUnlockedHolds fr h (Guard b False) (InCritical c) k)
      (front_exclusive_mut (cq s), ?ms(b := lock t (?ms b)), queue_poisoned (mx s))"
    by (intro goes_alone_one) (simp add: closure_alone_defs del: fun_upd_apply)
  then show ?case
  proof (rule goes_alone_then)
    fix s1
    assume s1: "ran_alone t s (PUnlockedHolds fr h (Guard b False) (InCritical c) k)
      (front_exclusive_mut (cq s), ?ms(b := lock t (?ms b)), queue_poisoned (mx s)) s1"
    have "holder (?ms a) = Free" using CritWriteState.prems(7,8) by simp
    with s1 CritWriteState.prems show "goes_alone t s1 (PUnlockRelock fr h out k) w"
      by (intro CritWriteState.IH [of s1 b ?ms])
        (simp_all add: ran_alone_def fun_upd_same del: fun_upd_apply)
  qed
next
  case (CritReadFront f)
  then have "goes_alone t s
      (PUnlockedHolds fr h (Guard b False) (InCritical (f (front_exclusive_mut (cq s)))) k)
      (front_exclusive_mut (cq s), mutexes s, queue_poisoned (mx s))"
    by (intro goes_alone_one) (simp add: closure_alone_defs)
  then show ?case
    by (rule goes_alone_then) (rule CritReadFront.IH [OF rangeI, where ms = ms],
      use CritReadFront.prems in \<open>simp_all add: ran_alone_def\<close>)
next
  case (CritWriteFront fs c)
  then have "goes_alone t s (PUnlockedHolds fr h (Guard b False) (InCritical c) k)
      (fs, mutexes s, queue_poisoned (mx s))"
    by (intro goes_alone_one) (simp add: closure_alone_defs)
  then show ?case
    by (rule goes_alone_then) (rule CritWriteFront.IH [where ms = ms],
      use CritWriteFront.prems in \<open>simp_all add: ran_alone_def\<close>)
next
  case (CritDrop clo)
  then have "goes_alone t s (PUnlocked fr h clo k)
      (front_exclusive_mut (cq s), ms, queue_poisoned (mx s))"
    by (intro goes_alone_one) (simp add: closure_alone_defs drop_guard_lock fun_eq_iff)
  then show ?case
    by (rule goes_alone_then) (rule CritDrop.IH, use CritDrop.prems in \<open>simp_all add: ran_alone_def\<close>)
next
  case (CritForget clo)
  then show ?case by simp
next
  case (CritPanic n)
  then have "drop_guard True (Guard b False) (lock t (ms b)) = (ms b)\<lparr>poisoned := True\<rparr>"
    by (cases "ms b") (simp add: drop_guard_def lock_def)
  with CritPanic show ?case by (intro goes_alone_one) (auto simp: closure_alone_defs fun_eq_iff)
qed

section \<open>The callback\<close>

text \<open>
  A thread that has the mutex and meets an empty queue in its callback. \<open>ms\<close> are the mutexes as
  they are with \<open>a\<close> free.
\<close>

abbreviation held_by :: "tid \<Rightarrow> addr \<Rightarrow> (addr \<Rightarrow> 'm mutex) \<Rightarrow> addr \<Rightarrow> 'm mutex" where
  "held_by t a ms \<equiv> ms(a := lock t (ms a))"

definition in_callback ::
  "tid \<Rightarrow> addr \<Rightarrow> ('v, 'fs, 'm, 'u, 'r) frame \<Rightarrow> ('v, 'fs, 'm, 'u, 'r) callback \<Rightarrow>
     ('fs, 'm) world \<Rightarrow> ('v, 'fs, 'm, 'u, 'r) sys \<Rightarrow> bool" where
  "in_callback t a fr cb w s \<longleftrightarrow>
     status s = Running \<and> queue (mx s) = [] \<and> mutex_address (cq s) = a \<and> a \<noteq> 0 \<and> mutex_size s > 0 \<and>
     front_exclusive_mut (cq s) = fst w \<and> mutexes s = held_by t a (fst (snd w)) \<and>
     holder (fst (snd w) a) = Free \<and> queue_poisoned (mx s) = snd (snd w) \<and>
     (\<exists>h g. pcs s t = PCallback fr h cb \<and> qh_guard h = Init g \<and> guard_mutex g = a \<and>
       ns_get (qh_mutex h) = a \<and> mutex_exclusive_guard h = Init ())"

definition held_world :: "tid \<Rightarrow> addr \<Rightarrow> ('fs, 'm) world \<Rightarrow> ('fs, 'm) world" where
  "held_world t a w = (fst w, held_by t a (fst (snd w)), snd (snd w))"

text \<open>One method of the handle: the callback goes on in the world given.\<close>

definition moves_to ::
  "tid \<Rightarrow> addr \<Rightarrow> ('v, 'fs, 'm, 'u, 'r) frame \<Rightarrow> ('v, 'fs, 'm, 'u, 'r) sys \<Rightarrow>
     ('v, 'fs, 'm, 'u, 'r) callback \<Rightarrow> ('fs, 'm) world \<Rightarrow> bool" where
  "moves_to t a fr s cb w \<longleftrightarrow>
     (\<exists>n s1 h. run (alone t n) s = Some s1 \<and> in_callback t a fr cb w s1 \<and>
        ran_alone t s (PCallback fr h cb) (held_world t a w) s1)"

definition finishes ::
  "tid \<Rightarrow> addr \<Rightarrow> ('v, 'fs, 'm, 'u, 'r) frame \<Rightarrow> ('v, 'fs, 'm, 'u, 'r) sys \<Rightarrow>
     'r \<Rightarrow> ('fs, 'm) world \<Rightarrow> bool" where
  "finishes t a fr s r w \<longleftrightarrow>
     (\<exists>n s'. run (alone t n) s = Some s' \<and>
        (\<exists>g. guard_mutex g = a \<and> ran_alone t s (PHandoff fr g (Processed r)) (held_world t a w) s'))"

lemma finishes_then:
  assumes "moves_to t a fr s cb w1"
    and "\<And>s1. in_callback t a fr cb w1 s1 \<Longrightarrow> finishes t a fr s1 r w"
  shows "finishes t a fr s r w"
proof -
  obtain i s1 h where s1: "run (alone t i) s = Some s1" "in_callback t a fr cb w1 s1"
    "ran_alone t s (PCallback fr h cb) (held_world t a w1) s1"
    using assms(1) by (auto simp: moves_to_def)
  from assms(2) [OF s1(2)] have "\<exists>n s'. run (alone t n) s1 = Some s' \<and>
      (\<exists>g. guard_mutex g = a \<and> ran_alone t s (PHandoff fr g (Processed r)) (held_world t a w) s')"
    using ran_alone_trans [OF s1(3)] unfolding finishes_def by blast
  then show ?thesis unfolding finishes_def by (rule run_alone_append [OF s1(1)])
qed

text \<open>Every method but \<open>unlocked\<close> is one step.\<close>

fun simple_next :: "('v, 'fs, 'm, 'u, 'r) callback \<Rightarrow> addr \<Rightarrow> ('fs, 'm) world \<Rightarrow>
    (('v, 'fs, 'm, 'u, 'r) callback \<times> ('fs, 'm) world) option" where
  "simple_next (CbReadFront k) a (fs, ms, qp) = Some (k fs, fs, ms, qp)"
| "simple_next (CbWriteFront fs' cb) a (fs, ms, qp) = Some (cb, fs', ms, qp)"
| "simple_next (CbPeek k) a (fs, ms, qp) = Some (k (Returned None), fs, ms, qp)"
| "simple_next (CbPop k) a (fs, ms, qp) = Some (k (Returned None), fs, ms, qp)"
| "simple_next (CbMutexState k) a (fs, ms, qp) = Some (k (data (ms a)), fs, ms, qp)"
| "simple_next (CbMutexStateMut m cb) a (fs, ms, qp) = Some (cb, fs, ms(a := (ms a)\<lparr>data := m\<rparr>), qp)"
| "simple_next (CbIsQueuePoisoned k) a (fs, ms, qp) = Some (k qp, fs, ms, qp)"
| "simple_next (CbClearQueuePoison cb) a (fs, ms, qp) = Some (cb, fs, ms, False)"
| "simple_next _ a w = None"

lemma simple_moves:
  assumes s: "in_callback t a fr cb w s" and nxt: "simple_next cb a w = Some (cb', w')"
  shows "moves_to t a fr s cb' w'"
proof -
  obtain h g where h: "pcs s t = PCallback fr h cb" "qh_guard h = Init g" "guard_mutex g = a"
    "ns_get (qh_mutex h) = a" "mutex_exclusive_guard h = Init ()"
    using s by (auto simp: in_callback_def)
  obtain fs ms qp where w: "w = (fs, ms, qp)" by (cases w)
  have run: "status s = Running" "queue (mx s) = []" "mutex_address (cq s) = a" "a \<noteq> 0" "mutex_size s > 0"
    "front_exclusive_mut (cq s) = fs" "mutexes s = held_by t a ms" "holder (ms a) = Free"
    "queue_poisoned (mx s) = qp"
    using s by (simp_all add: in_callback_def w)
  let ?s = "step_callback t fr h cb s"
  have "run (alone t 1) s = Some ?s" using run h by (simp add: thread_step_def step_pc_def)
  moreover have "in_callback t a fr cb' w' ?s \<and> ran_alone t s (PCallback fr h cb') (held_world t a w') ?s"
    using nxt run h unfolding w
    by (cases cb)
      (auto simp: step_callback_def in_callback_def ran_alone_def held_world_def handle_peek_def
        handle_pop_def vd_get_def handle_mutex_state_def handle_mutex_state_mut_def
        handle_is_queue_poisoned_def handle_clear_queue_poison_def Let_def lock_def fun_eq_iff)
  ultimately show ?thesis unfolding moves_to_def by blast
qed

text \<open>\<open>unlocked\<close>: unlock, run the closure, lock again.\<close>

lemma held_by_drop: "holder (ms a) = Free \<Longrightarrow> ms(a := drop_guard False g (lock t (ms a))) = ms"
  by (simp add: drop_guard_lock)

lemma unlocked_moves:
  assumes s: "in_callback t a fr (CbUnlocked clo k) (fs, ms, qp) s"
    and clo: "solo_closure clo a fs ms qp = Some (out, w)"
  shows "moves_to t a fr s (k out) w"
proof -
  obtain h g where h: "pcs s t = PCallback fr h (CbUnlocked clo k)" "qh_guard h = Init g" "guard_mutex g = a"
    "ns_get (qh_mutex h) = a" "mutex_exclusive_guard h = Init ()"
    using s by (auto simp: in_callback_def)
  have run: "status s = Running" "queue (mx s) = []" "mutex_address (cq s) = a" "a \<noteq> 0" "mutex_size s > 0"
    "front_exclusive_mut (cq s) = fs" "mutexes s = held_by t a ms" "holder (ms a) = Free"
    "queue_poisoned (mx s) = qp"
    using s by (simp_all add: in_callback_def)
  obtain fs' ms' qp' where w: "w = (fs', ms', qp')" by (cases w)
  have free: "holder (ms' a) = Free" using solo_closure_holder [OF clo [unfolded w], of a] run(8) by simp
  let ?h = "snd (relock_new h)"
  let ?s1 = "set_pc t (PUnlocked fr ?h clo k) (dropping False g s)"
  have s1: "run (alone t 1) s = Some ?s1"
    using run h by (simp add: thread_step_def step_pc_def step_callback_def relock_new_def)
  have ms: "mutexes ?s1 = ms" using run h by (simp add: held_by_drop)
  have "goes_alone t ?s1 (PUnlockRelock fr ?h out k) w"
    by (rule solo_closure_runs) (use run ms clo in simp_all)
  then obtain n s2 where s2: "run (alone t n) ?s1 = Some s2"
    "ran_alone t ?s1 (PUnlockRelock fr ?h out k) w s2" unfolding goes_alone_def by blast
  let ?g = "Guard a (case out of Returned _ \<Rightarrow> False | Unwound _ \<Rightarrow> True)"
  let ?s3 = "set_pc t (PCallback fr (relock_drop ?g ?h) (k out)) (upd_mutex a (lock t) s2)"
  have s3: "run (alone t 1) s2 = Some ?s3"
    using s2(2) run h free
    by (simp add: thread_step_def step_pc_def step_unlock_relock_def with_lock_def ran_alone_def
        relock_new_def Let_def w)
  have "run (alone t (1 + (n + 1))) s = Some ?s3"
    unfolding replicate_add by (rule run_then [OF s1 run_then [OF s2(1) s3]])
  moreover have "ran_alone t s (PCallback fr (relock_drop ?g ?h) (k out)) (held_world t a w) ?s3"
    using s2(2) by (simp add: ran_alone_def held_world_def w)
  moreover have "in_callback t a fr (k out) w ?s3"
    using s2(2) run h free
    by (simp add: in_callback_def ran_alone_def relock_drop_def relock_new_def w)
  ultimately show ?thesis unfolding moves_to_def by blast
qed

lemma solo_finishes:
  assumes "in_callback t a fr cb (fs, ms, qp) s" and "solo cb a fs ms qp = (Some r, w)"
  shows "finishes t a fr s r w"
  using assms
proof (induction cb arbitrary: s fs ms qp)
  case (CbReturn x)
  then obtain h g where h: "pcs s t = PCallback fr h (CbReturn x)" "qh_guard h = Init g" "guard_mutex g = a"
    and run: "status s = Running" by (auto simp: in_callback_def)
  have "run (alone t 1) s = Some (set_pc t (PHandoff fr g (Processed x)) s)"
    using h run by (simp add: thread_step_def step_pc_def step_callback_def)
  moreover have "ran_alone t s (PHandoff fr g (Processed r)) (held_world t a w)
      (set_pc t (PHandoff fr g (Processed x)) s)"
    using CbReturn.prems by (auto simp: ran_alone_def held_world_def in_callback_def)
  ultimately show ?case unfolding finishes_def using h(3) by blast
next
  case (CbUnlocked clo k)
  then obtain out fs1 ms1 qp1 where clo: "solo_closure clo a fs ms qp = Some (out, fs1, ms1, qp1)"
    by (auto split: option.splits)
  show ?case
    by (rule finishes_then [OF unlocked_moves [OF CbUnlocked.prems(1) clo]],
        rule CbUnlocked.IH [OF rangeI]) (use CbUnlocked.prems(2) clo in auto)
next
  case (CbReadFront k)
  show ?case
    by (rule finishes_then [OF simple_moves [OF CbReadFront.prems(1)]], simp, rule CbReadFront.IH [OF rangeI])
      (use CbReadFront.prems(2) in auto)
next
  case (CbWriteFront fs1 cb)
  show ?case
    by (rule finishes_then [OF simple_moves [OF CbWriteFront.prems(1)]], simp, rule CbWriteFront.IH)
      (use CbWriteFront.prems(2) in auto)
next
  case (CbPeek k)
  show ?case
    by (rule finishes_then [OF simple_moves [OF CbPeek.prems(1)]], simp, rule CbPeek.IH [OF rangeI])
      (use CbPeek.prems(2) in auto)
next
  case (CbPop k)
  show ?case
    by (rule finishes_then [OF simple_moves [OF CbPop.prems(1)]], simp, rule CbPop.IH [OF rangeI])
      (use CbPop.prems(2) in auto)
next
  case (CbMutexState k)
  show ?case
    by (rule finishes_then [OF simple_moves [OF CbMutexState.prems(1)]], simp, rule CbMutexState.IH [OF rangeI])
      (use CbMutexState.prems(2) in auto)
next
  case (CbMutexStateMut m cb)
  show ?case
    by (rule finishes_then [OF simple_moves [OF CbMutexStateMut.prems(1)]], rule simple_next.simps,
        rule CbMutexStateMut.IH) (use CbMutexStateMut.prems(2) in \<open>simp_all del: fun_upd_apply\<close>)
next
  case (CbIsQueuePoisoned k)
  show ?case
    by (rule finishes_then [OF simple_moves [OF CbIsQueuePoisoned.prems(1)]], simp, rule CbIsQueuePoisoned.IH [OF rangeI])
      (use CbIsQueuePoisoned.prems(2) in auto)
next
  case (CbClearQueuePoison cb)
  show ?case
    by (rule finishes_then [OF simple_moves [OF CbClearQueuePoison.prems(1)]], rule simple_next.simps,
        rule CbClearQueuePoison.IH) (use CbClearQueuePoison.prems(2) in auto)
qed simp

lemma solo_holder:
  "solo cb a fs ms qp = (x, fs', ms', qp') \<Longrightarrow> holder (ms' b) = holder (ms b)"
proof (induction cb arbitrary: fs ms qp)
  case (CbMutexStateMut m cb)
  have "holder (ms' b) = holder ((ms(a := (ms a)\<lparr>data := m\<rparr>)) b)"
    using CbMutexStateMut.IH [of fs "ms(a := (ms a)\<lparr>data := m\<rparr>)" qp] CbMutexStateMut.prems
    by (simp del: fun_upd_apply)
  then show ?case by (simp split: if_splits)
next
  case (CbUnlocked clo k)
  show ?case
  proof (cases "solo_closure clo a fs ms qp")
    case (Some y)
    obtain out fs1 ms1 qp1 where y: "y = (out, fs1, ms1, qp1)" by (cases y)
    from CbUnlocked.IH [OF rangeI] CbUnlocked.prems Some y
    have "holder (ms' b) = holder (ms1 b)" by simp
    with solo_closure_holder [OF Some [unfolded y], of b] show ?thesis by simp
  qed (use CbUnlocked.prems in simp)
qed (auto, (metis rangeI)+)

section \<open>The whole call\<close>

text \<open>
  C15. An uncontended call: when a thread calls \<open>lock_and_process\<close> in a reachable state in
  which the queue's mutex is free and not poisoned and nobody owns the front permission, and
  the callback by itself returns \<open>r\<close>, then the steps of this thread alone end the call, it
  returns \<open>Processed(r)\<close>, the front state, the mutexes and the queue's poison flag are what the
  callback left, the mutex is free again, the permission is released, the queue is empty and
  bound to this mutex, and nothing else has changed.
\<close>

theorem uncontended_call:
  assumes r: "reachable fs opts msize esize ms clients s" and run: "status s = Running"
    and pc: "pcs s t = PClient (CallLockAndProcess a v task k)"
    and free: "holder (mutexes s a) = Free" "\<not> poisoned (mutexes s a)"
    and idle: "\<not> front_locked (mx s)"
    and addr: "mutex_address (cq s) = 0 \<or> mutex_address (cq s) = a" "mutex_size s > 0"
    and solo: "solo (task v) a (front_exclusive_mut (cq s)) (mutexes s) (queue_poisoned (mx s)) =
      (Some x, fs', ms', qp')"
  shows "\<exists>n s'. run (alone t n) s = Some s' \<and> status s' = Running \<and>
    pcs s' = (pcs s)(t := PClient (k (Returned (Processed x)))) \<and> frames s' = frames s \<and>
    mutexes s' = ms' \<and> holder (ms' a) = Free \<and>
    mx s' = (mx s)\<lparr>queue_poisoned := qp'\<rparr> \<and> queue (mx s') = [] \<and>
    front_exclusive_mut (cq s') = fs' \<and> mutex_address (cq s') = a"
proof -
  let ?fr = "Frame a v task (ByLockAndProcess k)" and ?g = "Guard a False"
  let ?q = "put_mutex_exclusive ((mx s)\<lparr>front_locked := True\<rparr>) ((cq s)\<lparr>mutex_address := a\<rparr>)"
  let ?s1 = "set_pc t (PCallback ?fr (handle_new a ?g) (task v)) (upd_mutex a (lock t) (s\<lparr>cq := ?q\<rparr>))"
  have empty: "queue (mx s) = []" using queue_nonempty_locked [OF reachable_inv [OF r]] idle by blast
  have "a \<noteq> 0" using invD(4) [OF reachable_inv [OF r], of t] pc by simp
  have s1: "run (alone t 5) s = Some ?s1"
    using run pc free idle addr
    by (simp add: numeral_eq_Suc thread_step_def step_pc_def step_client_def step_lock_def with_lock_def
        step_assert_def assert_mutex_good_eq step_acquire_def try_acquire_front_fast_def
        step_mutex_poison_def Let_def)
  have "in_callback t a ?fr (task v)
      (front_exclusive_mut (cq s), mutexes s, queue_poisoned (mx s)) ?s1"
    using run empty addr free \<open>a \<noteq> 0\<close> by (simp add: in_callback_def ns_new_def)
  then have "finishes t a ?fr ?s1 x (fs', ms', qp')" by (rule solo_finishes) (rule solo)
  then obtain n s2 g where s2: "run (alone t n) ?s1 = Some s2" "guard_mutex g = a"
    "ran_alone t ?s1 (PHandoff ?fr g (Processed x)) (fs', held_by t a ms', qp') s2"
    unfolding finishes_def held_world_def by auto
  let ?s3 = "set_pc t (PClient (k (Returned (Processed x)))) (dropping False g
    (set_mx ((mx s2)\<lparr>front_locked := False\<rparr>) s2))"
  have "run (alone t 2) s2 = Some ?s3"
    using s2(3) run empty
    by (simp add: ran_alone_def numeral_eq_Suc thread_step_def step_pc_def step_handoff_def
        finish_ok_def transfer_front_Nil step_return_def)
  then have "run (alone t (5 + (n + 2))) s = Some ?s3"
    unfolding replicate_add by (rule run_then [OF s1 run_then [OF s2(1)]])
  moreover have "(mx s)\<lparr>queue_poisoned := qp', front_locked := False\<rparr> = (mx s)\<lparr>queue_poisoned := qp'\<rparr>"
    using idle by (cases "mx s") simp
  moreover have free': "holder (ms' a) = Free" using solo_holder [OF solo, of a] free(1) by simp
  moreover have "mutexes ?s3 = ms'" using s2 free' by (simp add: ran_alone_def held_by_drop)
  ultimately show ?thesis
    using s2 empty run by (intro exI [of _ "5 + (n + 2)"] exI [of _ ?s3]) (simp add: ran_alone_def)
qed

text \<open>A callback that locks the mutex again in a closure of \<open>unlocked\<close> and adds its value to the data.\<close>

definition adding_task :: "(nat, nat, nat, nat, nat) ProcessTask" where
  "adding_task v = CbUnlocked
     (CloLockMutex 8 (\<lambda>p. CritReadState (\<lambda>m. CritWriteState (m + v) (CritDrop
       (CloIsQueuePoisoned 8 (\<lambda>out. CloReturn 0))))))
     (\<lambda>out. CbMutexState CbReturn)"

definition adding_start :: ex_sys where
  "adding_start = initial 0 default_options 8 8 (\<lambda>_. 1)
     (\<lambda>t. if t = 0 then CallLockAndProcess 8 10 adding_task (\<lambda>_. Exit) else Exit)"

lemma adding_reachable:
  "reachable 0 default_options 8 8 (\<lambda>_. 1)
     (\<lambda>t. if t = 0 then CallLockAndProcess 8 10 adding_task (\<lambda>_. Exit) else Exit) adding_start"
  by (auto simp: reachable_def adding_start_def intro: reach_refl)

theorem uncontended_call_witness:
  "\<exists>n s'. run (alone 0 n) adding_start = Some s' \<and> pcs s' 0 = PClient Exit \<and>
     data (mutexes s' 8) = 11 \<and> mutex_address (cq s') = 8"
proof -
  let ?ms = "(mutexes adding_start)(8 := (mutexes adding_start 8)\<lparr>data := 11\<rparr>)"
  have start: "solo (adding_task 10) 8 0 (mutexes adding_start) False = (Some 11, 0, ?ms, False)"
    "status adding_start = Running"
    "pcs adding_start 0 = PClient (CallLockAndProcess 8 10 adding_task (\<lambda>_. Exit))"
    "holder (mutexes adding_start 8) = Free" "\<not> poisoned (mutexes adding_start 8)"
    "\<not> front_locked (mx adding_start)" "mutex_address (cq adding_start) = 0"
    "mutex_size adding_start > 0" "front_exclusive_mut (cq adding_start) = 0"
    "\<not> queue_poisoned (mx adding_start)"
    by (simp_all add: adding_start_def initial_def new_with_options_def mutex_exclusive_mut_def
        front_exclusive_mut_def adding_task_def)
  then obtain n s' where "run (alone 0 n) adding_start = Some s'"
    "pcs s' = (pcs adding_start)(0 := PClient Exit)" "mutexes s' = ?ms" "mutex_address (cq s') = 8"
    using uncontended_call [OF adding_reachable, of 0 8 10 adding_task "\<lambda>_. Exit" 11 0 ?ms False]
    by (auto simp del: fun_upd_apply)
  then show ?thesis by (intro exI [of _ n] exI [of _ s']) simp
qed

end
