(* ===== verification/Errors.thy ===== *)
theory Errors
  imports Uncontended
begin

text \<open>
  The error paths: a mutex other than the first one, poisoned mutexes and queues, and a failing
  allocation; and the two accessors of the queue's poison.
\<close>

section \<open>The mutex of a queue\<close>

lemma address_step:
  assumes "step_pc ch u p s = Some s'" and "mutex_address (cq s) = a" "a \<noteq> 0"
  shows "mutex_address (cq s') = a"
  using assms
  by (cases p)
    (auto simp: machine_defs assert_mutex_good_eq
      try_acquire_front_fast_def
      split: machine_splits)

definition bound_to :: "addr \<Rightarrow> ('v, 'fs, 'm, 'u, 'r) sys \<Rightarrow> bool" where
  "bound_to a s \<longleftrightarrow> sys_inv s \<and> mutex_address (cq s) = a \<and> a \<noteq> 0"

lemma bound_to_step:
  assumes "sys_step s s'" "bound_to a s" shows "bound_to a s'"
proof -
  from assms(1) obtain ch u where "step_pc ch u (pcs s u) s = Some s'"
    by (auto simp: thread_step_def elim!: sys_stepE split: if_splits)
  from address_step [OF this] sys_inv_step [OF assms(1)] assms(2) show ?thesis
    by (simp add: bound_to_def)
qed

interpretation bound_to: invariant sys_step "bound_to a"
  by unfold_locales (rule bound_to_step)

text \<open>
  C31. A queue keeps its first mutex: once a call has passed the mutex check with a mutex, the
  queue stays bound to it, every call that is past the check uses it, and a call of \<open>process\<close>
  with another mutex panics, drops its guard while panicking and does not touch the queue.
\<close>

theorem first_mutex_binds:
  assumes r: "reachable fs opts msize esize ms clients s" and addr: "mutex_address (cq s) = a" "a \<noteq> 0"
    and later: "reach sys_step s s'"
  shows "mutex_address (cq s') = a \<and> (\<forall>t b. bound (pcs s' t) = Some b \<longrightarrow> b = a) \<and>
    (\<forall>t fr g ch. status s' = Running \<and> pcs s' t = PAssert fr g \<and> fr_mutex fr \<noteq> a \<longrightarrow>
      thread_step ch t s' = Some (leave_unwinding t fr WrongMutex (dropping True g s')))"
proof -
  have "bound_to a s" using reachable_inv [OF r] addr by (simp add: bound_to_def)
  with later have "bound_to a s'" by (rule bound_to.reach_inv)
  then have inv: "sys_inv s'" and a: "mutex_address (cq s') = a" by (simp_all add: bound_to_def)
  have "thread_step ch t s' = Some (leave_unwinding t fr WrongMutex (dropping True g s'))"
    if "status s' = Running" "pcs s' t = PAssert fr g" "fr_mutex fr \<noteq> a" for t fr g ch
    using that a addr(2)
    by (simp add: thread_step_pc step_pc_def step_assert_def assert_mutex_good_eq)
  with invD(3) [OF inv] a show ?thesis by blast
qed

theorem first_mutex_binds_witness:
  "mutex_address (cq ex_checked) = 8 \<and> mutex_address (cq ex_finished) = 8"
  using first_mutex_binds [OF ex_reachable_states(5), of 8 ex_checked]
    first_mutex_binds [OF ex_reachable_states(5), of 8 ex_finished]
    run_reach [OF ex_run_checked] run_reach [OF run_then [OF ex_run_checked ex_run_finished]]
  by (simp add: ex_woken_def)

section \<open>Poison\<close>

text \<open>
  \<open>lock_and_process\<close> on a poisoned mutex: with \<open>unwrap_mutex_poison\<close> the call panics, the
  mutex is unlocked again and stays poisoned, and the queue is not touched; without it the call
  goes on with the guard. On a mutex that is not poisoned it always goes on.
\<close>

theorem lock_and_process_poison:
  assumes "status s = Running" "pcs s t = PLock fr" "holder (mutexes s (fr_mutex fr)) = Free"
  shows "thread_step ch t s = Some
    (if unwrap_mutex_poison (options (cq s)) \<and> poisoned (mutexes s (fr_mutex fr))
     then leave_unwinding t fr PoisonedMutex s
     else set_pc t (PAssert fr (Guard (fr_mutex fr) False)) (upd_mutex (fr_mutex fr) (lock t) s))"
  using assms
  by (simp add: thread_step_pc step_pc_def step_lock_def with_lock_def Let_def drop_guard_lock)

theorem lock_and_process_poison_witness:
  "\<exists>s'. run (by_threads [0, 0]) ex_start = Some s' \<and>
     pcs s' 0 = PAssert (ex_frame 10) (Guard 8 False)"
proof -
  let ?s = "set_pc 0 (PLock (ex_frame 10)) ex_start"
  have "thread_step Normal 0 ex_start = Some ?s"
    by (simp add: thread_step_def step_pc_def step_client_def ex_start_def initial_def
        ex_clients_def ex_frame_def)
  moreover have "thread_step Normal 0 ?s = Some (set_pc 0 (PAssert (ex_frame 10) (Guard 8 False))
      (upd_mutex 8 (lock 0) ?s))"
    using lock_and_process_poison [of ?s 0 "ex_frame 10" Normal]
    by (simp add: ex_frame_def ex_start_def initial_def)
  ultimately show ?thesis by (simp add: by_threads_def)
qed

text \<open>
  The checks after the front permission is acquired. On the slow path, with
  \<open>unwrap_queue_poison\<close> a poisoned queue makes the call panic whatever the fate of its task;
  before the callback, with \<open>unwrap_mutex_poison\<close> a poisoned mutex makes it panic. Both drop
  the guard while panicking, which poisons the mutex unless the guard was made while panicking,
  and go to the \<open>Err\<close> branch; otherwise the call goes on without touching the queue.
\<close>

theorem poison_checks:
  assumes "status s = Running"
  shows "(pcs s t = PQueuePoison fr g w \<longrightarrow>
      (\<exists>p s'. thread_step ch t s = Some s' \<and> frames s' = (frames s)(t := None) \<and> cq s' = cq s \<and>
        pcs s' = (pcs s)(t := p) \<and>
        (if unwrap_queue_poison (options (cq s)) \<and> queue_poisoned (mx s)
         then p = PErrLock fr QueuePoisoned \<and>
           mutexes s' = (mutexes s)(guard_mutex g := drop_guard True g (mutexes s (guard_mutex g)))
         else mutexes s' = mutexes s \<and>
           p = (case w of WaitProcess v \<Rightarrow> PMutexPoison fr g v
                | WaitProcessedElsewhere \<Rightarrow> PHandoff fr g ProcessedElsewhere
                | WaitProcessingPanicked \<Rightarrow> PHandoff fr g ProcessingPanicked)))) \<and>
    (pcs s t = PMutexPoison fr g v \<longrightarrow>
      thread_step ch t s = Some
        (if unwrap_mutex_poison (options (cq s)) \<and> poisoned (mutexes s (fr_mutex fr))
         then set_pc t (PErrLock fr MutexPoisoned) (dropping True g s)
         else set_pc t (PCallback fr (handle_new (fr_mutex fr) g) (fr_task fr v)) s))"
  using assms
  by (auto simp: thread_step_pc step_pc_def step_queue_poison_def step_mutex_poison_def Let_def)

theorem poison_checks_witness:
  "\<exists>s'. thread_step Normal 0 (set_pc 0 (PQueuePoison poison_frame ex_guard WaitProcessedElsewhere)
       (set_mx ((ex_mx [])\<lparr>queue_poisoned := True\<rparr>) poison_leaving)) = Some s' \<and>
     pcs s' 0 = PErrLock poison_frame QueuePoisoned \<and> holder (mutexes s' 8) = Free"
  using poison_checks [of "set_pc 0 (PQueuePoison poison_frame ex_guard WaitProcessedElsewhere)
       (set_mx ((ex_mx [])\<lparr>queue_poisoned := True\<rparr>) poison_leaving)" 0 poison_frame ex_guard
       WaitProcessedElsewhere Normal]
  by (auto simp: poison_leaving_def default_options_def ex_guard_def)

text \<open>
  C37. The accessors: when the mutex is free and passes the check, \<open>is_queue_poisoned\<close> and
  \<open>clear_queue_poison\<close> end after the steps of the calling thread, ignoring the mutex's poison;
  the first returns the queue's poison flag and changes nothing else than binding the mutex,
  the second clears the flag.
\<close>

theorem poison_accessors:
  assumes run: "status s = Running" and free: "holder (mutexes s a) = Free"
    and addr: "mutex_address (cq s) = 0 \<or> mutex_address (cq s) = a" "mutex_size s > 0"
  shows "(pcs s t = PClient (CallIsQueuePoisoned a k) \<longrightarrow>
      run (alone t 3) s = Some (set_pc t (PClient (k (Returned (queue_poisoned (mx s)))))
        (s\<lparr>cq := (cq s)\<lparr>mutex_address := a\<rparr>\<rparr>))) \<and>
    (pcs s t = PClient (CallClearQueuePoison a k') \<longrightarrow>
      run (alone t 3) s = Some (set_pc t (PClient (k' (Returned ())))
        (s\<lparr>cq := put_mutex_exclusive ((mx s)\<lparr>queue_poisoned := False\<rparr>) ((cq s)\<lparr>mutex_address := a\<rparr>)\<rparr>)))"
  using assms
  by (auto simp: numeral_eq_Suc thread_step_def step_pc_def step_client_def step_is_lock_def
      step_is_read_def step_clear_lock_def step_clear_write_def with_lock_def assert_mutex_good_eq
      Let_def drop_guard_lock intro!: sys.equality)

definition accessor_start :: ex_sys where
  "accessor_start = set_pc 0 (PClient (CallIsQueuePoisoned 8 (\<lambda>_. Exit))) ex_finished"

theorem poison_accessors_witness:
  "\<exists>s'. run (alone 0 3) accessor_start = Some s' \<and> pcs s' 0 = PClient Exit"
  using poison_accessors [of accessor_start 8 0 "\<lambda>_. Exit"]
  by (simp add: accessor_start_def ex_finished_def) (simp add: ex_state_def)

section \<open>Allocation\<close>

text \<open>
  A push that fails, because the allocator fails or the queue is as long as one allocation
  can hold, aborts the process: nothing unwinds past the push, so no thread runs after it.
  A push that succeeds appends the task and leaves the rest of the queue's state alone.
\<close>

theorem push_aborts_or_appends:
  assumes "status s = Running" "pcs s t = PPush fr g"
  shows "if ch = AllocFails \<or> max_len (elem_size s) \<le> length (queue (mx s))
    then thread_step ch t s = Some (s\<lparr>status := Aborted\<rparr>) \<and>
      (\<forall>s'. \<not> sys_step (s\<lparr>status := Aborted\<rparr>) s')
    else thread_step ch t s = Some (set_pc t (PWait fr g) (set_mx ((mx s)\<lparr>queue :=
      queue (mx s) @ [erased_new \<lparr>task_state = t, task_value = Some (fr_value fr)\<rparr>]\<rparr>) s))"
  using assms
  by (auto simp: thread_step_pc step_pc_def step_push_def push_task_def vd_push_back_def Let_def
      thread_step_def elim!: sys_stepE)

definition push_start :: ex_sys where
  "push_start = ex_state (Held 1) (ex_mx []) [1 \<mapsto> TaskState_new] (PClient Exit)
     (PPush (ex_frame 11) ex_guard)"

theorem push_aborts_or_appends_witness:
  "thread_step AllocFails 1 push_start = Some (push_start\<lparr>status := Aborted\<rparr>) \<and>
   (\<exists>s'. thread_step Normal 1 push_start = Some s' \<and> queue (mx s') = [ex_task (Some 11)])"
proof -
  have "max_len (elem_size push_start) > 0" by (simp add: push_start_def ex_state_def max_len_def)
  then show ?thesis
    using push_aborts_or_appends [of push_start 1 "ex_frame 11" ex_guard AllocFails]
      push_aborts_or_appends [of push_start 1 "ex_frame 11" ex_guard Normal]
    by (simp add: push_start_def ex_frame_def ex_task_def)
qed

end
