(* ===== verification/Termination.thy ===== *)
theory Termination
  imports Traces "HOL-Library.Multiset"
begin

text \<open>
  Termination: a run in which no wait ends without a notification is finite, whatever else the
  environment does. The measure is the multiset of what the threads still have to do, over a
  well-founded relation on the program counters: what a thread can do next, whatever the
  shared state is. A wait can go round its loop only while its front bit is off, and the bit
  never goes off again, so the relation is on a program counter and the bit.
\<close>

section \<open>What a thread can do next\<close>

type_synonym ('v, 'fs, 'm, 'u, 'r) local_state = "('v, 'fs, 'm, 'u, 'r) pc \<times> bool"

definition unwound :: "('v, 'fs, 'm, 'u, 'r) frame \<Rightarrow> panic \<Rightarrow> ('v, 'fs, 'm, 'u, 'r) pc" where
  "unwound fr p = PClient (case fr_caller fr of
     ByLockAndProcess k \<Rightarrow> k (Unwound p) | ByProcess k kp \<Rightarrow> kp p)"

definition returned ::
  "('v, 'fs, 'm, 'u, 'r) frame \<Rightarrow> guard \<Rightarrow> 'r ProcessResult \<Rightarrow> ('v, 'fs, 'm, 'u, 'r) pc" where
  "returned fr g r = (case fr_caller fr of
     ByLockAndProcess k \<Rightarrow> PClient (k (Returned r)) | ByProcess k kp \<Rightarrow> PSession g (k r))"

text \<open>The program counters that can come next, outside the wait loop.\<close>

definition next_client :: "('v, 'fs, 'm, 'u, 'r) client \<Rightarrow> ('v, 'fs, 'm, 'u, 'r) pc set" where
  "next_client c =
     (case c of
        Exit \<Rightarrow> {}
      | CallLockAndProcess a v task k \<Rightarrow> {PLock (Frame a v task (ByLockAndProcess k))}
      | CallIsQueuePoisoned a k \<Rightarrow> insert (PIsLock a k) (range (PClient \<circ> k))
      | CallClearQueuePoison a k \<Rightarrow> insert (PClearLock a k) (range (PClient \<circ> k))
      | LockMutex a k \<Rightarrow> {PSession g (k b) |g b. True}
      | ClearMutexPoison a c' \<Rightarrow> {PClient c'})"

definition next_session :: "guard \<Rightarrow> ('v, 'fs, 'm, 'u, 'r) session \<Rightarrow> ('v, 'fs, 'm, 'u, 'r) pc set" where
  "next_session g c =
     (case c of
        SReadState k \<Rightarrow> range (PSession g \<circ> k)
      | SWriteState m c' \<Rightarrow> {PSession g c'}
      | SProcess a v task k kp \<Rightarrow> {PAssert (Frame a v task (ByProcess k kp)) g}
      | SDrop c' \<Rightarrow> {PClient c'}
      | SForget c' \<Rightarrow> {PClient c'}
      | SPanic c' \<Rightarrow> {PClient c'})"

definition next_callback ::
  "('v, 'fs, 'm, 'u, 'r) frame \<Rightarrow> ('v, 'fs, 'm, 'u, 'r) callback \<Rightarrow> ('v, 'fs, 'm, 'u, 'r) pc set" where
  "next_callback fr cb =
     (case cb of
        CbReturn r \<Rightarrow> range (\<lambda>g. PHandoff fr g (Processed r))
      | CbPanic n \<Rightarrow> range (PErrLock fr)
      | CbReadFront k \<Rightarrow> {PCallback fr h (k x) |h x. True}
      | CbWriteFront fs cb' \<Rightarrow> range (\<lambda>h. PCallback fr h cb')
      | CbPeek k \<Rightarrow> {PCallback fr h (k x) |h x. True}
      | CbPop k \<Rightarrow> {PCallback fr h (k x) |h x. True}
      | CbMutexState k \<Rightarrow> {PCallback fr h (k x) |h x. True}
      | CbMutexStateMut m cb' \<Rightarrow> range (\<lambda>h. PCallback fr h cb')
      | CbUnlocked clo k \<Rightarrow> range (\<lambda>h. PUnlocked fr h clo k)
      | CbIsQueuePoisoned k \<Rightarrow> {PCallback fr h (k x) |h x. True}
      | CbClearQueuePoison cb' \<Rightarrow> range (\<lambda>h. PCallback fr h cb'))"

definition next_closure ::
  "('v, 'fs, 'm, 'u, 'r) frame \<Rightarrow> QueueHandle \<Rightarrow> ('fs, 'm, 'u) closure \<Rightarrow>
     ('u outcome \<Rightarrow> ('v, 'fs, 'm, 'u, 'r) callback) \<Rightarrow> ('v, 'fs, 'm, 'u, 'r) pc set" where
  "next_closure fr h clo k =
     (case clo of
        CloReturn u \<Rightarrow> range (\<lambda>out. PUnlockRelock fr h out k)
      | CloPanic n \<Rightarrow> range (\<lambda>out. PUnlockRelock fr h out k)
      | CloReadFront f \<Rightarrow> range (\<lambda>fs. PUnlocked fr h (f fs) k)
      | CloWriteFront fs clo' \<Rightarrow> {PUnlocked fr h clo' k}
      | CloLockMutex a f \<Rightarrow>
          {PUnlockedHolds fr h g (InCritical (f b)) k |g b. True} \<union> range (\<lambda>out. PUnlockRelock fr h out k)
      | CloIsQueuePoisoned a f \<Rightarrow>
          range (\<lambda>g. PUnlockedHolds fr h g (ReadsPoison f) k) \<union> range (\<lambda>out. PUnlocked fr h (f out) k)
      | CloClearQueuePoison a f \<Rightarrow>
          range (\<lambda>g. PUnlockedHolds fr h g (ClearsPoison f) k) \<union> range (\<lambda>out. PUnlocked fr h (f out) k))"

definition next_holding ::
  "('v, 'fs, 'm, 'u, 'r) frame \<Rightarrow> QueueHandle \<Rightarrow> guard \<Rightarrow> ('fs, 'm, 'u) holding \<Rightarrow>
     ('u outcome \<Rightarrow> ('v, 'fs, 'm, 'u, 'r) callback) \<Rightarrow> ('v, 'fs, 'm, 'u, 'r) pc set" where
  "next_holding fr h g x k =
     (case x of
        InCritical c \<Rightarrow>
          (case c of
             CritReadState f \<Rightarrow> range (\<lambda>m. PUnlockedHolds fr h g (InCritical (f m)) k)
           | CritWriteState m c' \<Rightarrow> {PUnlockedHolds fr h g (InCritical c') k}
           | CritReadFront f \<Rightarrow> range (\<lambda>fs. PUnlockedHolds fr h g (InCritical (f fs)) k)
           | CritWriteFront fs c' \<Rightarrow> {PUnlockedHolds fr h g (InCritical c') k}
           | CritDrop clo \<Rightarrow> {PUnlocked fr h clo k}
           | CritForget clo \<Rightarrow> {PUnlocked fr h clo k}
           | CritPanic n \<Rightarrow> range (\<lambda>out. PUnlockRelock fr h out k))
      | ReadsPoison f \<Rightarrow> range (\<lambda>out. PUnlocked fr h (f out) k)
      | ClearsPoison f \<Rightarrow> range (\<lambda>out. PUnlocked fr h (f out) k))"

fun next_pcs :: "('v, 'fs, 'm, 'u, 'r) pc \<Rightarrow> ('v, 'fs, 'm, 'u, 'r) pc set" where
  "next_pcs (PClient c) = next_client c"
| "next_pcs (PSession g c) = next_session g c"
| "next_pcs (PLock fr) = range (PAssert fr) \<union> range (unwound fr)"
| "next_pcs (PAssert fr g) = insert (PAcquire fr g) (range (unwound fr))"
| "next_pcs (PAcquire fr g) = insert (PPush fr g) (range (PMutexPoison fr g))"
| "next_pcs (PPush fr g) = {PWait fr g}"
| "next_pcs (PPopSelf fr g b) = range (PQueuePoison fr g)"
| "next_pcs (PQueuePoison fr g w) =
     range (PErrLock fr) \<union> range (PMutexPoison fr g) \<union> range (PHandoff fr g)"
| "next_pcs (PMutexPoison fr g v) =
     range (PErrLock fr) \<union> range (\<lambda>h. PCallback fr h (fr_task fr v))"
| "next_pcs (PCallback fr h cb) = next_callback fr cb"
| "next_pcs (PUnlocked fr h clo k) = next_closure fr h clo k"
| "next_pcs (PUnlockedHolds fr h g x k) = next_holding fr h g x k"
| "next_pcs (PUnlockRelock fr h out k) = range (\<lambda>h'. PCallback fr h' (k out))"
| "next_pcs (PErrLock fr p) = {PErrHandoff fr g p |g. True} \<union> range (unwound fr)"
| "next_pcs (PErrHandoff fr g p) = range (unwound fr)"
| "next_pcs (PHandoff fr g r) = {PReturn fr g r}"
| "next_pcs (PReturn fr g r) = {returned fr g r}"
| "next_pcs (PIsLock a k) = range (\<lambda>g. PIsRead g k) \<union> range (PClient \<circ> k)"
| "next_pcs (PIsRead g k) = range (PClient \<circ> k)"
| "next_pcs (PClearLock a k') = range (\<lambda>g. PClearWrite g k') \<union> range (PClient \<circ> k')"
| "next_pcs (PClearWrite g k') = range (PClient \<circ> k')"
| "next_pcs _ = {}"

text \<open>
  A move of a thread: to a next program counter, along the wait loop as its bit allows, or the
  setting of its bit by another thread.
\<close>

inductive moves :: "('v, 'fs, 'm, 'u, 'r) local_state \<Rightarrow> ('v, 'fs, 'm, 'u, 'r) local_state \<Rightarrow> bool" where
  go: "p' \<in> next_pcs p \<Longrightarrow> moves (p, b) (p', False)"
| block: "moves (PWait fr g, b) (PBlocked fr g, b)"
| wake: "moves (PBlocked fr g, True) (PRelock fr g, True)"
| relock: "moves (PRelock fr g, b) (PCheckBit fr g, b)"
| again: "moves (PCheckBit fr g, False) (PWait fr g, False)"
| leave: "moves (PCheckBit fr g, True) (PPopSelf fr g b, True)"
| set_bit: "in_queue (stage_of p) \<Longrightarrow> moves (p, False) (p, True)"

inductive_cases movesE: "moves (p, b) y"

section \<open>The relation is well-founded\<close>

text \<open>\<open>ends x\<close>: every sequence of moves from \<open>x\<close> ends.\<close>

abbreviation ends :: "('v, 'fs, 'm, 'u, 'r) local_state \<Rightarrow> bool" where
  "ends \<equiv> Wellfounded.accp (\<lambda>y x. moves x y)"

text \<open>A program counter outside the wait loop ends if all that can come next ends.\<close>

lemma ends_next:
  assumes "\<not> in_queue (stage_of p)" and "\<And>p'. p' \<in> next_pcs p \<Longrightarrow> ends (p', False)"
  shows "ends (p, b)"
  by (rule accpI) (use assms in \<open>auto elim!: movesE\<close>)

definition exits_end :: "('v, 'fs, 'm, 'u, 'r) frame \<Rightarrow> bool" where
  "exits_end fr \<longleftrightarrow> (\<forall>p. ends (unwound fr p, False)) \<and> (\<forall>g r. ends (returned fr g r, False))"

lemma ends_return: "exits_end fr \<Longrightarrow> ends (PReturn fr g r, b)"
  by (rule ends_next) (auto simp: exits_end_def)

lemma ends_handoff: "exits_end fr \<Longrightarrow> ends (PHandoff fr g r, b)"
  by (rule ends_next) (auto simp: ends_return)

lemma ends_err_handoff: "exits_end fr \<Longrightarrow> ends (PErrHandoff fr g p, b)"
  by (rule ends_next) (auto simp: exits_end_def)

lemma ends_err_lock: "exits_end fr \<Longrightarrow> ends (PErrLock fr p, b)"
  by (rule ends_next) (auto simp: exits_end_def ends_err_handoff)

lemma ends_relock:
  assumes "\<And>h' out. ends (PCallback fr h' (k out), False)"
  shows "ends (PUnlockRelock fr h out k, b)"
  by (rule ends_next) (use assms in auto)

text \<open>An accessor of the queue's poison, once it has locked the mutex.\<close>

lemma ends_accessing:
  assumes "\<And>out. ends (PUnlocked fr h (f out) k, False)"
  shows "ends (PUnlockedHolds fr h g (ReadsPoison f) k, b)"
  by (rule ends_next) (use assms in \<open>auto simp: next_holding_def\<close>)

lemma ends_clearing:
  assumes "\<And>out. ends (PUnlocked fr h (f out) k, False)"
  shows "ends (PUnlockedHolds fr h g (ClearsPoison f) k, b)"
  by (rule ends_next) (use assms in \<open>auto simp: next_holding_def\<close>)

lemma ends_closure_trees:
  fixes clo :: "('fs, 'm, 'u) closure" and c :: "('fs, 'm, 'u) critical"
    and k :: "'u outcome \<Rightarrow> ('v, 'fs, 'm, 'u, 'r) callback"
  assumes "\<And>h' out. ends (PCallback fr h' (k out), False)"
  shows "ends (PUnlocked fr h clo k, b)" and "ends (PUnlockedHolds fr h g (InCritical c) k, b)"
proof (induction clo and c arbitrary: b and g b rule: closure.induct critical.induct)
  case (CloReturn u)
  show ?case by (rule ends_next) (use ends_relock [OF assms] in \<open>auto simp: next_closure_def\<close>)
next
  case (CloPanic n)
  show ?case by (rule ends_next) (use ends_relock [OF assms] in \<open>auto simp: next_closure_def\<close>)
next
  case (CloReadFront f)
  show ?case by (rule ends_next) (use CloReadFront in \<open>auto simp: next_closure_def\<close>)
next
  case (CloWriteFront fs clo)
  show ?case by (rule ends_next) (use CloWriteFront in \<open>auto simp: next_closure_def\<close>)
next
  case (CloLockMutex a f)
  have f: "ends (PUnlockedHolds fr h g (InCritical (f x)) k, False)" for g x
    by (rule CloLockMutex [OF rangeI])
  show ?case by (rule ends_next) (use f ends_relock [OF assms] in \<open>auto simp: next_closure_def\<close>)
next
  case (CloIsQueuePoisoned a f)
  have f: "ends (PUnlocked fr h (f x) k, False)" for x by (rule CloIsQueuePoisoned [OF rangeI])
  show ?case by (rule ends_next) (use f ends_accessing [OF f] in \<open>auto simp: next_closure_def\<close>)
next
  case (CloClearQueuePoison a f)
  have f: "ends (PUnlocked fr h (f x) k, False)" for x by (rule CloClearQueuePoison [OF rangeI])
  show ?case by (rule ends_next) (use f ends_clearing [OF f] in \<open>auto simp: next_closure_def\<close>)
next
  case (CritReadState f)
  have f: "ends (PUnlockedHolds fr h g (InCritical (f x)) k, False)" for x
    by (rule CritReadState [OF rangeI])
  show ?case by (rule ends_next) (use f in \<open>auto simp: next_holding_def\<close>)
next
  case (CritWriteState m c)
  show ?case by (rule ends_next) (use CritWriteState in \<open>auto simp: next_holding_def\<close>)
next
  case (CritReadFront f)
  have f: "ends (PUnlockedHolds fr h g (InCritical (f x)) k, False)" for x
    by (rule CritReadFront [OF rangeI])
  show ?case by (rule ends_next) (use f in \<open>auto simp: next_holding_def\<close>)
next
  case (CritWriteFront fs c)
  show ?case by (rule ends_next) (use CritWriteFront in \<open>auto simp: next_holding_def\<close>)
next
  case (CritDrop clo)
  show ?case by (rule ends_next) (use CritDrop in \<open>auto simp: next_holding_def\<close>)
next
  case (CritForget clo)
  show ?case by (rule ends_next) (use CritForget in \<open>auto simp: next_holding_def\<close>)
next
  case (CritPanic n)
  show ?case by (rule ends_next) (use ends_relock [OF assms] in \<open>auto simp: next_holding_def\<close>)
qed

lemma ends_unlocked:
  assumes "\<And>h' out. ends (PCallback fr h' (k out), False)"
  shows "ends (PUnlocked fr h clo k, b)" "ends (PUnlockedHolds fr h g x k, b)"
proof -
  show clo: "ends (PUnlocked fr h clo k, b)" for clo b by (rule ends_closure_trees(1) [OF assms])
  show "ends (PUnlockedHolds fr h g x k, b)"
    by (cases x) (simp_all add: ends_closure_trees(2) [OF assms] ends_accessing [OF clo] ends_clearing [OF clo])
qed

lemma ends_callback:
  assumes fr: "exits_end fr" shows "ends (PCallback fr h cb, b)"
proof (induction cb arbitrary: h b)
  case (CbUnlocked clo k)
  have clo: "ends (PUnlocked fr h' clo k, False)" for h'
    by (rule ends_unlocked(1)) (rule CbUnlocked [OF rangeI])
  show ?case by (rule ends_next) (use clo in \<open>auto simp: next_callback_def\<close>)
next
  case (CbReturn r)
  show ?case by (rule ends_next) (use ends_handoff [OF fr] in \<open>auto simp: next_callback_def\<close>)
next
  case (CbPanic n)
  show ?case by (rule ends_next) (use ends_err_lock [OF fr] in \<open>auto simp: next_callback_def\<close>)
qed (rule ends_next, simp, force simp: next_callback_def)+

lemma ends_mutex_poison: "exits_end fr \<Longrightarrow> ends (PMutexPoison fr g v, b)"
  by (rule ends_next) (auto simp: ends_callback ends_err_lock)

lemma ends_queue_poison: "exits_end fr \<Longrightarrow> ends (PQueuePoison fr g w, b)"
  by (rule ends_next) (auto simp: ends_mutex_poison ends_err_lock ends_handoff)

text \<open>The wait loop: with the bit set it is left at the next check, and until then the bit can be set once.\<close>

lemma ends_wait:
  assumes fr: "exits_end fr"
  shows "ends (PWait fr g, b)" "ends (PBlocked fr g, b)" "ends (PRelock fr g, b)"
    "ends (PCheckBit fr g, b)" "ends (PPopSelf fr g c, b)"
proof -
  have pop: "ends (PPopSelf fr g c, True)" for c
    by (rule accpI) (auto elim!: movesE simp: ends_queue_poison [OF fr])
  have check: "ends (PCheckBit fr g, True)" by (rule accpI) (auto elim!: movesE simp: pop)
  have relock: "ends (PRelock fr g, True)" by (rule accpI) (auto elim!: movesE simp: check)
  have blocked: "ends (PBlocked fr g, True)" by (rule accpI) (auto elim!: movesE simp: relock)
  have wait: "ends (PWait fr g, True)" by (rule accpI) (auto elim!: movesE simp: blocked)
  have blocked0: "ends (PBlocked fr g, False)" by (rule accpI) (auto elim!: movesE simp: blocked)
  have wait0: "ends (PWait fr g, False)" by (rule accpI) (auto elim!: movesE simp: blocked0 wait)
  have check0: "ends (PCheckBit fr g, False)" by (rule accpI) (auto elim!: movesE simp: wait0 check)
  have relock0: "ends (PRelock fr g, False)" by (rule accpI) (auto elim!: movesE simp: check0 relock)
  have pop0: "ends (PPopSelf fr g c, False)"
    by (rule accpI) (auto elim!: movesE simp: ends_queue_poison [OF fr] pop)
  show "ends (PWait fr g, b)" "ends (PBlocked fr g, b)" "ends (PRelock fr g, b)"
    "ends (PCheckBit fr g, b)" "ends (PPopSelf fr g c, b)"
    by (cases b; simp add: pop check relock blocked wait blocked0 wait0 check0 relock0 pop0)+
qed

lemma ends_push: "exits_end fr \<Longrightarrow> ends (PPush fr g, b)"
  by (rule ends_next) (auto simp: ends_wait)

lemma ends_acquire: "exits_end fr \<Longrightarrow> ends (PAcquire fr g, b)"
  by (rule ends_next) (auto simp: ends_push ends_mutex_poison)

lemma ends_assert: "exits_end fr \<Longrightarrow> ends (PAssert fr g, b)"
  by (rule ends_next) (auto simp: ends_acquire, simp add: exits_end_def)

lemma ends_lock: "exits_end fr \<Longrightarrow> ends (PLock fr, b)"
  by (rule ends_next) (auto simp: ends_assert, simp add: exits_end_def)

lemma ends_accessors:
  assumes "\<And>out. ends (PClient (k out), False)"
  shows "ends (PIsRead g k, b)" "ends (PIsLock a k, b)"
proof -
  show read: "ends (PIsRead g k, b)" for g b by (rule ends_next) (auto simp: assms)
  show "ends (PIsLock a k, b)" by (rule ends_next) (auto simp: assms read)
qed

lemma ends_clear_accessors:
  assumes "\<And>out. ends (PClient (k out), False)"
  shows "ends (PClearWrite g k, b)" "ends (PClearLock a k, b)"
proof -
  show clear: "ends (PClearWrite g k, b)" for g b by (rule ends_next) (auto simp: assms)
  show "ends (PClearLock a k, b)" by (rule ends_next) (auto simp: assms clear)
qed

text \<open>Client programs are well-founded trees.\<close>

lemma ends_client: "ends (PClient c, b)" and ends_session: "ends (PSession g ss, b)"
  for c :: "('v, 'fs, 'm, 'u, 'r) client" and ss :: "('v, 'fs, 'm, 'u, 'r) session"
proof (induction c and ss arbitrary: b and g b rule: client.induct session.induct)
  case Exit
  show ?case by (rule ends_next) (simp_all add: next_client_def)
next
  case (CallLockAndProcess a v task k)
  have k: "ends (PClient (k out), False)" for out by (rule CallLockAndProcess [OF rangeI])
  have "exits_end (Frame a v task (ByLockAndProcess k))"
    using k by (simp add: exits_end_def unwound_def returned_def)
  note lock = ends_lock [OF this]
  show ?case by (rule ends_next) (use lock in \<open>simp_all add: next_client_def\<close>)
next
  case (CallIsQueuePoisoned a k)
  have k: "ends (PClient (k out), False)" for out by (rule CallIsQueuePoisoned [OF rangeI])
  show ?case by (rule ends_next) (use k ends_accessors(2) [OF k] in \<open>auto simp: next_client_def\<close>)
next
  case (CallClearQueuePoison a k)
  have k: "ends (PClient (k out), False)" for out by (rule CallClearQueuePoison [OF rangeI])
  show ?case by (rule ends_next) (use k ends_clear_accessors(2) [OF k] in \<open>auto simp: next_client_def\<close>)
next
  case (LockMutex a k)
  have k: "ends (PSession g (k b), False)" for g b by (rule LockMutex [OF rangeI])
  show ?case by (rule ends_next) (use k in \<open>auto simp: next_client_def\<close>)
next
  case (ClearMutexPoison a c)
  show ?case by (rule ends_next) (use ClearMutexPoison in \<open>auto simp: next_client_def\<close>)
next
  case (SReadState k)
  have k: "ends (PSession g (k b), False)" for g b by (rule SReadState [OF rangeI])
  show ?case by (rule ends_next) (use k in \<open>auto simp: next_session_def\<close>)
next
  case (SWriteState m ss)
  show ?case by (rule ends_next) (use SWriteState in \<open>auto simp: next_session_def\<close>)
next
  case (SProcess a v task k kp)
  have k: "ends (PSession g (k r), False)" "ends (PClient (kp p), False)" for g r p
    by (rule SProcess(1) [OF rangeI], rule SProcess(2) [OF rangeI])
  have "exits_end (Frame a v task (ByProcess k kp))"
    using k by (simp add: exits_end_def unwound_def returned_def)
  note process = ends_assert [OF this]
  show ?case by (rule ends_next) (use process in \<open>simp_all add: next_session_def\<close>)
next
  case (SDrop c)
  show ?case by (rule ends_next) (use SDrop in \<open>auto simp: next_session_def\<close>)
next
  case (SForget c)
  show ?case by (rule ends_next) (use SForget in \<open>auto simp: next_session_def\<close>)
next
  case (SPanic c)
  show ?case by (rule ends_next) (use SPanic in \<open>auto simp: next_session_def\<close>)
qed

lemma exits_end: "exits_end fr"
  by (auto simp: exits_end_def unwound_def returned_def ends_client ends_session split: caller.split)

lemma ends_any: "ends (p, b)"
  using ends_accessors [OF ends_client] ends_clear_accessors [OF ends_client]
    ends_unlocked [OF ends_callback [OF exits_end]] ends_relock [OF ends_callback [OF exits_end]]
    ends_wait [OF exits_end]
  by (cases p) (auto simp: ends_client ends_session ends_lock ends_assert ends_acquire ends_push
    ends_queue_poison ends_mutex_poison ends_callback ends_err_lock ends_err_handoff ends_handoff
    ends_return exits_end)

lemma wf_moves: "wf {(y, x). moves x y}"
  using accp_wfpI [of "\<lambda>y x. moves x y"] ends_any by (auto simp: wfp_def)

section \<open>The measure\<close>

text \<open>Well-foundedness of the pointwise extension to a finite set of threads.\<close>

lemma mult_image:
  assumes "finite T" "t \<in> T" "(f' t, f t) \<in> r" "\<And>u. u \<in> T \<Longrightarrow> f' u = f u \<or> (f' u, f u) \<in> r"
  shows "(image_mset f' (mset_set T), image_mset f (mset_set T)) \<in> mult r"
proof -
  let ?D = "{u \<in> T. (f' u, f u) \<in> r}"
  have split: "image_mset g (mset_set T) = image_mset g (mset_set (T - ?D)) + image_mset g (mset_set ?D)"
    for g :: "'a \<Rightarrow> 'b"
    using mset_set_Union [of "T - ?D" ?D] assms(1)
    by (metis (no_types, lifting) Diff_disjoint Diff_partition Int_commute finite_Diff finite_subset
        image_mset_union mem_Collect_eq subsetI sup_commute)
  have "image_mset f' (mset_set (T - ?D)) = image_mset f (mset_set (T - ?D))"
    using assms(1,4) by (intro image_mset_cong) auto
  moreover have "(image_mset f (mset_set (T - ?D)) + image_mset f' (mset_set ?D),
      image_mset f (mset_set (T - ?D)) + image_mset f (mset_set ?D)) \<in> mult r"
    using assms(1-3) by (intro one_step_implies_mult) (auto simp: mset_set_empty_iff)
  ultimately show ?thesis by (simp add: split [of f] split [of f'])
qed

definition local_of :: "('v, 'fs, 'm, 'u, 'r) sys \<Rightarrow> tid \<Rightarrow> ('v, 'fs, 'm, 'u, 'r) local_state" where
  "local_of s t = (pcs s t, in_queue (stages s t) \<and> bit_at (frames s) t)"

section \<open>Every step makes progress\<close>

lemma outside_next:
  assumes "step_pc ch t p s = Some s'" "\<not> in_queue (stage_of p)" "status s' = Running" "pcs s t = p"
  shows "pcs s' t \<in> next_pcs p"
  using assms
  by (cases p)
    (auto simp: machine_defs assert_mutex_good_eq
      next_client_def next_session_def next_callback_def next_closure_def next_holding_def unwound_def
      returned_def split: machine_splits TaskWaitResult.splits)

lemma outside_move:
  assumes inv: "sys_inv s" and step: "step_pc ch t (pcs s t) s = Some s'"
    and "\<not> in_queue (stage_of (pcs s t))" "status s' = Running"
  shows "moves (local_of s t) (local_of s' t)"
proof -
  note nxt = outside_next [OF step assms(3,4) refl]
  have "\<not> (in_queue (stages s' t) \<and> bit_at (frames s') t)"
  proof (cases "\<exists>fr g. pcs s t = PPush fr g")
    case True
    then obtain fr g where pc: "pcs s t = PPush fr g" by blast
    have "frames s t = Some TaskState_new"
      using protoD(2) [OF inv_proto [OF inv]] pc by (simp add: frames_inv_def stage_at)
    moreover have "frames s' = frames s"
      using step assms(4) pc by (auto simp: step_pc_def step_push_def split: option.splits)
    ultimately show ?thesis by simp
  next
    case False
    then show ?thesis using nxt assms(3)
      by (cases "pcs s t")
        (auto simp: stage_at next_client_def next_session_def next_callback_def next_closure_def
          next_holding_def unwound_def returned_def
          split: client.splits session.splits callback.splits closure.splits critical.splits
            holding.splits caller.splits)
  qed
  then have eq: "local_of s' t = (pcs s' t, False)" by (simp add: local_of_def)
  show ?thesis unfolding eq unfolding local_of_def by (rule go [OF nxt])
qed

lemma waiting_move:
  assumes inv: "sys_inv s" and step: "step_pc ch t (pcs s t) s = Some s'"
    and wait: "stages s t = InQueue w" and ch: "ch \<noteq> Spurious"
  shows "moves (local_of s t) (local_of s' t)"
proof -
  from frame_at [OF inv wait] obtain ts where ts: "frames s t = Some ts" "wait_ok t w ts" .
  show ?thesis
  proof (cases "pcs s t")
    case (PWait fr g)
    with step ts show ?thesis
      by (auto simp: step_pc_def step_wait_def local_of_def stage_at intro: block)
  next
    case (PBlocked fr g)
    with step ts wait ch show ?thesis
      by (auto simp: step_pc_def step_blocked_def local_of_def stage_at intro: wake split: if_splits)
  next
    case (PRelock fr g)
    with step ts show ?thesis
      by (auto simp: step_pc_def step_relock_def with_lock_Some local_of_def stage_at intro: relock)
  next
    case (PCheckBit fr g)
    with step ts show ?thesis
      by (auto simp: step_pc_def step_check_bit_def wait_check_bits local_of_def stage_at
        intro: again leave split: if_splits)
  next
    case (PPopSelf fr g b)
    from pop_self_own [OF inv PPopSelf] obtain et q
      where q: "queue (mx s) = et # q" "owner et = t" "is_init et" .
    with step PPopSelf show ?thesis
      by (auto simp: step_pc_def step_pop_self_def pop_this_task_Cons [OF q(1,3,2)] Let_def
        local_of_def stage_at intro!: go)
  qed (use wait in \<open>simp_all add: stage_at\<close>)
qed

text \<open>A step of one thread may set the bit of another; it never resets one.\<close>

context front_waker
begin

lemma transfer_bits:
  "transfer_front wake F m = Ret (F', m') \<Longrightarrow> bit_at F u \<Longrightarrow> bit_at F' u"
  by (auto simp: transfer_front_def bind_res_Ret wake_front split: option.splits)

end

lemma other_bits:
  assumes step: "step_pc ch t p s = Some s'" and "u \<noteq> t" "bit_at (frames s) u"
  shows "bit_at (frames s') u"
proof (cases "visible p")
  case True
  with assms show ?thesis
    by (cases p)
      (auto simp: step_pc_def step_acquire_def try_acquire_front_fast_def step_push_def
        step_pop_self_def step_callback_def step_err_lock_def with_lock_Some step_err_handoff_def
        step_handoff_def finish_ok_def finish_err_def Let_def leave_unwinding_def
        split: res.splits option.splits prod.splits
        dest: ok_waker.transfer_bits panic_waker.transfer_bits)
next
  case False
  with invisible_bits [OF step False] assms(2,3) show ?thesis by simp
qed

lemma step_other_pc:
  assumes "step_pc ch t p s = Some s'" "u \<noteq> t" shows "pcs s' u = pcs s u"
  using assms
  by (cases p)
    (auto simp: machine_defs
      split: machine_splits)

lemma other_move:
  assumes step: "step_pc ch t (pcs s t) s = Some s'" and "u \<noteq> t"
  shows "local_of s' u = local_of s u \<or> moves (local_of s u) (local_of s' u)"
proof -
  have "pcs s' u = pcs s u"
    using step_other_pc [OF step] assms(2) by auto
  with other_bits [OF assms] show ?thesis
    by (cases "bit_at (frames s) u"; cases "bit_at (frames s') u")
      (auto simp: local_of_def stage_at intro: set_bit)
qed

lemma step_moves:
  assumes inv: "sys_inv s" and step: "thread_step ch t s = Some s'"
    and "ch \<noteq> Spurious" "status s' = Running"
  shows "moves (local_of s t) (local_of s' t)"
    and "local_of s' u = local_of s u \<or> moves (local_of s u) (local_of s' u)"
proof -
  from step have step: "step_pc ch t (pcs s t) s = Some s'" by (rule thread_stepD)
  show own: "moves (local_of s t) (local_of s' t)"
  proof (cases "in_queue (stages s t)")
    case True
    then obtain w where "stages s t = InQueue w" by (cases "stages s t") auto
    with waiting_move [OF inv step] assms(3) show ?thesis by blast
  next
    case False
    with outside_move [OF inv step] assms(4) show ?thesis by (simp add: stage_at)
  qed
  show "local_of s' u = local_of s u \<or> moves (local_of s u) (local_of s' u)"
    using other_move [OF step, of u] own by blast
qed

section \<open>Finite runs\<close>

definition unfinished :: "('v, 'fs, 'm, 'u, 'r) sys \<Rightarrow> tid set" where
  "unfinished s = {t. pcs s t \<noteq> PClient Exit}"

definition work_left :: "tid set \<Rightarrow> ('v, 'fs, 'm, 'u, 'r) sys \<Rightarrow> ('v, 'fs, 'm, 'u, 'r) local_state multiset" where
  "work_left T s = image_mset (local_of s) (mset_set T)"

lemma step_unfinished:
  assumes "thread_step ch t s = Some s'"
  shows "t \<in> unfinished s" "unfinished s' \<subseteq> unfinished s"
proof -
  from assms have step: "step_pc ch t (pcs s t) s = Some s'" by (rule thread_stepD)
  then show t: "t \<in> unfinished s" by (auto simp: unfinished_def step_pc_def step_client_def)
  show "unfinished s' \<subseteq> unfinished s"
    using step_other_pc [OF step] t by (auto simp: unfinished_def) metis
qed

lemma work_decreases:
  assumes inv: "sys_inv s" and step: "thread_step ch t s = Some s'"
    and ch: "ch \<noteq> Spurious" "status s' = Running" and T: "finite T" "unfinished s \<subseteq> T"
  shows "(work_left T s', work_left T s) \<in> mult {(y, x). moves x y}"
  unfolding work_left_def
  by (rule mult_image [OF T(1), of t])
    (use step_moves [OF inv step ch] step_unfinished(1) [OF step] T(2) in auto)

text \<open>The steps the environment can make without spurious wake-ups.\<close>

definition sound_step :: "('v, 'fs, 'm, 'u, 'r) sys \<Rightarrow> ('v, 'fs, 'm, 'u, 'r) sys \<Rightarrow> bool" where
  "sound_step s s' \<longleftrightarrow> (\<exists>ch t. ch \<noteq> Spurious \<and> thread_step ch t s = Some s')"

text \<open>
  C14. Every run ends: from a reachable state in which finitely many threads have not finished
  their programs there is no infinite run without spurious wake-ups, whatever else the
  environment decides. In particular no call and no wait goes on for ever while its thread
  keeps taking steps.
\<close>

theorem runs_terminate:
  assumes r: "reachable fs opts msize esize ms clients s" and T: "finite (unfinished s)"
  shows "\<nexists>f. f 0 = s \<and> (\<forall>i. sound_step (f i) (f (Suc i)))"
proof
  assume "\<exists>f. f 0 = s \<and> (\<forall>i. sound_step (f i) (f (Suc i)))"
  then obtain f where f: "f 0 = s" "\<And>i. sound_step (f i) (f (Suc i))" by blast
  have inv: "sys_inv (f i) \<and> unfinished (f i) \<subseteq> unfinished s" for i
  proof (induction i)
    case 0
    show ?case using reachable_inv [OF r] f(1) by simp
  next
    case (Suc i)
    obtain ch t where step: "thread_step ch t (f i) = Some (f (Suc i))"
      using f(2) [of i] by (auto simp: sound_step_def)
    from sys_inv_step [OF sys_step.thread [OF step]] step_unfinished(2) [OF step] Suc
    show ?case by blast
  qed
  have running: "status (f i) = Running" for i
    using f(2) [of i] by (auto simp: sound_step_def thread_step_def split: if_splits)
  have "(work_left (unfinished s) (f (Suc i)), work_left (unfinished s) (f i)) \<in> mult {(y, x). moves x y}" for i
  proof -
    obtain ch t where "ch \<noteq> Spurious" "thread_step ch t (f i) = Some (f (Suc i))"
      using f(2) [of i] by (auto simp: sound_step_def)
    with work_decreases [of "f i"] running inv T show ?thesis by blast
  qed
  moreover have "wf (mult {(y, x). moves x y})" by (rule wf_mult [OF wf_moves])
  ultimately show False
    using wf_no_infinite_down_chainE [of _ "\<lambda>i. work_left (unfinished s) (f i)"] by blast
qed

lemma ex_unfinished: "finite (unfinished (ex_state x m fs p0 p1))"
  by (rule finite_subset [of _ "{0, 1}"]) (auto simp: unfinished_def)

theorem runs_terminate_witness: "\<nexists>f. f 0 = ex_blocked \<and> (\<forall>i. sound_step (f i) (f (Suc i)))"
  by (rule runs_terminate [OF ex_reachable_states(1)]) (simp add: ex_blocked_def ex_unfinished)

end
