(* ===== verification/Completion.thy ===== *)
theory Completion
  imports Errors Termination
begin

text \<open>
  Completion: if no callback panics, every call returns. What the program counters of a thread
  can turn into is bounded by \<open>next_pcs\<close> and the wait loop, so a property of program counters
  that these keep is an invariant (locale \<open>pc_closed\<close>). That the callbacks in progress and to
  come do not panic is one; then no guard is leaked, some thread can always move, and by
  termination all of them get to the end of their programs.
\<close>

section \<open>Properties of what a thread still has to do\<close>

text \<open>The round of the wait loop.\<close>

fun loop_pcs :: "('v, 'fs, 'm, 'u, 'r) pc \<Rightarrow> ('v, 'fs, 'm, 'u, 'r) pc set" where
  "loop_pcs (PWait fr g) = {PBlocked fr g}"
| "loop_pcs (PBlocked fr g) = {PRelock fr g}"
| "loop_pcs (PRelock fr g) = {PCheckBit fr g}"
| "loop_pcs (PCheckBit fr g) = insert (PWait fr g) (range (PPopSelf fr g))"
| "loop_pcs _ = {}"

lemma loop_step:
  assumes "step_pc ch t p s = Some s'" "in_queue (stage_of p)" "status s' = Running" "pcs s t = p"
  shows "pcs s' t \<in> next_pcs p \<union> loop_pcs p"
  using assms
  by (cases p)
    (auto simp: step_pc_def step_wait_def step_blocked_def step_relock_def step_check_bit_def
      step_pop_self_def with_lock_Some Let_def split: option.splits if_splits res.splits prod.splits)

lemma halted_step:
  assumes "step_pc ch t p s = Some s'" "status s = Running" "status s' \<noteq> Running"
  shows "pcs s' = pcs s"
  using assms
  by (cases p)
    (auto simp: machine_defs
      split: machine_splits)

locale pc_closed =
  fixes good :: "('v, 'fs, 'm, 'u, 'r) pc \<Rightarrow> bool"
  assumes good_next: "good p \<Longrightarrow> p' \<in> next_pcs p \<union> loop_pcs p \<Longrightarrow> good p'"
begin

definition all_good :: "('v, 'fs, 'm, 'u, 'r) sys \<Rightarrow> bool" where
  "all_good s \<longleftrightarrow> (\<forall>t. good (pcs s t))"

lemma step_good:
  assumes "sys_step s s'" "all_good s" shows "all_good s'"
proof -
  from assms(1) obtain ch t where run: "status s = Running"
    and step: "step_pc ch t (pcs s t) s = Some s'"
    by (blast elim: sys_step_pcE)
  have "good (pcs s' t)"
  proof (cases "status s' = Running")
    case True
    with outside_next [OF step _ True] loop_step [OF step _ True] good_next assms(2)
    show ?thesis unfolding all_good_def by blast
  next
    case False
    with halted_step [OF step run] assms(2) show ?thesis by (simp add: all_good_def)
  qed
  with assms(2) step_other_pc [OF step] show ?thesis unfolding all_good_def by metis
qed

lemma reach_good: "reach sys_step s s' \<Longrightarrow> all_good s \<Longrightarrow> all_good s'"
  by (induction rule: reach.induct) (auto intro: step_good)

end

section \<open>Calm clients\<close>

text \<open>
  A callback that never panics, whatever the methods it calls return; a closure of \<open>unlocked\<close>
  may panic if the callback catches it, but no closure forgets a guard. A client is calm if all
  its callbacks are like that and it forgets no guard. Its own code may panic between calls, also
  while it holds the mutex.
\<close>

primrec keeps_guards :: "('fs, 'm, 'u) closure \<Rightarrow> bool"
  and keeps_guards_crit :: "('fs, 'm, 'u) critical \<Rightarrow> bool" where
  "keeps_guards (CloReturn u) \<longleftrightarrow> True"
| "keeps_guards (CloPanic n) \<longleftrightarrow> True"
| "keeps_guards (CloReadFront f) \<longleftrightarrow> (\<forall>x. keeps_guards (f x))"
| "keeps_guards (CloWriteFront fs clo) \<longleftrightarrow> keeps_guards clo"
| "keeps_guards (CloLockMutex a f) \<longleftrightarrow> (\<forall>b. keeps_guards_crit (f b))"
| "keeps_guards (CloIsQueuePoisoned a f) \<longleftrightarrow> (\<forall>out. keeps_guards (f out))"
| "keeps_guards (CloClearQueuePoison a f) \<longleftrightarrow> (\<forall>out. keeps_guards (f out))"
| "keeps_guards_crit (CritReadState f) \<longleftrightarrow> (\<forall>m. keeps_guards_crit (f m))"
| "keeps_guards_crit (CritWriteState m c) \<longleftrightarrow> keeps_guards_crit c"
| "keeps_guards_crit (CritReadFront f) \<longleftrightarrow> (\<forall>x. keeps_guards_crit (f x))"
| "keeps_guards_crit (CritWriteFront fs c) \<longleftrightarrow> keeps_guards_crit c"
| "keeps_guards_crit (CritDrop clo) \<longleftrightarrow> keeps_guards clo"
| "keeps_guards_crit (CritForget clo) \<longleftrightarrow> False"
| "keeps_guards_crit (CritPanic n) \<longleftrightarrow> True"

fun keeps_guards_holding :: "('fs, 'm, 'u) holding \<Rightarrow> bool" where
  "keeps_guards_holding (InCritical c) \<longleftrightarrow> keeps_guards_crit c"
| "keeps_guards_holding (ReadsPoison f) \<longleftrightarrow> (\<forall>out. keeps_guards (f out))"
| "keeps_guards_holding (ClearsPoison f') \<longleftrightarrow> (\<forall>out. keeps_guards (f' out))"

primrec calm_callback :: "('v, 'fs, 'm, 'u, 'r) callback \<Rightarrow> bool" where
  "calm_callback (CbReturn r) \<longleftrightarrow> True"
| "calm_callback (CbPanic n) \<longleftrightarrow> False"
| "calm_callback (CbReadFront k) \<longleftrightarrow> (\<forall>x. calm_callback (k x))"
| "calm_callback (CbWriteFront fs cb) \<longleftrightarrow> calm_callback cb"
| "calm_callback (CbPeek k) \<longleftrightarrow> (\<forall>x. calm_callback (k x))"
| "calm_callback (CbPop k) \<longleftrightarrow> (\<forall>x. calm_callback (k x))"
| "calm_callback (CbMutexState k) \<longleftrightarrow> (\<forall>x. calm_callback (k x))"
| "calm_callback (CbMutexStateMut m cb) \<longleftrightarrow> calm_callback cb"
| "calm_callback (CbUnlocked clo k) \<longleftrightarrow> keeps_guards clo \<and> (\<forall>x. calm_callback (k x))"
| "calm_callback (CbIsQueuePoisoned k) \<longleftrightarrow> (\<forall>x. calm_callback (k x))"
| "calm_callback (CbClearQueuePoison cb) \<longleftrightarrow> calm_callback cb"

primrec calm_client :: "('v, 'fs, 'm, 'u, 'r) client \<Rightarrow> bool"
  and calm_session :: "('v, 'fs, 'm, 'u, 'r) session \<Rightarrow> bool" where
  "calm_client Exit \<longleftrightarrow> True"
| "calm_client (CallLockAndProcess a v task k) \<longleftrightarrow>
     (\<forall>v. calm_callback (task v)) \<and> (\<forall>out. calm_client (k out))"
| "calm_client (CallIsQueuePoisoned a k) \<longleftrightarrow> (\<forall>out. calm_client (k out))"
| "calm_client (CallClearQueuePoison a k) \<longleftrightarrow> (\<forall>out. calm_client (k out))"
| "calm_client (LockMutex a k) \<longleftrightarrow> (\<forall>b. calm_session (k b))"
| "calm_client (ClearMutexPoison a c) \<longleftrightarrow> calm_client c"
| "calm_session (SReadState k) \<longleftrightarrow> (\<forall>m. calm_session (k m))"
| "calm_session (SWriteState m c) \<longleftrightarrow> calm_session c"
| "calm_session (SProcess a v task k kp) \<longleftrightarrow>
     (\<forall>v. calm_callback (task v)) \<and> (\<forall>r. calm_session (k r)) \<and> (\<forall>p. calm_client (kp p))"
| "calm_session (SDrop c) \<longleftrightarrow> calm_client c"
| "calm_session (SForget c) \<longleftrightarrow> False"
| "calm_session (SPanic c) \<longleftrightarrow> calm_client c"

fun calm_caller :: "('v, 'fs, 'm, 'u, 'r) caller \<Rightarrow> bool" where
  "calm_caller (ByLockAndProcess k) \<longleftrightarrow> (\<forall>out. calm_client (k out))"
| "calm_caller (ByProcess k kp) \<longleftrightarrow> (\<forall>r. calm_session (k r)) \<and> (\<forall>p. calm_client (kp p))"

definition calm_frame :: "('v, 'fs, 'm, 'u, 'r) frame \<Rightarrow> bool" where
  "calm_frame fr \<longleftrightarrow> (\<forall>v. calm_callback (fr_task fr v)) \<and> calm_caller (fr_caller fr)"

fun calm :: "('v, 'fs, 'm, 'u, 'r) pc \<Rightarrow> bool" where
  "calm (PClient c) \<longleftrightarrow> calm_client c"
| "calm (PSession g c) \<longleftrightarrow> calm_session c"
| "calm (PLock fr) \<longleftrightarrow> calm_frame fr"
| "calm (PAssert fr g) \<longleftrightarrow> calm_frame fr"
| "calm (PAcquire fr g) \<longleftrightarrow> calm_frame fr"
| "calm (PPush fr g) \<longleftrightarrow> calm_frame fr"
| "calm (PWait fr g) \<longleftrightarrow> calm_frame fr"
| "calm (PBlocked fr g) \<longleftrightarrow> calm_frame fr"
| "calm (PRelock fr g) \<longleftrightarrow> calm_frame fr"
| "calm (PCheckBit fr g) \<longleftrightarrow> calm_frame fr"
| "calm (PPopSelf fr g b) \<longleftrightarrow> calm_frame fr"
| "calm (PQueuePoison fr g w) \<longleftrightarrow> calm_frame fr"
| "calm (PMutexPoison fr g v) \<longleftrightarrow> calm_frame fr"
| "calm (PCallback fr h cb) \<longleftrightarrow> calm_frame fr \<and> calm_callback cb"
| "calm (PUnlocked fr h clo k) \<longleftrightarrow> calm_frame fr \<and> keeps_guards clo \<and> (\<forall>out. calm_callback (k out))"
| "calm (PUnlockedHolds fr h g x k) \<longleftrightarrow>
     calm_frame fr \<and> keeps_guards_holding x \<and> (\<forall>out. calm_callback (k out))"
| "calm (PUnlockRelock fr h out k) \<longleftrightarrow> calm_frame fr \<and> (\<forall>out. calm_callback (k out))"
| "calm (PErrLock fr p) \<longleftrightarrow> calm_frame fr"
| "calm (PErrHandoff fr g p) \<longleftrightarrow> calm_frame fr"
| "calm (PHandoff fr g r) \<longleftrightarrow> calm_frame fr"
| "calm (PReturn fr g r) \<longleftrightarrow> calm_frame fr"
| "calm (PIsLock a k) \<longleftrightarrow> (\<forall>out. calm_client (k out))"
| "calm (PIsRead g k) \<longleftrightarrow> (\<forall>out. calm_client (k out))"
| "calm (PClearLock a k') \<longleftrightarrow> (\<forall>out. calm_client (k' out))"
| "calm (PClearWrite g k') \<longleftrightarrow> (\<forall>out. calm_client (k' out))"

lemma calm_exits: "calm_frame fr \<Longrightarrow> calm (unwound fr p)" "calm_frame fr \<Longrightarrow> calm (returned fr g r)"
  by (auto simp: calm_frame_def unwound_def returned_def split: caller.split)

lemma calm_next:
  "calm p \<Longrightarrow> p' \<in> next_pcs p \<union> loop_pcs p \<Longrightarrow> calm p'"
  by (cases p)
    (auto simp: next_client_def next_session_def next_callback_def next_closure_def next_holding_def
      calm_exits split: client.splits session.splits callback.splits closure.splits critical.splits
      holding.splits,
     auto simp: calm_frame_def)

interpretation calm: pc_closed calm
  by unfold_locales (rule calm_next)

text \<open>Calm code leaks no guard.\<close>

lemma leak_step:
  assumes "step_pc ch t p s = Some s'" "calm p" "holder (mutexes s' a) = Leaked u"
  shows "holder (mutexes s a) = Leaked u"
  using assms
  by (cases p)
    (auto simp: machine_defs
      handle_mutex_state_mut_def bind_res_Ret relock_new_def
      split: machine_splits elim!: assume_initE)

definition calm_inv :: "('v, 'fs, 'm, 'u, 'r) sys \<Rightarrow> bool" where
  "calm_inv s \<longleftrightarrow> sys_inv s \<and> calm.all_good s \<and> \<not> lost s"

lemma calm_step: "sys_step s s' \<Longrightarrow> calm_inv s \<Longrightarrow> calm_inv s'"
proof -
  assume step: "sys_step s s'" and inv: "calm_inv s"
  then obtain ch t where "step_pc ch t (pcs s t) s = Some s'"
    by (blast elim: sys_step_pcE)
  from leak_step [OF this] inv have "\<not> lost s'"
    by (auto simp: calm_inv_def lost_def holders_def calm.all_good_def)
  with calm.step_good [OF step] sys_inv_step [OF step] inv show "calm_inv s'"
    by (simp add: calm_inv_def)
qed

interpretation calm_run: invariant sys_step calm_inv
  by unfold_locales (rule calm_step)

lemma calm_reachable:
  assumes "reachable fs opts msize esize ms clients s" "\<forall>t. calm_client (clients t)"
  shows "calm_inv s"
proof -
  from assms have "calm_inv (initial fs opts msize esize ms clients)"
    by (auto simp: calm_inv_def reachable_def calm.all_good_def lost_def holders_def initial_def
        intro: sys_inv_initial [unfolded initial_def])
  with calm_run.reach_inv assms(1) show ?thesis unfolding reachable_def by blast
qed

section \<open>Every call returns\<close>

lemma step_elem_size:
  assumes "step_pc ch t p s = Some s'" shows "elem_size s' = elem_size s"
  using assms
  by (cases p)
    (auto simp: machine_defs
      split: machine_splits)

lemma normal_abort:
  assumes "step_pc Normal t p s = Some s'" "status s = Running" "status s' = Aborted"
  obtains fr g where "p = PPush fr g" "max_len (elem_size s) \<le> length (queue (mx s))"
  using assms
  by (cases p)
    (auto simp: machine_defs push_task_def
      split: machine_splits)

text \<open>A thread that is about to push is not in the queue, and the others are there once each.\<close>

lemma queue_room:
  assumes inv: "sys_inv s" and T: "finite (unfinished s)" and pc: "pcs s t = PPush fr g"
  shows "length (queue (mx s)) < card (unfinished s)"
proof -
  note Q = protoD(1) [OF inv_proto [OF inv]]
  have "in_queue (stages s u)" if "u \<in> owner ` set (queue (mx s))" for u
    using Q that by (simp add: queue_inv_def)
  then have "u \<in> unfinished s - {t}" if "u \<in> owner ` set (queue (mx s))" for u
    using that pc by (fastforce simp: unfinished_def stage_at)
  then have "owner ` set (queue (mx s)) \<subseteq> unfinished s - {t}" by blast
  moreover have "card (owner ` set (queue (mx s))) = length (queue (mx s))"
    using Q distinct_card [of "map owner (queue (mx s))"] by (simp add: queue_inv_def)
  moreover have "t \<in> unfinished s" using pc by (simp add: unfinished_def)
  ultimately show ?thesis
    using T by (metis card_Diff1_less card_mono finite_Diff le_less_trans)
qed

definition enough_room :: "('v, 'fs, 'm, 'u, 'r) sys \<Rightarrow> bool" where
  "enough_room s \<longleftrightarrow> finite (unfinished s) \<and> card (unfinished s) \<le> max_len (elem_size s)"

lemma normal_step:
  assumes inv: "sys_inv s" and room: "enough_room s" and step: "thread_step Normal t s = Some s'"
  shows "status s' = Running" "enough_room s'"
proof -
  from step have run: "status s = Running" and step': "step_pc Normal t (pcs s t) s = Some s'"
    by (simp_all add: thread_step_def split: if_splits)
  have "status s' \<noteq> Aborted"
  proof
    assume "status s' = Aborted"
    with normal_abort [OF step' run] obtain fr g
      where "pcs s t = PPush fr g" "max_len (elem_size s) \<le> length (queue (mx s))" by blast
    with queue_room [OF inv, of t fr g] room show False by (simp add: enough_room_def)
  qed
  moreover have "status s' \<noteq> Undefined"
    using invD(1) [OF sys_inv_step [OF sys_step.thread [OF step] inv]] .
  ultimately show "status s' = Running" by (cases "status s'") simp_all
  have sub: "unfinished s' \<subseteq> unfinished s" by (rule step_unfinished(2) [OF step])
  have "finite (unfinished s)" using room by (simp add: enough_room_def)
  from finite_subset [OF sub this] card_mono [OF this sub] room step_elem_size [OF step']
  show "enough_room s'" by (simp add: enough_room_def)
qed

lemma normal_run:
  "run (by_threads ts) s = Some s' \<Longrightarrow> calm_inv s \<Longrightarrow> enough_room s \<Longrightarrow> status s = Running \<Longrightarrow>
     calm_inv s' \<and> enough_room s' \<and> status s' = Running"
proof (induction ts arbitrary: s)
  case (Cons t ts)
  then obtain s1 where s1: "thread_step Normal t s = Some s1" "run (by_threads ts) s1 = Some s'"
    by (auto simp: by_threads_def split: option.splits)
  have "sys_inv s" using Cons.prems by (simp add: calm_inv_def)
  with Cons s1 normal_step [OF _ _ s1(1)] calm_step [OF sys_step.thread [OF s1(1)]] show ?case by blast
qed (simp add: by_threads_def)

lemma calm_stuck:
  assumes "calm_inv s" "status s = Running" "\<forall>t. thread_step Normal t s = None"
  shows "pcs s t = PClient Exit"
  using progress [of s t] assms by (auto simp: calm_inv_def)

lemma calm_finish:
  assumes "calm_inv s" "enough_room s" "status s = Running" "finite T" "unfinished s \<subseteq> T"
  shows "\<exists>ts s'. run (by_threads ts) s = Some s' \<and> (\<forall>t. thread_step Normal t s' = None)"
  using wf_mult [OF wf_moves] assms
proof (induction "work_left T s" arbitrary: s rule: wf_induct_rule)
  case less
  show ?case
  proof (cases "\<forall>t. thread_step Normal t s = None")
    case True
    then show ?thesis by (intro exI [of _ "[]"] exI [of _ s]) (simp add: by_threads_def)
  next
    case False
    then obtain t s1 where s1: "thread_step Normal t s = Some s1" by auto
    have inv: "sys_inv s" using less.prems by (simp add: calm_inv_def)
    note after = normal_step [OF inv less.prems(2) s1]
    have "(work_left T s1, work_left T s) \<in> mult {(y, x). moves x y}"
      using work_decreases [OF inv s1 _ after(1) less.prems(4,5)] by simp
    moreover have "calm_inv s1" by (rule calm_step [OF sys_step.thread [OF s1] less.prems(1)])
    moreover have "unfinished s1 \<subseteq> T" using step_unfinished(2) [OF s1] less.prems(5) by blast
    ultimately obtain ts s' where "run (by_threads ts) s1 = Some s'" "\<forall>t. thread_step Normal t s' = None"
      using less.hyps [of s1] after less.prems(4) by blast
    with s1 show ?thesis
      by (intro exI [of _ "t # ts"] exI [of _ s']) (simp add: by_threads_def)
  qed
qed

text \<open>
  C13. Every call returns: if no callback panics, no guard is forgotten, and the queue can hold a
  task of every thread, then from any reachable state the threads can run to the ends of their programs
  without spurious wake-ups, and however they are scheduled, when no thread can move any more
  all of them are at the end of their programs, and the process has not aborted.
\<close>

theorem all_calls_return:
  assumes r: "reachable fs opts msize esize ms clients s" and calm: "\<forall>t. calm_client (clients t)"
    and run: "status s = Running"
    and room: "finite (unfinished s)" "card (unfinished s) \<le> max_len (elem_size s)"
  shows "(\<exists>ts s'. run (by_threads ts) s = Some s' \<and> (\<forall>t. pcs s' t = PClient Exit)) \<and>
    (\<forall>ts s'. run (by_threads ts) s = Some s' \<and> (\<forall>t. thread_step Normal t s' = None) \<longrightarrow>
      status s' = Running \<and> (\<forall>t. pcs s' t = PClient Exit))"
proof -
  note inv = calm_reachable [OF r calm]
  have room': "enough_room s" using room by (simp add: enough_room_def)
  have finished: "status s' = Running \<and> (\<forall>t. pcs s' t = PClient Exit)"
    if "run (by_threads ts) s = Some s'" "\<forall>t. thread_step Normal t s' = None" for ts s'
    using normal_run [OF that(1) inv room' run] calm_stuck [of s', OF _ _ that(2)] by blast
  with calm_finish [OF inv room' run room(1) subset_refl] show ?thesis by blast
qed

lemma ex_clients_calm: "calm_client (ex_clients t)"
  by (simp add: ex_clients_def merge_task_def split: outcome.split option.split)

theorem all_calls_return_witness:
  "\<exists>ts s'. run (by_threads ts) ex_blocked = Some s' \<and> (\<forall>t. pcs s' t = PClient Exit)"
proof -
  have fin: "finite (unfinished ex_blocked)" by (simp add: ex_blocked_def ex_unfinished)
  have "unfinished ex_blocked \<subseteq> {0, 1}" by (auto simp: unfinished_def ex_blocked_def)
  from card_mono [OF _ this] have "card (unfinished ex_blocked) \<le> 2" by simp
  also have "2 \<le> max_len (elem_size ex_blocked)"
    by (simp add: max_len_def ex_blocked_def ex_state_def)
  finally have room: "card (unfinished ex_blocked) \<le> max_len (elem_size ex_blocked)" .
  have run: "status ex_blocked = Running" by (simp add: ex_blocked_def)
  have calm: "\<forall>t. calm_client (ex_clients t)" using ex_clients_calm by blast
  show ?thesis
    by (rule conjunct1 [OF all_calls_return [OF ex_reachable_states(1) calm run fin room]])
qed

end
