(* ===== verification/Provenance.thy ===== *)
theory Provenance
  imports Completion
begin

text \<open>
  Where values, poison and panic bits come from: a callback is run on the value its own thread
  submitted; the queue's poison flag is set only after an internal panic over a poison check,
  and the mutex's by the panics that drop a guard.
\<close>

section \<open>Values\<close>

text \<open>The value a waiting thread has submitted.\<close>

fun submitted :: "('v, 'fs, 'm, 'u, 'r) pc \<Rightarrow> 'v option" where
  "submitted (PWait fr g) = Some (fr_value fr)"
| "submitted (PBlocked fr g) = Some (fr_value fr)"
| "submitted (PRelock fr g) = Some (fr_value fr)"
| "submitted (PCheckBit fr g) = Some (fr_value fr)"
| "submitted (PPopSelf fr g b) = Some (fr_value fr)"
| "submitted _ = None"

fun own_value :: "('v, 'fs, 'm, 'u, 'r) pc \<Rightarrow> bool" where
  "own_value (PQueuePoison fr g w) \<longleftrightarrow> (\<forall>v. w = WaitProcess v \<longrightarrow> v = fr_value fr)"
| "own_value (PMutexPoison fr g v) \<longleftrightarrow> v = fr_value fr"
| "own_value _ \<longleftrightarrow> True"

definition owned_task :: "(tid \<Rightarrow> 'v option) \<Rightarrow> 'v ErasedTask \<Rightarrow> bool" where
  "owned_task V et \<longleftrightarrow> value_of et = None \<or> value_of et = V (owner et)"

definition values_own :: "('v, 'fs, 'm, 'u, 'r) sys \<Rightarrow> bool" where
  "values_own s \<longleftrightarrow> sys_inv s \<and> (\<forall>t. own_value (pcs s t)) \<and>
     (\<forall>et \<in> set (queue (mx s)). owned_task (\<lambda>t. submitted (pcs s t)) et)"

lemma values_ownI:
  assumes "sys_inv s'" "values_own s" "pcs s' = (pcs s)(t := p)" "own_value p"
    and "\<And>et. et \<in> set (queue (mx s')) \<Longrightarrow> owned_task ((\<lambda>t. submitted (pcs s t))(t := submitted p)) et"
  shows "values_own s'"
proof -
  have "(\<lambda>u. submitted (pcs s' u)) = (\<lambda>t. submitted (pcs s t))(t := submitted p)"
    using assms(3) by auto
  with assms show ?thesis by (auto simp: values_own_def)
qed

text \<open>A task of another thread is not affected by what one thread does next.\<close>

lemma owned_other:
  "owned_task V et \<Longrightarrow> owner et \<noteq> t \<Longrightarrow> owned_task (V(t := x)) et"
  by (simp add: owned_task_def)

lemma not_queued:
  "sys_inv s \<Longrightarrow> \<not> in_queue (stages s t) \<Longrightarrow> et \<in> set (queue (mx s)) \<Longrightarrow> owner et \<noteq> t"
  using protoD(1) [OF inv_proto, of s] by (auto simp: queue_inv_def)

lemma owned_taken [simp]: "owned_task V (taken et)"
  by (simp add: owned_task_def)

lemma owned_rest:
  assumes "values_own s" "et \<in> set (queue (mx s))" "\<not> in_queue (stages s t) \<or> owner et \<noteq> t"
  shows "owned_task ((\<lambda>t. submitted (pcs s t))(t := x)) et"
  using assms not_queued [of s t et] by (auto simp: values_own_def intro!: owned_other)

lemma values_own_push:
  assumes inv: "values_own s" "sys_inv (step_push ch t fr g s)" and pc: "pcs s t = PPush fr g"
  shows "values_own (step_push ch t fr g s)"
proof (cases "push_task (ch = AllocFails) (elem_size s) t (fr_value fr) (mx s)")
  case None
  with inv show ?thesis by (simp add: step_push_def values_own_def)
next
  case (Some m)
  note m = push_task_queue [OF Some]
  let ?et = "erased_new \<lparr>task_state = t, task_value = Some (fr_value fr)\<rparr>"
  have s': "step_push ch t fr g s = set_pc t (PWait fr g) (set_mx m s)"
    by (simp add: step_push_def Some)
  have "owned_task ((\<lambda>t. submitted (pcs s t))(t := submitted (PWait fr g))) ?et"
    by (simp add: owned_task_def)
  with owned_rest [OF inv(1), of _ t "submitted (PWait fr g)"]
  have "owned_task ((\<lambda>t. submitted (pcs s t))(t := submitted (PWait fr g))) et"
    if "et \<in> set (queue (mx s) @ [?et])" for et
    using that by (auto simp: stage_at pc simp del: fun_upd_apply)
  with m show ?thesis
    by (intro values_ownI [OF inv(2,1), where t = t and p = "PWait fr g"]) (simp_all add: s')
qed

lemma values_own_pop_self:
  assumes inv: "values_own s" "sys_inv (step_pop_self t fr g b s)" and pc: "pcs s t = PPopSelf fr g b"
  shows "values_own (step_pop_self t fr g b s)"
proof -
  have "sys_inv s" using inv(1) by (simp add: values_own_def)
  from pop_self_own [OF this pc] obtain et q
    where q: "queue (mx s) = et # q" "owner et = t" "is_init et" .
  have "t \<notin> owner ` set q"
    using protoD(1) [OF inv_proto [OF \<open>sys_inv s\<close>]] q by (simp add: queue_inv_def)
  then have other: "owner et' \<noteq> t" if "et' \<in> set q" for et' using that by blast
  have own: "value_of et = None \<or> value_of et = Some (fr_value fr)"
    using inv(1) q pc by (simp add: values_own_def owned_task_def)
  let ?w = "case value_of et of Some v \<Rightarrow> WaitProcess v
    | None \<Rightarrow> if b then WaitProcessingPanicked else WaitProcessedElsewhere"
  have s': "step_pop_self t fr g b s = set_pc t (PQueuePoison fr g ?w) (set_mx ((mx s)\<lparr>queue := q\<rparr>) s)"
    by (simp add: step_pop_self_def pop_this_task_Cons [OF q(1,3,2)] Let_def)
  show ?thesis
  proof (rule values_ownI [OF inv(2,1), where t = t and p = "PQueuePoison fr g ?w"])
    show "own_value (PQueuePoison fr g ?w)" using own by (auto split: option.splits)
    fix et' assume "et' \<in> set (queue (mx (step_pop_self t fr g b s)))"
    then show "owned_task ((\<lambda>t. submitted (pcs s t))(t := submitted (PQueuePoison fr g ?w))) et'"
      using owned_rest [OF inv(1)] other q by (auto simp: s')
  qed (simp add: s')
qed

lemma values_own_pop:
  assumes inv: "values_own s" "sys_inv (step_callback t fr h (CbPop k) s)"
    and pc: "pcs s t = PCallback fr h (CbPop k)"
  shows "values_own (step_callback t fr h (CbPop k) s)"
proof -
  have si: "sys_inv s" using inv(1) by (simp add: values_own_def)
  have old: "owned_task ((\<lambda>t. submitted (pcs s t))(t := None)) et" if "et \<in> set (queue (mx s))" for et
    using owned_rest [OF inv(1) that] by (simp add: stage_at pc)
  show ?thesis
  proof (rule callback_facts [OF si pc])
    assume h: "handle_ready h" "handle_ok h (mx s)"
    show ?thesis
    proof (cases "unat (next_idx h) < length (queue (mx s))")
      case True
      show ?thesis
        by (rule values_ownI [OF inv(2,1)])
          (use old in \<open>auto simp: step_callback_def handle_pop_ok [OF h(2,1) True] Let_def
             simp del: fun_upd_apply dest!: set_update_subset_insert [THEN subsetD]\<close>)
    next
      case False
      show ?thesis
        by (rule values_ownI [OF inv(2,1)])
          (use old in \<open>auto simp: step_callback_def handle_pop_empty [OF h(2,1) False] Let_def
             simp del: fun_upd_apply\<close>)
    qed
  qed
qed

text \<open>A thread in the queue keeps its frame.\<close>

lemma step_own_pc:
  assumes "step_pc ch t p s = Some s'" shows "pcs s' = (pcs s)(t := pcs s' t)"
  using step_other_pc [OF assms] by (auto simp: fun_eq_iff)

lemma same_submission:
  assumes "step_pc ch t p s = Some s'" "pcs s t = p" "own_value p"
    "\<And>fr g. p \<noteq> PPush fr g" "\<And>fr g b. p \<noteq> PPopSelf fr g b"
  shows "own_value (pcs s' t) \<and> (in_queue (stage_of p) \<longrightarrow> submitted (pcs s' t) = submitted p)"
  using assms
  by (cases p)
    (auto simp: machine_defs
      split: machine_splits TaskWaitResult.splits)

lemma values_own_step:
  assumes "sys_step s s'" "values_own s" shows "values_own s'"
proof -
  from assms(1) obtain ch t where step: "step_pc ch t (pcs s t) s = Some s'"
    by (blast elim: sys_step_pcE)
  have inv': "sys_inv s'" using sys_inv_step [OF assms(1)] assms(2) by (simp add: values_own_def)
  consider fr g where "pcs s t = PPush fr g" | fr g b where "pcs s t = PPopSelf fr g b"
    | fr h k where "pcs s t = PCallback fr h (CbPop k)"
    | "\<And>fr g. pcs s t \<noteq> PPush fr g" "\<And>fr g b. pcs s t \<noteq> PPopSelf fr g b"
      "\<And>fr h k. pcs s t \<noteq> PCallback fr h (CbPop k)" by blast
  then show ?thesis
  proof cases
    case 4
    have "own_value (pcs s t)" using assms(2) by (simp add: values_own_def)
    note same = same_submission [OF step refl this 4(1,2)]
    let ?p = "pcs s' t"
    show ?thesis
    proof (rule values_ownI [OF inv' assms(2) step_own_pc [OF step] conjunct1 [OF same]])
      fix et assume "et \<in> set (queue (mx s'))"
      then have et: "et \<in> set (queue (mx s))" using queue_unchanged [OF step 4] by simp
      show "owned_task ((\<lambda>t. submitted (pcs s t))(t := submitted ?p)) et"
      proof (cases "in_queue (stages s t)")
        case True
        with same have "(\<lambda>t. submitted (pcs s t))(t := submitted ?p) = (\<lambda>t. submitted (pcs s t))"
          by (auto simp: stage_at)
        with assms(2) et show ?thesis by (simp add: values_own_def)
      qed (use owned_rest [OF assms(2) et] in blast)
    qed
  qed (use step values_own_push [OF assms(2)] values_own_pop_self [OF assms(2)]
    values_own_pop [OF assms(2)] inv' in \<open>auto simp: step_pc_def\<close>)
qed

interpretation values_own: invariant sys_step values_own
  by unfold_locales (rule values_own_step)

lemma values_own_reachable: "reachable fs opts msize esize ms clients s \<Longrightarrow> values_own s"
proof -
  assume r: "reachable fs opts msize esize ms clients s"
  then have "sys_inv (initial fs opts msize esize ms clients)"
    by (auto simp: reachable_def intro: sys_inv_initial)
  then have "values_own (initial fs opts msize esize ms clients)"
    by (simp add: values_own_def) (simp add: initial_def new_with_options_def mutex_exclusive_mut_def)
  with values_own.reach_inv r show ?thesis unfolding reachable_def by blast
qed

text \<open>
  C18. Values go where they belong: a thread that runs its own callback runs it on the value its
  caller passed to this call, and a task in the queue holds the value that its thread passed
  to the call it is waiting in, or none if it was popped.
\<close>

theorem values_belong:
  assumes r: "reachable fs opts msize esize ms clients s"
  shows "(\<forall>fr g v. pcs s t = PMutexPoison fr g v \<longrightarrow> v = fr_value fr) \<and>
    (\<forall>et \<in> set (queue (mx s)). value_of et = None \<or> value_of et = submitted (pcs s (owner et)))"
proof -
  from values_own_reachable [OF r] have own: "own_value (pcs s t)" for t by (simp add: values_own_def)
  have "v = fr_value fr" if "pcs s t = PMutexPoison fr g v" for fr g v
    using own [of t] that by simp
  with values_own_reachable [OF r] show ?thesis by (auto simp: values_own_def owned_task_def)
qed

theorem values_belong_witness: "value_of (ex_task (Some 11)) = submitted (PBlocked (ex_frame 11) ex_guard)"
  using values_belong [OF ex_reachable_states(2)] by (simp add: ex_pop_def)

section \<open>The poison of the queue\<close>

text \<open>A leaked guard stays leaked.\<close>

lemma leaked_step:
  assumes "step_pc ch u p s = Some s'" and "holder (mutexes s a) = Leaked t"
    and "\<And>x. guard_of p = Some x \<Longrightarrow> x \<noteq> a"
  shows "holder (mutexes s' a) = Leaked t"
  using assms
  by (cases p)
    (auto simp: machine_defs
      handle_mutex_state_mut_def bind_res_Ret relock_new_def
      split: machine_splits elim!: assume_initE)

lemma leaked_keeps:
  assumes inv: "sys_inv s" and step: "step_pc ch u (pcs s u) s = Some s'"
    and leaked: "holder (mutexes s a) = Leaked t"
  shows "holder (mutexes s' a) = Leaked t"
proof (rule leaked_step [OF step leaked])
  fix x assume "guard_of (pcs s u) = Some x"
  then show "x \<noteq> a"
    using invD(2) [OF inv] leaked unfolding guards_inv_def holders_def guards_def
    by (metis hold.distinct(5))
qed

lemma options_step:
  assumes "step_pc ch t p s = Some s'" shows "options (cq s') = options (cq s)"
  using assms
  by (cases p)
    (auto simp: machine_defs assert_mutex_good_eq
      try_acquire_front_fast_def
      split: machine_splits)

text \<open>The flag is set at one point only, and cleared by the two methods that are for it.\<close>

lemma flag_kept:
  "push_task b n t v m = Some m' \<Longrightarrow> queue_poisoned m' = queue_poisoned m"
  "queue_poisoned (snd (pop_this_task t b m)) = queue_poisoned m"
  "queue_poisoned (snd (snd (handle_pop h m))) = queue_poisoned m"
  "transfer_front wake F m = Ret (F', m') \<Longrightarrow> queue_poisoned m' = queue_poisoned m"
  by (auto simp: push_task_def Let_def pop_this_task_def handle_pop_def transfer_front_def bind_res_Ret
      split: if_splits option.splits prod.splits MaybeUninit.splits res.splits)

fun sets_poison :: "('v, 'fs, 'm, 'u, 'r) pc \<Rightarrow> bool" where
  "sets_poison (PErrHandoff fr g x) = True"
| "sets_poison (PClearWrite g k) = True"
| "sets_poison (PCallback fr h cb) = (\<exists>cb'. cb = CbClearQueuePoison cb')"
| "sets_poison (PUnlockedHolds fr h g x k) = (\<exists>f. x = ClearsPoison f)"
| "sets_poison _ = False"

lemma poison_kept_callback:
  assumes "\<not> sets_poison (PCallback fr h cb)"
  shows "queue_poisoned (mx (step_callback t fr h cb s)) = queue_poisoned (mx s)"
  using assms flag_kept(3) [of h "mx s"]
  by (cases cb)
    (auto simp: step_callback_def Let_def split: res.splits prod.splits MaybeUninit.splits)

lemma poison_kept:
  assumes step: "step_pc ch t p s = Some s'" and p: "\<not> sets_poison p"
  shows "queue_poisoned (mx s') = queue_poisoned (mx s)"
proof (cases "uses_mutex_exclusive p")
  case True
  show ?thesis
  proof (cases p)
    case (PPopSelf fr g b)
    with step flag_kept(2) [of t b "mx s"] show ?thesis
      by (auto simp: step_pc_def step_pop_self_def split: prod.splits res.splits)
  next
    case (PCallback fr h cb)
    with step p poison_kept_callback [of fr h cb t s] show ?thesis by (auto simp: step_pc_def)
  qed (use True p step in \<open>auto simp: step_pc_def step_acquire_def try_acquire_front_fast_def
    step_push_def step_check_bit_def step_queue_poison_def step_mutex_poison_def step_handoff_def
    finish_ok_def step_is_read_def step_holding_def Let_def flag_kept
    split: option.splits res.splits if_splits holding.splits\<close>)
next
  case False
  with step_keeps_mutex_exclusive [OF step] show ?thesis by simp
qed

lemma poison_flag_step:
  assumes "step_pc ch t p s = Some s'" "queue_poisoned (mx s') \<noteq> queue_poisoned (mx s)"
  shows "if queue_poisoned (mx s') then \<exists>fr g x. p = PErrHandoff fr g x
    else (\<exists>g k. p = PClearWrite g k) \<or> (\<exists>fr h g f k. p = PUnlockedHolds fr h g (ClearsPoison f) k) \<or>
      (\<exists>fr h cb. p = PCallback fr h (CbClearQueuePoison cb))"
proof -
  have "sets_poison p" using poison_kept [OF assms(1)] assms(2) by metis
  then consider fr g x where "p = PErrHandoff fr g x" | g k where "p = PClearWrite g k"
    | fr h cb where "p = PCallback fr h (CbClearQueuePoison cb)"
    | fr h g f kc where "p = PUnlockedHolds fr h g (ClearsPoison f) kc"
    by (cases p) auto
  then show ?thesis
  proof cases
    case 1
    then have "queue_poisoned (mx s') \<or> s' = undefined_behaviour s"
      using assms(1)
      by (auto simp: step_pc_def step_err_handoff_def finish_err_def leave_unwinding_def flag_kept
        split: res.splits)
    with assms(2) 1 show ?thesis by auto
  next
    case 2
    with assms(1) show ?thesis by (auto simp: step_pc_def step_clear_write_def)
  next
    case 3
    with assms show ?thesis
      by (auto simp: step_pc_def step_callback_def handle_clear_queue_poison_def bind_res_Ret
        split: res.splits)
  next
    case 4
    with assms(1) show ?thesis by (auto simp: step_pc_def step_holding_def)
  qed
qed

text \<open>
  Why a call can get to the \<open>Err\<close> branch and past its lock: over a check of poison that the
  options ask for. After a panic of the callback the lock is that of a leaked guard.
\<close>

definition poison_panic :: "PanicOptions \<Rightarrow> panic \<Rightarrow> bool" where
  "poison_panic opts x \<longleftrightarrow>
     x = QueuePoisoned \<and> unwrap_queue_poison opts \<or> x = MutexPoisoned \<and> unwrap_mutex_poison opts"

fun reason :: "PanicOptions \<Rightarrow> (addr \<Rightarrow> hold) \<Rightarrow> ('v, 'fs, 'm, 'u, 'r) pc \<Rightarrow> bool" where
  "reason opts H (PErrLock fr x) \<longleftrightarrow> poison_panic opts x \<or> (\<exists>u. H (fr_mutex fr) = Leaked u)"
| "reason opts H (PErrHandoff fr g x) \<longleftrightarrow> poison_panic opts x"
| "reason opts H _ \<longleftrightarrow> True"

definition reasons :: "PanicOptions \<Rightarrow> ('v, 'fs, 'm, 'u, 'r) sys \<Rightarrow> bool" where
  "reasons opts s \<longleftrightarrow>
     sys_inv s \<and> options (cq s) = opts \<and> (\<forall>t. reason opts (holders s) (pcs s t))"

lemma reason_mono:
  "reason opts H p \<Longrightarrow> (\<And>a u. H a = Leaked u \<Longrightarrow> H' a = Leaked u) \<Longrightarrow> reason opts H' p"
  by (cases p) (simp_all, blast)

lemma reason_own:
  assumes inv: "sys_inv s" and step: "step_pc ch t (pcs s t) s = Some s'"
    and reason: "reason (options (cq s)) (holders s) (pcs s t)"
  shows "reason (options (cq s)) (holders s') (pcs s' t)"
proof (cases "\<exists>fr h n. pcs s t = PCallback fr h (CbPanic n)")
  case True
  then obtain fr h n where pc: "pcs s t = PCallback fr h (CbPanic n)" by blast
  show ?thesis
  proof (rule callback_facts [OF inv pc])
    fix g assume "qh_guard h = Init g" "guard_mutex g = fr_mutex fr"
    with step pc show ?thesis by (auto simp: step_pc_def step_callback_def leak_guard_def)
  qed
next
  case False
  with step reason show ?thesis
    by (cases "pcs s t")
      (auto simp: machine_defs poison_panic_def
        holders_def
        split: machine_splits TaskWaitResult.splits)
qed

lemma reasons_step:
  assumes "sys_step s s'" "reasons opts s" shows "reasons opts s'"
proof -
  from assms(1) obtain ch t where step: "step_pc ch t (pcs s t) s = Some s'"
    by (blast elim: sys_step_pcE)
  have inv: "sys_inv s" and opts: "options (cq s) = opts"
    and reason: "reason opts (holders s) (pcs s u)" for u
    using assms(2) by (simp_all add: reasons_def)
  have "reason opts (holders s') (pcs s' u)" for u
  proof (cases "u = t")
    case True
    with reason_own [OF inv step] reason opts show ?thesis by simp
  next
    case False
    show ?thesis unfolding step_other_pc [OF step False]
      by (rule reason_mono [OF reason]) (use leaked_keeps [OF inv step] in \<open>simp add: holders_def\<close>)
  qed
  with options_step [OF step] opts sys_inv_step [OF assms(1) inv] show ?thesis
    by (simp add: reasons_def)
qed

interpretation reasons: invariant sys_step "reasons opts"
  by unfold_locales (rule reasons_step)

lemma reasons_initial:
  assumes "\<And>t. client_ok (clients t)" shows "reasons opts (initial fs opts msize esize ms clients)"
  using sys_inv_initial [OF assms]
  by (simp add: reasons_def) (simp add: initial_def new_with_options_def)

lemma reasons_reachable:
  "reachable fs opts msize esize ms clients s \<Longrightarrow> reasons opts s"
  unfolding reachable_def by (metis reasons.reach_inv reasons_initial)

text \<open>
  C29. Where the queue's poison comes from: a step that sets the flag is the hand-over after a
  panic over a check of poison that the options ask for, and never one after a panic of a
  callback; a step that clears it is one of the two methods \<open>clear_queue_poison\<close>, called by a
  client, by a closure of \<open>unlocked\<close> or on the handle.
\<close>

theorem queue_poison_provenance:
  assumes r: "reachable fs opts msize esize ms clients s" and step: "thread_step ch t s = Some s'"
    and change: "queue_poisoned (mx s') \<noteq> queue_poisoned (mx s)"
  shows "if queue_poisoned (mx s')
    then \<exists>fr g x. pcs s t = PErrHandoff fr g x \<and>
      (x = QueuePoisoned \<and> unwrap_queue_poison opts \<or> x = MutexPoisoned \<and> unwrap_mutex_poison opts)
    else (\<exists>g k. pcs s t = PClearWrite g k) \<or>
      (\<exists>fr h g f k. pcs s t = PUnlockedHolds fr h g (ClearsPoison f) k) \<or>
      (\<exists>fr h cb. pcs s t = PCallback fr h (CbClearQueuePoison cb))"
proof -
  from step have "step_pc ch t (pcs s t) s = Some s'" by (rule thread_stepD)
  note flag = poison_flag_step [OF this change]
  have "reason opts (holders s) (pcs s t)"
    using reasons_reachable [OF r] by (simp add: reasons_def)
  with flag show ?thesis by (auto simp: poison_panic_def split: if_splits)
qed

lemma poison_leaves: "\<exists>s'. thread_step Normal 0 poison_leaving = Some s' \<and> queue_poisoned (mx s')"
  by (simp add: run_state_simps poison_leaving_def ex_mx_def finish_err_def transfer_front_def
      vd_front_def leave_unwinding_def)

theorem queue_poison_provenance_witness:
  "\<exists>s'. thread_step Normal 0 poison_leaving = Some s' \<and> queue_poisoned (mx s') \<and>
     unwrap_mutex_poison default_options"
proof -
  obtain s' where s': "thread_step Normal 0 poison_leaving = Some s'" "queue_poisoned (mx s')"
    using poison_leaves by blast
  have "\<not> queue_poisoned (mx poison_leaving)"
    by (simp add: poison_leaving_def mutex_exclusive_mut_def ex_mx_def)
  with queue_poison_provenance [OF poison_reachable [OF poison_run] s'(1)] s' show ?thesis
    by (auto simp: poison_leaving_def default_options_def)
qed

text \<open>
  C27. The hand-over of the \<open>Err\<close> branch, after its lock. A call gets here only with a panic that
  the crate raised itself, because it found the queue or the mutex poisoned and the options ask
  for a panic; a panic of the callback does not get past the lock. The queue is poisoned; the
  thread of the oldest queued task gets its front bit and its panic bit set and is notified, or
  the permission is released if no task is queued; the mutex is unlocked without poisoning it, and
  the panic goes on into the caller.
\<close>

theorem handoff_panicking:
  assumes r: "reachable fs opts msize esize ms clients s" and run: "status s = Running"
    and pc: "pcs s t = PErrHandoff fr g p"
  shows "poison_panic opts p \<and> (\<exists>F m. thread_step ch t s =
      Some (leave_unwinding t fr p (dropping False g (set_mx m (s\<lparr>frames := F\<rparr>)))) \<and>
    queue_poisoned m \<and> queue m = queue (mx s) \<and>
    (queue (mx s) = [] \<longrightarrow> \<not> front_locked m \<and> F = frames s) \<and>
    (\<forall>et q. queue (mx s) = et # q \<longrightarrow> front_locked m = front_locked (mx s) \<and>
      (\<exists>ts. frames s (owner et) = Some ts \<and> F = (frames s)(owner et \<mapsto> wake_front_task_panicking ts) \<and>
        front_bit (wake_front_task_panicking ts) \<and> panic_bit (wake_front_task_panicking ts))))"
proof
  have "reason opts (holders s) (pcs s t)" using reasons_reachable [OF r] by (simp add: reasons_def)
  then show "poison_panic opts p" by (simp add: pc)
  show "\<exists>F m. thread_step ch t s =
      Some (leave_unwinding t fr p (dropping False g (set_mx m (s\<lparr>frames := F\<rparr>)))) \<and>
    queue_poisoned m \<and> queue m = queue (mx s) \<and>
    (queue (mx s) = [] \<longrightarrow> \<not> front_locked m \<and> F = frames s) \<and>
    (\<forall>et q. queue (mx s) = et # q \<longrightarrow> front_locked m = front_locked (mx s) \<and>
      (\<exists>ts. frames s (owner et) = Some ts \<and> F = (frames s)(owner et \<mapsto> wake_front_task_panicking ts) \<and>
        front_bit (wake_front_task_panicking ts) \<and> panic_bit (wake_front_task_panicking ts)))"
  proof (cases "queue (mx s)")
    case Nil
    then show ?thesis
      by (intro exI [of _ "frames s"] exI [of _ "(mx s)\<lparr>queue_poisoned := True, front_locked := False\<rparr>"])
        (simp add: thread_step_pc [OF run] step_pc_def pc step_err_handoff_def finish_err_def
          transfer_front_Nil)
  next
    case (Cons et q)
    have "proto_inv (stages s) (frames s) (et # q) (front_locked (mx s)) (lost s) (max_len (elem_size s))"
      using inv_proto [OF reachable_inv [OF r]] Cons by simp
    then obtain ts where ts: "is_init et" "frames s (owner et) = Some ts" using proto_head_frame by blast
    let ?F = "(frames s)(owner et \<mapsto> wake_front_task_panicking ts)"
    let ?m = "(mx s)\<lparr>queue_poisoned := True\<rparr>"
    have "transfer_front wake_front_task_panicking (frames s) ?m = Ret (?F, ?m)"
      using transfer_front_Cons [of ?m et q "frames s" ts] Cons ts by simp
    with Cons ts show ?thesis
      by (intro exI [of _ ?F] exI [of _ ?m])
        (simp add: thread_step_pc [OF run] step_pc_def pc step_err_handoff_def finish_err_def
          panic_waker.wake_front panic_waker.wake_panic)
  qed
qed

theorem handoff_panicking_witness:
  "\<exists>s'. thread_step Normal 0 poison_leaving = Some s' \<and> queue_poisoned (mx s') \<and>
     \<not> front_locked (mx s') \<and> holder (mutexes s' 8) = Free"
  using handoff_panicking [OF poison_reachable [OF poison_run], of 0 poison_frame ex_guard MutexPoisoned Normal]
  by (auto simp: poison_leaving_def leave_unwinding_def ex_guard_def mutex_exclusive_mut_def
      put_mutex_exclusive_def ex_mx_def)

definition unpoisoned :: "PanicOptions \<Rightarrow> ('v, 'fs, 'm, 'u, 'r) sys \<Rightarrow> bool" where
  "unpoisoned opts s \<longleftrightarrow> \<not> unwrap_mutex_poison opts \<and> \<not> unwrap_queue_poison opts \<and>
     reasons opts s \<and> \<not> queue_poisoned (mx s)"

lemma unpoisoned_step:
  assumes "sys_step s s'" "unpoisoned opts s" shows "unpoisoned opts s'"
proof -
  from assms(1) obtain ch t where step: "step_pc ch t (pcs s t) s = Some s'"
    by (blast elim: sys_step_pcE)
  have "reason opts (holders s) (pcs s t)" using assms(2) by (simp add: unpoisoned_def reasons_def)
  then have "\<not> queue_poisoned (mx s')"
    using poison_flag_step [OF step] assms(2)
    by (auto simp: unpoisoned_def poison_panic_def split: if_splits)
  with reasons_step [OF assms(1)] assms(2) show ?thesis by (simp add: unpoisoned_def)
qed

interpretation unpoisoned: invariant sys_step "unpoisoned opts"
  by unfold_locales (rule unpoisoned_step)

text \<open>
  C39. With both options off the queue's flag is never set, whatever panics: also a callback
  that panics leaves no poison for \<open>is_queue_poisoned\<close> to report.
\<close>

theorem never_poisoned_without_options:
  assumes r: "reachable fs opts msize esize ms clients s"
    and off: "\<not> unwrap_mutex_poison opts" "\<not> unwrap_queue_poison opts"
  shows "\<not> queue_poisoned (mx s)"
proof -
  have "reasons opts (initial fs opts msize esize ms clients)"
    using r by (auto simp: reachable_def intro: reasons_initial)
  then have "unpoisoned opts (initial fs opts msize esize ms clients)"
    using off by (simp add: unpoisoned_def)
      (simp add: initial_def new_with_options_def mutex_exclusive_mut_def)
  with unpoisoned.reach_inv r have "unpoisoned opts s" unfolding reachable_def by blast
  then show ?thesis by (simp add: unpoisoned_def)
qed

text \<open>One thread, whose callback panics.\<close>

definition options_off :: PanicOptions where
  "options_off = \<lparr>unwrap_mutex_poison = False, unwrap_queue_poison = False\<rparr>"

definition panic_alone :: "tid \<Rightarrow> ex_client" where
  "panic_alone t = (if t = 0 then CallLockAndProcess 8 10 (\<lambda>_. CbPanic 7) (\<lambda>_. Exit) else Exit)"

lemma panic_alone_run:
  "\<exists>s. run (by_threads [0, 0, 0, 0, 0, 0]) (initial 0 options_off 8 8 (\<lambda>_. 0) panic_alone) = Some s \<and>
     (\<exists>fr. pcs s 0 = PErrLock fr (UserPanic 7))"
  by (simp add: run_simps options_off_def panic_alone_def)

theorem never_poisoned_without_options_witness:
  "\<exists>s. run (by_threads [0, 0, 0, 0, 0, 0]) (initial 0 options_off 8 8 (\<lambda>_. 0) panic_alone) = Some s \<and>
     (\<exists>fr. pcs s 0 = PErrLock fr (UserPanic 7)) \<and> \<not> queue_poisoned (mx s)"
proof -
  obtain s where s: "run (by_threads [0, 0, 0, 0, 0, 0]) (initial 0 options_off 8 8 (\<lambda>_. 0) panic_alone) = Some s"
    "\<exists>fr. pcs s 0 = PErrLock fr (UserPanic 7)"
    using panic_alone_run by blast
  have "reachable 0 options_off 8 8 (\<lambda>_. 0) panic_alone s"
    using run_reach [OF s(1)] by (simp add: reachable_def panic_alone_def)
  from never_poisoned_without_options [OF this] s show ?thesis by (auto simp: options_off_def)
qed

section \<open>The poison of a mutex\<close>

text \<open>
  C30. Where the poison of a mutex comes from: client code that panics with the guard, in a
  session of its own or in a critical section of a closure of \<open>unlocked\<close>, and, in the crate, a
  failed mutex check or the panic over a poisoned queue on the slow path, which drop the guard
  while they unwind. Nothing else poisons a mutex; a panic of a callback
  does not.
\<close>

theorem mutex_poison_provenance:
  assumes r: "reachable fs opts msize esize ms clients s" and step: "thread_step ch t s = Some s'"
    and new: "\<not> poisoned (mutexes s a)" "poisoned (mutexes s' a)"
  shows "guard_of (pcs s t) = Some a \<and>
    ((\<exists>g c. pcs s t = PSession g (SPanic c)) \<or>
     (\<exists>fr h g n k. pcs s t = PUnlockedHolds fr h g (InCritical (CritPanic n)) k) \<or>
     (\<exists>fr g. pcs s t = PAssert fr g \<and> fst (assert_mutex_good (fr_mutex fr) (mutex_size s) (cq s)) \<noteq> Ret ()) \<or>
     (\<exists>fr g w. pcs s t = PQueuePoison fr g w \<and> unwrap_queue_poison opts \<and> queue_poisoned (mx s)))"
proof -
  note inv = reachable_inv [OF r]
  have opts: "options (cq s) = opts" using reasons_reachable [OF r] by (simp add: reasons_def)
  from step have step: "step_pc ch t (pcs s t) s = Some s'" by (rule thread_stepD)
  show ?thesis
    using step new opts invD(4) [OF inv, of t]
    by (cases "pcs s t")
      (auto simp: machine_defs lock_def
        drop_guard_def leak_guard_def handle_mutex_state_mut_def bind_res_Ret
        split: machine_splits)
qed

text \<open>The thread of \<open>poison_client\<close> panics while it holds the mutex.\<close>

lemma poison_start_panics:
  "\<exists>s s'. run (by_threads [0]) poison_start = Some s \<and> thread_step Normal 0 s = Some s' \<and>
     \<not> poisoned (mutexes s 8) \<and> poisoned (mutexes s' 8)"
  by (simp add: run_simps poison_start_def poison_client_def)

theorem mutex_poison_provenance_witness:
  "\<exists>s s'. run (by_threads [0]) poison_start = Some s \<and> thread_step Normal 0 s = Some s' \<and>
     \<not> poisoned (mutexes s 8) \<and> poisoned (mutexes s' 8) \<and> guard_of (pcs s 0) = Some 8"
proof -
  obtain s s' where s: "run (by_threads [0]) poison_start = Some s" "thread_step Normal 0 s = Some s'"
    "\<not> poisoned (mutexes s 8)" "poisoned (mutexes s' 8)"
    using poison_start_panics by blast
  from mutex_poison_provenance [OF poison_reachable [OF s(1)] s(2-4)] s show ?thesis by blast
qed

end
