(* ===== verification/Verdicts.thy ===== *)
theory Verdicts
  imports Provenance
begin

text \<open>
  When a call returns \<open>ProcessingPanicked\<close>. The panic bit is set only by the hand-over after a
  panic. Unless the queue's poison is unwrapped, that panic is one over the poison of the
  mutex, raised before the callback, so no value has been popped and the thread that is
  woken still has its value.
\<close>

definition panic_at :: "(tid \<Rightarrow> TaskState option) \<Rightarrow> tid \<Rightarrow> bool" where
  "panic_at F t \<longleftrightarrow> (case F t of None \<Rightarrow> False | Some ts \<Rightarrow> panic_bit ts)"

lemma panic_at_simps [simp]:
  "F t = Some ts \<Longrightarrow> panic_at F t = panic_bit ts"
  "panic_at (F(t \<mapsto> ts)) u = (if u = t then panic_bit ts else panic_at F u)"
  "panic_at (F(t := None)) u = (u \<noteq> t \<and> panic_at F u)"
  by (simp_all add: panic_at_def)

lemma panic_at_wait [simp]:
  "F t = Some ts \<Longrightarrow> panic_at (F(t \<mapsto> wait_enter t' ts)) u = panic_at F u"
  "F t = Some ts \<Longrightarrow> panic_at (F(t \<mapsto> wait_spurious t' ts)) u = panic_at F u"
  by (auto simp: panic_at_def)

fun panicked_verdict :: "('v, 'fs, 'm, 'u, 'r) pc \<Rightarrow> bool" where
  "panicked_verdict (PQueuePoison fr g w) \<longleftrightarrow> w = WaitProcessingPanicked"
| "panicked_verdict (PHandoff fr g r) \<longleftrightarrow> r = ProcessingPanicked"
| "panicked_verdict (PReturn fr g r) \<longleftrightarrow> r = ProcessingPanicked"
| "panicked_verdict _ \<longleftrightarrow> False"

fun mutex_poison_panic :: "('v, 'fs, 'm, 'u, 'r) pc \<Rightarrow> bool" where
  "mutex_poison_panic (PErrLock fr x) \<longleftrightarrow> x = MutexPoisoned"
| "mutex_poison_panic (PErrHandoff fr g x) \<longleftrightarrow> x = MutexPoisoned"
| "mutex_poison_panic _ \<longleftrightarrow> False"

abbreviation all_values :: "'v ErasedTask list \<Rightarrow> bool" where
  "all_values q \<equiv> \<forall>et \<in> set q. value_of et \<noteq> None"

text \<open>A thread woken with the panic bit is the head of the queue and still has its value.\<close>

definition bits_inv :: "('v, 'fs, 'm, 'u, 'r) sys \<Rightarrow> bool" where
  "bits_inv s \<longleftrightarrow> (\<forall>t. in_queue (stages s t) \<longrightarrow> panic_at (frames s) t \<longrightarrow>
     bit_at (frames s) t \<and> value_of (hd (queue (mx s))) \<noteq> None)"

definition verdict_inv :: "PanicOptions \<Rightarrow> ('v, 'fs, 'm, 'u, 'r) sys \<Rightarrow> bool" where
  "verdict_inv opts s \<longleftrightarrow> reasons opts s \<and> bits_inv s \<and>
     (\<forall>t. \<not> panicked_verdict (pcs s t)) \<and>
     ((\<exists>t. mutex_poison_panic (pcs s t)) \<longrightarrow> all_values (queue (mx s)))"

lemma mutex_poison_front: "mutex_poison_panic p \<Longrightarrow> at_front (stage_of p)"
  by (cases p) auto

text \<open>While a thread is at the front, no waiting thread has a bit.\<close>

lemma no_bits:
  assumes "sys_inv s" "bits_inv s" "at_front (stages s t)" "in_queue (stages s u)"
  shows "\<not> bit_at (frames s) u" "\<not> panic_at (frames s) u"
proof -
  show "\<not> bit_at (frames s) u"
    using front_bitD [OF protoD(3) [OF inv_proto [OF assms(1)]] assms(4)] assms(3) by blast
  with assms(2,4) show "\<not> panic_at (frames s) u" by (auto simp: bits_inv_def)
qed

section \<open>The verdict of a step\<close>

lemma own_verdict:
  assumes inv: "verdict_inv opts s" and step: "step_pc ch t (pcs s t) s = Some s'"
  shows "\<not> panicked_verdict (pcs s' t)"
proof (cases "\<exists>fr g b. pcs s t = PPopSelf fr g b")
  case True
  then obtain fr g b where pc: "pcs s t = PPopSelf fr g b" by blast
  have si: "sys_inv s" using inv by (simp add: verdict_inv_def reasons_def)
  have st: "stages s t = InQueue (Pops b)" by (simp add: stage_at pc)
  from frame_at [OF si st] obtain ts where ts: "frames s t = Some ts" "b = panic_bit ts" by auto
  from pop_self_own [OF si pc] obtain et q
    where q: "queue (mx s) = et # q" "owner et = t" "is_init et" .
  have "in_queue (stages s t) \<longrightarrow> panic_at (frames s) t \<longrightarrow> value_of (hd (queue (mx s))) \<noteq> None"
    using inv by (auto simp: verdict_inv_def bits_inv_def)
  with ts st q have "b \<Longrightarrow> value_of et \<noteq> None" by simp
  with step pc show ?thesis
    by (auto simp: step_pc_def step_pop_self_def pop_this_task_Cons [OF q(1,3,2)] Let_def
      split: option.splits if_splits)
next
  case False
  have "\<not> panicked_verdict (pcs s t)" using inv by (simp add: verdict_inv_def)
  with False step show ?thesis
    by (cases "pcs s t")
      (auto simp: machine_defs
        split: machine_splits TaskWaitResult.splits)
qed

section \<open>The bits after a step\<close>

lemma bits_keep:
  assumes inv: "verdict_inv opts s" and step: "step_pc ch t (pcs s t) s = Some s'"
    and queue: "\<And>u. in_queue (stages s' u) \<Longrightarrow> panic_at (frames s) u \<Longrightarrow>
      value_of (hd (queue (mx s'))) = value_of (hd (queue (mx s)))"
    and stay: "in_queue (stages s' t) \<Longrightarrow> in_queue (stages s t)"
    and same: "\<And>u. in_queue (stages s' u) \<Longrightarrow> panic_at (frames s') u = panic_at (frames s) u"
      "\<And>u. in_queue (stages s' u) \<Longrightarrow> bit_at (frames s) u \<Longrightarrow> bit_at (frames s') u"
  shows "bits_inv s'"
  unfolding bits_inv_def
proof (intro allI impI)
  fix u assume u: "in_queue (stages s' u)" "panic_at (frames s') u"
  have "in_queue (stages s u)"
    using u(1) stay step_other_pc [OF step, of u] by (cases "u = t") (auto simp: stage_at)
  with u inv same queue show "bit_at (frames s') u \<and> value_of (hd (queue (mx s'))) \<noteq> None"
    by (auto simp: verdict_inv_def bits_inv_def)
qed

lemma invisible_panic_bits:
  assumes "step_pc ch t p s = Some s'" "\<not> visible p" "in_queue (stage_of p) \<or> u \<noteq> t"
  shows "panic_at (frames s') u = panic_at (frames s) u"
  using assms
  by (cases p) (auto simp: invisible_defs split: machine_splits)

lemma bits_invisible:
  assumes inv: "verdict_inv opts s" and step: "step_pc ch t (pcs s t) s = Some s'"
    and "\<not> visible (pcs s t)"
  shows "bits_inv s'"
proof -
  note eff = invisible_step [OF step assms(3)]
  have stay: "in_queue (stages s' t) \<Longrightarrow> in_queue (stages s t)"
    using eff by (auto simp: stage_at)
  then have in_queue: "in_queue (stages s' u) \<Longrightarrow> in_queue (stage_of (pcs s t)) \<or> u \<noteq> t" for u
    by (auto simp: stage_at)
  show ?thesis
  proof (rule bits_keep [OF inv step _ stay])
    fix u assume "in_queue (stages s' u)"
    note in_queue [OF this]
    with eff invisible_panic_bits [OF step assms(3)]
    show "panic_at (frames s') u = panic_at (frames s) u"
      "bit_at (frames s) u \<Longrightarrow> bit_at (frames s') u" by auto
  qed (use eff in auto)
qed

text \<open>When the thread that moved is at the front afterwards, nobody has a bit.\<close>

lemma bits_front:
  assumes inv: "verdict_inv opts s" and step: "step_pc ch t (pcs s t) s = Some s'"
    and inv': "sys_inv s'" and front: "at_front (stages s' t)"
    and frames: "\<And>u. u \<noteq> t \<Longrightarrow> frames s' u = frames s u"
  shows "bits_inv s'"
  unfolding bits_inv_def
proof (intro allI impI)
  fix u assume u: "in_queue (stages s' u)" "panic_at (frames s') u"
  then have ut: "u \<noteq> t" using front at_front_not_in_queue by blast
  then have "in_queue (stages s u)" "panic_at (frames s) u"
    using u step_other_pc [OF step ut] frames by (simp_all add: stage_at panic_at_def)
  with inv have "bit_at (frames s) u" by (auto simp: verdict_inv_def bits_inv_def)
  moreover have "\<not> bit_at (frames s') u"
    using front_bitD [OF protoD(3) [OF inv_proto [OF inv']] u(1)] front by blast
  ultimately show "bit_at (frames s') u \<and> value_of (hd (queue (mx s'))) \<noteq> None"
    using frames [OF ut] by (simp add: bit_at_def)
qed

lemma bits_acquire:
  assumes inv: "verdict_inv opts s" and pc: "pcs s t = PAcquire fr g"
  shows "bits_inv (step_acquire t fr g s)"
proof (rule bits_keep [OF inv, of ch t])
  show "step_pc ch t (pcs s t) s = Some (step_acquire t fr g s)" by (simp add: pc step_pc_def)
qed (auto simp: step_acquire_def try_acquire_front_fast_def Let_def stage_at pc split: if_splits)

lemma bits_push:
  assumes inv: "verdict_inv opts s" and pc: "pcs s t = PPush fr g"
  shows "bits_inv (step_push ch t fr g s)" (is "bits_inv ?s'")
proof (cases "push_task (ch = AllocFails) (elem_size s) t (fr_value fr) (mx s)")
  case None
  with inv show ?thesis by (simp add: step_push_def verdict_inv_def bits_inv_def stage_at)
next
  case (Some m)
  note m = push_task_queue [OF Some]
  have si: "sys_inv s" using inv by (simp add: verdict_inv_def reasons_def)
  have s': "?s' = set_pc t (PWait fr g) (set_mx m s)" by (simp add: step_push_def Some)
  have new: "frames s t = Some TaskState_new"
    using protoD(2) [OF inv_proto [OF si]] pc by (simp add: frames_inv_def stage_at)
  have old: "in_queue (stages s u) \<longrightarrow> panic_at (frames s) u \<longrightarrow>
      bit_at (frames s) u \<and> value_of (hd (queue (mx s))) \<noteq> None" for u
    using inv by (simp add: verdict_inv_def bits_inv_def)
  have "bit_at (frames s) u \<and> value_of (hd (queue m)) \<noteq> None"
    if u: "in_queue (stages ?s' u)" "panic_at (frames s) u" for u
  proof -
    have "u \<noteq> t" using u new by auto
    with u have "in_queue (stages s u)" by (simp add: s' stage_at)
    moreover from this have "queue (mx s) \<noteq> []"
      using protoD(1) [OF inv_proto [OF si]] by (auto simp: queue_inv_def)
    ultimately show ?thesis using old [of u] u(2) m by simp
  qed
  then show ?thesis by (simp add: bits_inv_def s')
qed

text \<open>The two hand-overs, through the interface of the wake-ups.\<close>

context front_waker
begin

lemma transfer_wakes_head:
  assumes "transfer_front wake F m = Ret (F', m')"
  shows "queue m' = queue m \<and> (F' = F \<and> queue m = [] \<or>
    (\<exists>ts. queue m \<noteq> [] \<and> F (owner (hd (queue m))) = Some ts \<and>
      F' = F(owner (hd (queue m)) \<mapsto> wake ts)))"
proof (cases "queue m")
  case Nil
  with assms show ?thesis by (auto simp: transfer_front_Nil)
next
  case (Cons et q)
  with assms show ?thesis
    by (cases "maybe_dangling et")
      (auto simp: transfer_front_def vd_front_def erased_inner_def task_of_def split: option.splits)
qed

end

lemma bits_handoff:
  assumes inv: "verdict_inv opts s" and pc: "pcs s t = PHandoff fr g r"
    and step: "step_pc ch t (pcs s t) s = Some s'"
  shows "bits_inv s'"
proof -
  have si: "sys_inv s" and bits: "bits_inv s"
    using inv by (simp_all add: verdict_inv_def reasons_def)
  have front: "at_front (stages s t)" by (simp add: pc stage_at)
  note none = no_bits(2) [OF si bits front]
  have "\<not> panic_at (frames s') u" if u: "in_queue (stages s' u)" for u
  proof (cases "u = t")
    case True
    with u step pc show ?thesis
      by (auto simp: step_pc_def step_handoff_def stage_at split: res.splits)
  next
    case False
    with u step_other_pc [OF step] have "in_queue (stages s u)" by (simp add: stage_at)
    with none have old: "\<not> panic_at (frames s) u" by blast
    from step pc consider "frames s' = frames s"
      | F m where "transfer_front wake_front_task (frames s) (mx s) = Ret (F, m)" "frames s' = F"
      by (auto simp: step_pc_def step_handoff_def finish_ok_def split: res.splits)
    then show ?thesis
    proof cases
      case 2
      from ok_waker.transfer_wakes_head [OF this(1)] old 2(2) show ?thesis
        by (auto simp: ok_waker.wake_panic split: if_splits)
    qed (simp add: old)
  qed
  then show ?thesis by (simp add: bits_inv_def)
qed

lemma bits_err_handoff:
  assumes inv: "verdict_inv opts s" and pc: "pcs s t = PErrHandoff fr g x"
    and off: "\<not> unwrap_queue_poison opts"
    and step: "step_pc ch t (pcs s t) s = Some s'"
  shows "bits_inv s'"
proof -
  have si: "sys_inv s" and bits: "bits_inv s" and why: "reason opts (holders s) (pcs s t)"
    using inv by (simp_all add: verdict_inv_def reasons_def)
  have front: "at_front (stages s t)" by (simp add: pc stage_at)
  note none = no_bits(2) [OF si bits front]
  have "x = MutexPoisoned" using why pc off by (simp add: poison_panic_def)
  then have "mutex_poison_panic (pcs s t)" using pc by simp
  then have vals: "all_values (queue (mx s))" using inv unfolding verdict_inv_def by blast
  have "bit_at (frames s') u \<and> value_of (hd (queue (mx s'))) \<noteq> None"
    if u: "in_queue (stages s' u)" "panic_at (frames s') u" for u
  proof -
    have ut: "u \<noteq> t" using u step pc
      by (auto simp: step_pc_def step_err_handoff_def stage_at leave_unwinding_def split: res.splits)
    with u step_other_pc [OF step] have "in_queue (stages s u)" by (simp add: stage_at)
    with none have old: "\<not> panic_at (frames s) u" by blast
    with u(2) obtain F m where m: "transfer_front wake_front_task_panicking (frames s)
        ((mx s)\<lparr>queue_poisoned := True\<rparr>) = Ret (F, m)" "frames s' = F" "mx s' = m"
      using step pc
      by (auto simp: step_pc_def step_err_handoff_def finish_err_def leave_unwinding_def
        split: res.splits)
    note head = panic_waker.transfer_wakes_head [OF m(1)]
    with u(2) old m(2) obtain ts where ts: "queue (mx s) \<noteq> []" "u = owner (hd (queue (mx s)))"
      "F = (frames s)(u \<mapsto> wake_front_task_panicking ts)"
      by (auto split: if_splits)
    with vals head m show ?thesis by (simp add: panic_waker.wake_front)
  qed
  then show ?thesis by (simp add: bits_inv_def)
qed

lemma bits_err_lock:
  assumes inv: "verdict_inv opts s" and pc: "pcs s t = PErrLock fr x"
    and step: "step_pc ch t (pcs s t) s = Some s'"
  shows "bits_inv s'"
proof (rule bits_keep [OF inv step])
  from step pc have same: "queue (mx s') = queue (mx s)" "frames s' = frames s" "\<not> in_queue (stages s' t)"
    by (auto simp: step_pc_def step_err_lock_def Let_def with_lock_Some leave_unwinding_def stage_at)
  then show "in_queue (stages s' t) \<Longrightarrow> in_queue (stages s t)"
    "\<And>u. panic_at (frames s') u = panic_at (frames s) u"
    "\<And>u. bit_at (frames s) u \<Longrightarrow> bit_at (frames s') u"
    "value_of (hd (queue (mx s'))) = value_of (hd (queue (mx s)))" by simp_all
qed

lemma bits_step:
  assumes inv: "verdict_inv opts s" and step: "step_pc ch t (pcs s t) s = Some s'"
    and inv': "sys_inv s'" and off: "\<not> unwrap_queue_poison opts"
  shows "bits_inv s'"
proof (cases "visible (pcs s t)")
  case False
  with bits_invisible [OF inv step] show ?thesis by blast
next
  case True
  have si: "sys_inv s" using inv by (simp add: verdict_inv_def reasons_def)
  show ?thesis
  proof (cases "pcs s t")
    case (PPopSelf fr g b)
    from pop_self_own [OF si PPopSelf] obtain et q
      where q: "queue (mx s) = et # q" "owner et = t" "is_init et" .
    show ?thesis
      by (rule bits_front [OF inv step inv'])
        (use step PPopSelf in \<open>auto simp: step_pc_def step_pop_self_def stage_at
           pop_this_task_Cons [OF q(1,3,2)] Let_def\<close>)
  next
    case (PCallback fr h cb)
    with True obtain k where cb: "cb = CbPop k" by auto
    have "status s' \<noteq> Undefined" by (rule invD(1) [OF inv'])
    then show ?thesis
      by (intro bits_front [OF inv step inv'])
        (use step PCallback in \<open>auto simp: step_pc_def step_callback_def cb Let_def stage_at
           split: prod.splits res.splits\<close>)
  qed (use True step bits_acquire [OF inv] bits_push [OF inv] bits_err_lock [OF inv _ step]
    bits_err_handoff [OF inv _ off step] bits_handoff [OF inv _ step] in \<open>auto simp: step_pc_def\<close>)
qed

section \<open>The values behind a panic over the mutex's poison\<close>

lemma mutex_poison_new:
  assumes "step_pc ch t p s = Some s'" "pcs s t = p" "mutex_poison_panic (pcs s' t)"
  shows "mutex_poison_panic p \<or> (\<exists>fr g v. p = PMutexPoison fr g v)"
  using assms
  by (cases p)
    (auto simp: machine_defs
      split: machine_splits TaskWaitResult.splits)

lemma fresh_all_values:
  assumes inv: "sys_inv s" and pc: "pcs s t = PMutexPoison fr g v"
  shows "all_values (queue (mx s))"
proof -
  obtain k where k: "popped_prefix k (queue (mx s))" "prefix_ok (stages s t) k"
    using protoD(4) [OF inv_proto [OF inv]] unfolding values_inv_def by blast
  then have "popped_prefix 0 (queue (mx s))" by (simp add: stage_at pc)
  then show ?thesis by (auto simp: popped_prefix_def in_set_conv_nth)
qed

lemma values_step:
  assumes inv: "verdict_inv opts s" and step: "step_pc ch t (pcs s t) s = Some s'"
    and inv': "sys_inv s'" and u: "mutex_poison_panic (pcs s' u)"
  shows "all_values (queue (mx s'))"
proof -
  have si: "sys_inv s" using inv by (simp add: verdict_inv_def reasons_def)
  have old: "all_values (queue (mx s))"
  proof (cases "u = t")
    case True
    with mutex_poison_new [OF step refl] u
    consider "mutex_poison_panic (pcs s t)" | fr g v where "pcs s t = PMutexPoison fr g v" by blast
    then show ?thesis
      by cases (use inv in \<open>auto simp: verdict_inv_def dest: fresh_all_values [OF si]\<close>)
  next
    case False
    with u step_other_pc [OF step] inv show ?thesis by (auto simp: verdict_inv_def)
  qed
  consider fr g where "pcs s t = PPush fr g" | fr g b where "pcs s t = PPopSelf fr g b"
    | fr h k where "pcs s t = PCallback fr h (CbPop k)"
    | "\<And>fr g. pcs s t \<noteq> PPush fr g" "\<And>fr g b. pcs s t \<noteq> PPopSelf fr g b"
      "\<And>fr h k. pcs s t \<noteq> PCallback fr h (CbPop k)" by blast
  then show ?thesis
  proof cases
    case 1
    with step old show ?thesis
      by (auto simp: step_pc_def step_push_def split: option.splits dest!: push_task_queue)
  next
    case 2
    from pop_self_own [OF si 2] obtain et q
      where q: "queue (mx s) = et # q" "owner et = t" "is_init et" .
    with step old 2 show ?thesis
      by (auto simp: step_pc_def step_pop_self_def pop_this_task_Cons [OF q(1,3,2)] Let_def)
  next
    case 3
    have at: "at_front (stages s t)" by (simp add: 3 stage_at)
    have "u \<noteq> t" using mutex_poison_new [OF step refl] u 3 by auto
    with step_other_pc [OF step] u have "at_front (stages s u)"
      using mutex_poison_front [of "pcs s u"] by (simp add: stage_at)
    with at front_unique [OF protoD(3) [OF inv_proto [OF si]]] \<open>u \<noteq> t\<close> show ?thesis by blast
  next
    case 4
    with queue_unchanged [OF step] old show ?thesis by metis
  qed
qed

lemma verdict_step:
  assumes "\<not> unwrap_queue_poison opts" "sys_step s s'" "verdict_inv opts s"
  shows "verdict_inv opts s'"
proof -
  from assms(2) obtain ch t where step: "step_pc ch t (pcs s t) s = Some s'"
    by (blast elim: sys_step_pcE)
  have reasons: "reasons opts s'" using reasons_step [OF assms(2)] assms(3) by (simp add: verdict_inv_def)
  then have inv': "sys_inv s'" by (simp add: reasons_def)
  have "\<not> panicked_verdict (pcs s' u)" for u
    using own_verdict [OF assms(3) step] step_other_pc [OF step, of u] assms(3)
    by (cases "u = t") (auto simp: verdict_inv_def)
  with reasons bits_step [OF assms(3) step inv' assms(1)] values_step [OF assms(3) step inv']
  show ?thesis by (auto simp: verdict_inv_def)
qed

interpretation verdict: invariant sys_step "\<lambda>s. \<not> unwrap_queue_poison opts \<and> verdict_inv opts s"
  by unfold_locales (blast intro: verdict_step)

lemma verdict_reachable:
  assumes r: "reachable fs opts msize esize ms clients s" and off: "\<not> unwrap_queue_poison opts"
  shows "verdict_inv opts s"
proof -
  have "verdict_inv opts (initial fs opts msize esize ms clients)"
    using reasons_initial [of clients] r
    by (simp add: verdict_inv_def reachable_def) (simp add: bits_inv_def stage_at initial_def)
  with verdict.reach_inv [of _ s opts] r off show ?thesis unfolding reachable_def by blast
qed

text \<open>
  C34. With \<open>unwrap_queue_poison\<close> off no call ever returns \<open>ProcessingPanicked\<close>, although the
  documentation of the option says that it does when the value was being processed by a task
  that panicked: after such a panic nobody is woken.
\<close>

theorem processing_panicked_never_told:
  assumes r: "reachable fs opts msize esize ms clients s" and off: "\<not> unwrap_queue_poison opts"
  shows "pcs s t \<noteq> PReturn fr g ProcessingPanicked"
  using verdict_reachable [OF r off] by (auto simp: verdict_inv_def dest: spec [of _ t])

text \<open>Thread 0 takes over the value of thread 1 and panics.\<close>

definition no_queue_poison :: PanicOptions where
  "no_queue_poison = default_options\<lparr>unwrap_queue_poison := False\<rparr>"

definition pop_and_panic :: "(nat, nat, nat, nat, nat) ProcessTask" where
  "pop_and_panic v = CbUnlocked (CloReturn 0) (\<lambda>_. CbPop (\<lambda>_. CbPanic 7))"

definition pop_panic_clients :: "tid \<Rightarrow> ex_client" where
  "pop_panic_clients t = (if t < 2 then CallLockAndProcess 8 (10 + t) pop_and_panic (\<lambda>_. Exit) else Exit)"

definition off_start :: ex_sys where
  "off_start = initial 0 no_queue_poison 8 8 (\<lambda>_. 0) pop_panic_clients"

definition off_state ::
  "hold \<Rightarrow> nat option \<Rightarrow> (nat, nat, nat, nat, nat) pc \<Rightarrow> ex_sys" where
  "off_state x v p0 =
     (ex_state x (ex_mx [ex_task v]) ex_waiting p0
       (PBlocked (Frame 8 11 pop_and_panic (ByLockAndProcess (\<lambda>_. Exit))) ex_guard))
     \<lparr>cq := (cq (ex_state x (ex_mx [ex_task v]) ex_waiting (PClient Exit) (PClient Exit)))
       \<lparr>options := no_queue_poison\<rparr>\<rparr>"

definition off_frame :: "(nat, nat, nat, nat, nat) frame" where
  "off_frame = Frame 8 10 pop_and_panic (ByLockAndProcess (\<lambda>_. Exit))"

lemmas off_simps =
  run_state_simps off_start_def pop_panic_clients_def no_queue_poison_def pop_and_panic_def
  off_state_def off_frame_def ex_data_defs

lemma off_run_blocked:
  "run (by_threads [0, 0, 0, 0, 0, 0, 1, 1, 1, 1, 1, 1]) off_start =
     Some (off_state Free (Some 11) (PUnlocked off_frame (snd (relock_new (ex_handle 0)))
       (CloReturn 0) (\<lambda>_. CbPop (\<lambda>_. CbPanic 7))))"
  by (simp add: off_simps)

lemma off_run_pop:
  "run (by_threads [0, 0]) (off_state Free (Some 11)
       (PUnlocked off_frame (snd (relock_new (ex_handle 0))) (CloReturn 0) (\<lambda>_. CbPop (\<lambda>_. CbPanic 7)))) =
     Some (off_state (Held 0) (Some 11) (PCallback off_frame (ex_handle 0) (CbPop (\<lambda>_. CbPanic 7))))"
  by (simp add: off_simps)

lemma off_run_popped:
  "run (by_threads [0])
       (off_state (Held 0) (Some 11) (PCallback off_frame (ex_handle 0) (CbPop (\<lambda>_. CbPanic 7)))) =
     Some (off_state (Held 0) None (PCallback off_frame (ex_handle 1) (CbPanic 7)))"
  by (simp add: off_simps handle_pop_def vd_get_def erased_take_def erased_new_def)

lemma off_run_panicked:
  "run (by_threads [0]) (off_state (Held 0) None (PCallback off_frame (ex_handle 1) (CbPanic 7))) =
     Some (off_state (Leaked 0) None (PErrLock off_frame (UserPanic 7)))"
  by (simp add: off_simps leak_guard_def)

lemmas off_run =
  run_then [OF run_then [OF run_then [OF off_run_blocked off_run_pop] off_run_popped] off_run_panicked]

lemma off_reachable:
  "reachable 0 no_queue_poison 8 8 (\<lambda>_. 0) pop_panic_clients
     (off_state (Leaked 0) None (PErrLock off_frame (UserPanic 7)))"
  using run_reach [OF off_run] by (simp add: reachable_def off_start_def pop_panic_clients_def)

theorem processing_panicked_never_told_witness:
  "reachable 0 no_queue_poison 8 8 (\<lambda>_. 0) pop_panic_clients
     (off_state (Leaked 0) None (PErrLock off_frame (UserPanic 7))) \<and>
   (\<nexists>fr g. pcs (off_state (Leaked 0) None (PErrLock off_frame (UserPanic 7))) 1 =
     PReturn fr g ProcessingPanicked)"
  using off_reachable processing_panicked_never_told [OF off_reachable, of 1]
  by (simp add: no_queue_poison_def)

end
