(* ===== verification/Aborts.thy ===== *)
theory Aborts
  imports Verdicts
begin

text \<open>
  When the process aborts. The guard \<open>AbortIfNotAtFront\<close> is armed from the attempt to take the
  permission until the thread is at the front: nothing unwinds out of that region, a failing
  push is an abort. The other abort of the crate is in \<open>ReLock::drop\<close>, when the closure of
  \<open>unlocked\<close> has not given the queue's mutex back.
\<close>

section \<open>The region of the abort guard\<close>

fun abort_guard_armed :: "('v, 'fs, 'm, 'u, 'r) pc \<Rightarrow> bool" where
  "abort_guard_armed (PAcquire fr g) = True"
| "abort_guard_armed (PPush fr g) = True"
| "abort_guard_armed (PWait fr g) = True"
| "abort_guard_armed (PBlocked fr g) = True"
| "abort_guard_armed (PRelock fr g) = True"
| "abort_guard_armed (PCheckBit fr g) = True"
| "abort_guard_armed (PPopSelf fr g b) = True"
| "abort_guard_armed _ = False"

lemma armed_step:
  assumes "step_pc ch t p s = Some s'" "abort_guard_armed p" "pcs s t = p" "status s' = Running"
  shows "abort_guard_armed (pcs s' t) \<or> at_front (stages s' t)"
  using assms
  by (cases p)
    (auto simp: step_pc_def step_acquire_def try_acquire_front_fast_def step_push_def step_wait_def
      step_blocked_def step_relock_def step_check_bit_def step_pop_self_def with_lock_Some Let_def
      stage_at split: if_splits option.splits prod.splits res.splits)

section \<open>What aborts\<close>

lemma abort_cases:
  assumes "step_pc ch t p s = Some s'" "status s = Running" "status s' = Aborted"
  obtains fr g where "p = PPush fr g" "push_task (ch = AllocFails) (elem_size s) t (fr_value fr) (mx s) = None"
  | fr h out k where "p = PUnlockRelock fr h out k" "ch = LockMayPanic"
    "holder (mutexes s (ns_get (qh_mutex h))) = Held t \<or> holder (mutexes s (ns_get (qh_mutex h))) = Leaked t"
  using assms
  by (cases p)
    (auto simp: machine_defs
      split: machine_splits)

text \<open>The mutex of \<open>unlocked\<close> is the one of the call, and its thread holds no guard of it.\<close>

lemma relock_mutex:
  assumes "sys_inv s" "pcs s t = PUnlockRelock fr h out k"
  shows "ns_get (qh_mutex h) = fr_mutex fr" "holder (mutexes s (fr_mutex fr)) \<noteq> Held t"
  using invD(2) [OF assms(1)] invD(4) [OF assms(1), of t] assms(2)
  by (auto simp: guards_inv_def holders_def guards_def)

lemma push_fails:
  "length (queue m) \<le> max_len n \<Longrightarrow>
     push_task alloc_fails n t v m = None \<longleftrightarrow> alloc_fails \<or> length (queue m) = max_len n"
  by (auto simp: push_task_def Let_def)

text \<open>
  C28. When the process aborts. The abort guard: from the attempt to take the permission until a
  thread is at the front nothing unwinds; each step stays in that region, gets to the front, or
  aborts the process. The process aborts exactly in two cases: a push that cannot allocate,
  because the allocator fails or the queue is as long as an allocation can be; and the lock in
  the destructor of \<open>unlocked\<close>, if it panics because the closure of this thread left a guard of
  the queue's mutex behind.
\<close>

theorem abort_guard_escalates:
  assumes r: "reachable fs opts msize esize ms clients s" and step: "thread_step ch t s = Some s'"
  shows "(abort_guard_armed (pcs s t) \<and> status s' = Running \<longrightarrow>
      abort_guard_armed (pcs s' t) \<or> at_front (stages s' t)) \<and>
    (status s' = Aborted \<longleftrightarrow>
      (\<exists>fr g. pcs s t = PPush fr g \<and>
        (ch = AllocFails \<or> length (queue (mx s)) = max_len (elem_size s))) \<or>
      (\<exists>fr h out k. pcs s t = PUnlockRelock fr h out k \<and> ch = LockMayPanic \<and>
        holder (mutexes s (fr_mutex fr)) = Leaked t))"
proof (intro conjI impI)
  note inv = reachable_inv [OF r]
  from step have run: "status s = Running" and step: "step_pc ch t (pcs s t) s = Some s'"
    by (rule thread_step_running, rule thread_stepD)
  show "abort_guard_armed (pcs s t) \<and> status s' = Running \<Longrightarrow>
      abort_guard_armed (pcs s' t) \<or> at_front (stages s' t)"
    using armed_step [OF step] by blast
  have len: "length (queue (mx s)) \<le> max_len (elem_size s)"
    using protoD(1) [OF inv_proto [OF inv]] by (simp add: queue_inv_def)
  show "status s' = Aborted \<longleftrightarrow>
      (\<exists>fr g. pcs s t = PPush fr g \<and>
        (ch = AllocFails \<or> length (queue (mx s)) = max_len (elem_size s))) \<or>
      (\<exists>fr h out k. pcs s t = PUnlockRelock fr h out k \<and> ch = LockMayPanic \<and>
        holder (mutexes s (fr_mutex fr)) = Leaked t)" (is "_ \<longleftrightarrow> ?push \<or> ?relock")
  proof
    assume "status s' = Aborted"
    then show "?push \<or> ?relock"
    proof (rule abort_cases [OF step run])
      fix fr g
      assume "pcs s t = PPush fr g"
        "push_task (ch = AllocFails) (elem_size s) t (fr_value fr) (mx s) = None"
      with push_fails [OF len] show ?thesis by auto
    next
      fix fr h out k
      assume pc: "pcs s t = PUnlockRelock fr h out k" and "ch = LockMayPanic"
        "holder (mutexes s (ns_get (qh_mutex h))) = Held t \<or>
          holder (mutexes s (ns_get (qh_mutex h))) = Leaked t"
      with relock_mutex [OF inv pc] show ?thesis by auto
    qed
  next
    assume "?push \<or> ?relock"
    then show "status s' = Aborted"
    proof
      assume ?push
      then obtain fr g where pc: "pcs s t = PPush fr g"
        and "ch = AllocFails \<or> length (queue (mx s)) = max_len (elem_size s)" by blast
      then have "push_task (ch = AllocFails) (elem_size s) t (fr_value fr) (mx s) = None"
        using push_fails [OF len] by simp
      with step pc show ?thesis by (auto simp: step_pc_def step_push_def)
    next
      assume ?relock
      then obtain fr h out k where pc: "pcs s t = PUnlockRelock fr h out k"
        and leaked: "ch = LockMayPanic" "holder (mutexes s (fr_mutex fr)) = Leaked t" by blast
      with step relock_mutex(1) [OF inv pc] show ?thesis
        by (auto simp: step_pc_def step_unlock_relock_def with_lock_def Let_def)
    qed
  qed
qed

lemma ex_run_push:
  "\<exists>s. run (by_threads [0, 0, 0, 0, 0, 0, 1, 1, 1, 1]) ex_start = Some s \<and>
     (\<exists>s'. thread_step AllocFails 1 s = Some s' \<and> status s' = Aborted)"
  by (simp add: run_simps ex_start_def ex_clients_def merge_task_def)

text \<open>A closure that locks the queue's mutex and forgets the guard.\<close>

definition forget_task :: "(nat, nat, nat, nat, nat) ProcessTask" where
  "forget_task v = CbUnlocked (CloLockMutex 8 (\<lambda>_. CritForget (CloReturn 0))) (\<lambda>_. CbReturn v)"

definition forget_clients :: "tid \<Rightarrow> ex_client" where
  "forget_clients t = (if t = 0 then CallLockAndProcess 8 10 forget_task (\<lambda>_. Exit) else Exit)"

definition forget_start :: ex_sys where
  "forget_start = initial 0 default_options 8 8 (\<lambda>_. 0) forget_clients"

lemma forget_run:
  "\<exists>s. run (by_threads [0, 0, 0, 0, 0, 0, 0, 0, 0]) forget_start = Some s \<and>
     (\<exists>s'. thread_step LockMayPanic 0 s = Some s' \<and> status s' = Aborted) \<and>
     (\<exists>fr h out k. pcs s 0 = PUnlockRelock fr h out k)"
  by (simp add: run_simps forget_start_def forget_clients_def forget_task_def)

theorem abort_guard_escalates_witness:
  "(\<exists>s s' fr g. run (by_threads [0, 0, 0, 0, 0, 0, 1, 1, 1, 1]) ex_start = Some s \<and>
     thread_step AllocFails 1 s = Some s' \<and> status s' = Aborted \<and> pcs s 1 = PPush fr g) \<and>
   (\<exists>s s' fr h out k. run (by_threads [0, 0, 0, 0, 0, 0, 0, 0, 0]) forget_start = Some s \<and>
     thread_step LockMayPanic 0 s = Some s' \<and> status s' = Aborted \<and>
     pcs s 0 = PUnlockRelock fr h out k \<and> holder (mutexes s (fr_mutex fr)) = Leaked 0)"
proof
  obtain s s' where s: "run (by_threads [0, 0, 0, 0, 0, 0, 1, 1, 1, 1]) ex_start = Some s"
    "thread_step AllocFails 1 s = Some s'" "status s' = Aborted"
    using ex_run_push by blast
  from abort_guard_escalates [OF ex_reachable [OF s(1)] s(2)] s
  show "\<exists>s s' fr g. run (by_threads [0, 0, 0, 0, 0, 0, 1, 1, 1, 1]) ex_start = Some s \<and>
     thread_step AllocFails 1 s = Some s' \<and> status s' = Aborted \<and> pcs s 1 = PPush fr g" by blast
next
  obtain s s' fr h out k where s: "run (by_threads [0, 0, 0, 0, 0, 0, 0, 0, 0]) forget_start = Some s"
    "thread_step LockMayPanic 0 s = Some s'" "status s' = Aborted"
    and pc: "pcs s 0 = PUnlockRelock fr h out k"
    using forget_run by blast
  have "reachable 0 default_options 8 8 (\<lambda>_. 0) forget_clients s"
    using run_reach [OF s(1)] by (simp add: reachable_def forget_start_def forget_clients_def)
  from abort_guard_escalates [OF this s(2)] s(3) pc
  have "holder (mutexes s (fr_mutex fr)) = Leaked 0" by auto
  with s pc show "\<exists>s s' fr h out k. run (by_threads [0, 0, 0, 0, 0, 0, 0, 0, 0]) forget_start = Some s \<and>
     thread_step LockMayPanic 0 s = Some s' \<and> status s' = Aborted \<and>
     pcs s 0 = PUnlockRelock fr h out k \<and> holder (mutexes s (fr_mutex fr)) = Leaked 0" by blast
qed

end
