(* ===== verification/Callback_Semantics.thy ===== *)
theory Callback_Semantics
  imports Aborts
begin

text \<open>
  What the author of a callback may assume: a sequential semantics of callbacks, in which a
  callback acts on the front state, the values that wait behind it, the mutex's data and the
  queue's poison flag as if it were alone. Only while the mutex is unlocked do others act, and
  then all they can do to it is to append values; what the mutex protects besides may be
  different afterwards. The machine, seen by any one thread, refines this semantics.
\<close>

section \<open>The sequential semantics\<close>

datatype ('v, 'fs, 'm, 'u, 'r) seen =
    Outside
  | Starting "('v, 'fs, 'm, 'u, 'r) callback"
  | Locked "('v, 'fs, 'm, 'u, 'r) callback" 'fs "'v list" 'm bool
  | Unlocked "('fs, 'm, 'u) closure" "'u outcome \<Rightarrow> ('v, 'fs, 'm, 'u, 'r) callback" 'fs "'v list"
  | Holding "('fs, 'm, 'u) holding" "'u outcome \<Rightarrow> ('v, 'fs, 'm, 'u, 'r) callback" 'fs "'v list"
  | Relocking "'u outcome" "'u outcome \<Rightarrow> ('v, 'fs, 'm, 'u, 'r) callback" 'fs "'v list"

definition first_value :: "'v list \<Rightarrow> 'v option" where
  "first_value vs = (case vs of [] \<Rightarrow> None | v # w \<Rightarrow> Some v)"

inductive seq_step :: "('v, 'fs, 'm, 'u, 'r) seen \<Rightarrow> ('v, 'fs, 'm, 'u, 'r) seen \<Rightarrow> bool" where
  prepare: "seq_step Outside (Starting cb)"
| reject: "seq_step (Starting cb) Outside"
| start: "seq_step (Starting cb) (Locked cb fs vs m qp)"
| return: "seq_step (Locked (CbReturn r) fs vs m qp) Outside"
| panic: "seq_step (Locked (CbPanic n) fs vs m qp) Outside"
| read_front: "seq_step (Locked (CbReadFront k) fs vs m qp) (Locked (k fs) fs vs m qp)"
| write_front: "seq_step (Locked (CbWriteFront fs' cb) fs vs m qp) (Locked cb fs' vs m qp)"
| peek: "seq_step (Locked (CbPeek k) fs vs m qp) (Locked (k (Returned (first_value vs))) fs vs m qp)"
| pop: "seq_step (Locked (CbPop k) fs vs m qp) (Locked (k (Returned (first_value vs))) fs (tl vs) m qp)"
| read_data: "seq_step (Locked (CbMutexState k) fs vs m qp) (Locked (k m) fs vs m qp)"
| write_data: "seq_step (Locked (CbMutexStateMut m' cb) fs vs m qp) (Locked cb fs vs m' qp)"
| read_poison: "seq_step (Locked (CbIsQueuePoisoned k) fs vs m qp) (Locked (k qp) fs vs m qp)"
| clear_poison: "seq_step (Locked (CbClearQueuePoison cb) fs vs m qp) (Locked cb fs vs m False)"
| unlock: "seq_step (Locked (CbUnlocked clo k) fs vs m qp) (Unlocked clo k fs vs)"
| clo_return: "seq_step (Unlocked (CloReturn u) k fs vs) (Relocking (Returned u) k fs vs)"
| clo_panic: "seq_step (Unlocked (CloPanic n) k fs vs) (Relocking (Unwound (UserPanic n)) k fs vs)"
| clo_read: "seq_step (Unlocked (CloReadFront f) k fs vs) (Unlocked (f fs) k fs vs)"
| clo_write: "seq_step (Unlocked (CloWriteFront fs' clo) k fs vs) (Unlocked clo k fs' vs)"
| clo_lock: "seq_step (Unlocked (CloLockMutex a f) k fs vs) (Holding (InCritical (f b)) k fs vs)"
| clo_lock_panics:
    "seq_step (Unlocked (CloLockMutex a f) k fs vs) (Relocking (Unwound LockReentered) k fs vs)"
| clo_is_poisoned: "seq_step (Unlocked (CloIsQueuePoisoned a f) k fs vs) (Holding (ReadsPoison f) k fs vs)"
| clo_is_poisoned_unwinds:
    "seq_step (Unlocked (CloIsQueuePoisoned a f) k fs vs) (Unlocked (f (Unwound p)) k fs vs)"
| clo_clear: "seq_step (Unlocked (CloClearQueuePoison a f') k fs vs) (Holding (ClearsPoison f') k fs vs)"
| clo_clear_unwinds:
    "seq_step (Unlocked (CloClearQueuePoison a f') k fs vs) (Unlocked (f' (Unwound p)) k fs vs)"
| crit_read: "seq_step (Holding (InCritical (CritReadState g)) k fs vs) (Holding (InCritical (g m)) k fs vs)"
| crit_write: "seq_step (Holding (InCritical (CritWriteState m c)) k fs vs) (Holding (InCritical c) k fs vs)"
| crit_read_front:
    "seq_step (Holding (InCritical (CritReadFront g')) k fs vs) (Holding (InCritical (g' fs)) k fs vs)"
| crit_write_front:
    "seq_step (Holding (InCritical (CritWriteFront fs' c)) k fs vs) (Holding (InCritical c) k fs' vs)"
| crit_drop: "seq_step (Holding (InCritical (CritDrop clo)) k fs vs) (Unlocked clo k fs vs)"
| crit_forget: "seq_step (Holding (InCritical (CritForget clo)) k fs vs) (Unlocked clo k fs vs)"
| crit_panic:
    "seq_step (Holding (InCritical (CritPanic n)) k fs vs) (Relocking (Unwound (UserPanic n)) k fs vs)"
| poison_read: "seq_step (Holding (ReadsPoison f) k fs vs) (Unlocked (f (Returned b)) k fs vs)"
| poison_cleared: "seq_step (Holding (ClearsPoison f') k fs vs) (Unlocked (f' (Returned ())) k fs vs)"
| arrive_holding:
    "seq_step (Holding (InCritical c) k fs vs) (Holding (InCritical c) k fs (vs @ [v]))"
| arrive_open: "seq_step (Unlocked clo k fs vs) (Unlocked clo k fs (vs @ [v]))"
| arrive_closing: "seq_step (Relocking out k fs vs) (Relocking out k fs (vs @ [v]))"
| relock: "seq_step (Relocking out k fs vs) (Locked (k out) fs vs m qp)"

section \<open>The machine as a thread in a callback sees it\<close>

definition seen_by :: "tid \<Rightarrow> ('v, 'fs, 'm, 'u, 'r) sys \<Rightarrow> ('v, 'fs, 'm, 'u, 'r) seen" where
  "seen_by t s =
     (let fs = front_exclusive_mut (cq s); vs = pending_values s
      in case pcs s t of
           PMutexPoison fr g v \<Rightarrow> Starting (fr_task fr v)
         | PCallback fr h cb \<Rightarrow> Locked cb fs vs (data (mutexes s (fr_mutex fr))) (queue_poisoned (mx s))
         | PUnlocked fr h clo k \<Rightarrow> Unlocked clo k fs vs
         | PUnlockedHolds fr h g x k \<Rightarrow> Holding x k fs vs
         | PUnlockRelock fr h out k \<Rightarrow> Relocking out k fs vs
         | _ \<Rightarrow> Outside)"

text \<open>The data of a mutex is changed only by a thread that holds it.\<close>

lemma data_kept:
  assumes "step_pc ch u p s = Some s'" "guard_of p \<noteq> Some a"
  shows "data (mutexes s' a) = data (mutexes s a)"
  using assms
  by (cases p)
    (auto simp: machine_defs
      handle_mutex_state_mut_def bind_res_Ret relock_new_def
      split: machine_splits elim!: assume_initE)

text \<open>Other threads, while \<open>t\<close> is at the front.\<close>

lemma others_front:
  assumes inv: "sys_inv s" and step: "step_pc ch u (pcs s u) s = Some s'"
    and t: "at_front (stages s t)" "u \<noteq> t"
  shows "front_exclusive_mut (cq s') = front_exclusive_mut (cq s)" "delivery u s = []"
proof -
  have u: "\<not> at_front (stages s u)"
    using front_unique [OF protoD(3) [OF inv_proto [OF inv]]] t by blast
  then have "\<not> uses_front_state (pcs s u)" using uses_front_at_front by (auto simp: stage_at)
  with step_keeps_front_state [OF step]
  show "front_exclusive_mut (cq s') = front_exclusive_mut (cq s)" by blast
  have "pcs s u \<noteq> PPopSelf fr g b" for fr g b
  proof
    assume "pcs s u = PPopSelf fr g b"
    then have st: "stages s u = InQueue (Pops b)" by (simp add: stage_at)
    from frame_at [OF inv st] obtain ts where ts: "frames s u = Some ts" "front_bit ts" by auto
    from proto_head [OF inv_proto [OF inv] st this] t(1) show False by metis
  qed
  with u show "delivery u s = []" by (auto simp: delivery_def stage_at split: pc.splits callback.splits)
qed

lemma others_append:
  assumes inv: "sys_inv s" and step: "thread_step ch u s = Some s'"
    and t: "at_front (stages s t)" "u \<noteq> t"
  shows "pending_values s' = pending_values s \<or> (\<exists>v. pending_values s' = pending_values s @ [v])"
proof -
  from step have "step_pc ch u (pcs s u) s = Some s'" by (rule thread_stepD)
  from others_front(2) [OF inv this t] flow_step [OF inv step]
  have "pending_values s' = pending_values s @ arrival ch u s" by simp
  moreover have "arrival ch u s = [] \<or> (\<exists>v. arrival ch u s = [v])"
    by (auto simp: arrival_def split: pc.splits option.splits)
  ultimately show ?thesis by auto
qed

lemma others_step:
  assumes inv: "sys_inv s" and step: "thread_step ch u s = Some s'" and ut: "u \<noteq> t"
  shows "seen_by t s' = seen_by t s \<or> seq_step (seen_by t s) (seen_by t s')"
proof -
  from step have step': "step_pc ch u (pcs s u) s = Some s'" by (rule thread_stepD)
  have pc: "pcs s' t = pcs s t" by (rule step_other_pc [OF step']) (use ut in simp)
  show ?thesis
  proof (cases "at_front (stages s t)")
    case False
    then have "seen_by t s = Outside" "seen_by t s' = Outside"
      using pc by (auto simp: seen_by_def Let_def stage_at split: pc.splits)
    then show ?thesis by simp
  next
    case True
    note front = others_front(1) [OF inv step' True ut]
    note arrives = others_append [OF inv step True ut]
    show ?thesis
    proof (cases "pcs s t")
      case (PCallback fr h cb)
      from callback_facts [OF inv PCallback] obtain g
        where g: "qh_guard h = Init g" "guard_mutex g = fr_mutex fr" by metis
      have held: "holder (mutexes s (fr_mutex fr)) = Held t"
        using invD(2) [OF inv] PCallback g by (auto simp: guards_inv_def holders_def guards_def)
      have "guard_of (pcs s u) \<noteq> Some (fr_mutex fr)"
        using invD(2) [OF inv] held ut unfolding guards_inv_def holders_def guards_def
        by (metis hold.inject(1))
      from data_kept [OF step' this]
      have "data (mutexes s' (fr_mutex fr)) = data (mutexes s (fr_mutex fr))" .
      moreover have "mutex_address (cq s) = fr_mutex fr" using invD(3) [OF inv, of t] PCallback by auto
      with held ut mutex_exclusive_change [OF inv step] have "mx s' = mx s" by auto
      ultimately show ?thesis using front by (simp add: seen_by_def Let_def pc PCallback)
    next
      case (PUnlocked fr h clo k)
      with arrives front show ?thesis
        by (auto simp: seen_by_def Let_def pc intro: arrive_open)
    next
      case (PUnlockedHolds fr h g x k)
      show ?thesis
      proof (cases "\<exists>c. x = InCritical c")
        case True
        with PUnlockedHolds arrives front show ?thesis
          by (auto simp: seen_by_def Let_def pc intro: arrive_holding)
      next
        case False
        with invD(4) [OF inv, of t] PUnlockedHolds have "guard_mutex g = fr_mutex fr" by simp
        moreover have "mutex_address (cq s) = fr_mutex fr"
          using invD(3) [OF inv, of t] PUnlockedHolds by auto
        ultimately have "holder (mutexes s (mutex_address (cq s))) = Held t"
          using invD(2) [OF inv] PUnlockedHolds by (auto simp: guards_inv_def holders_def guards_def)
        with ut mutex_exclusive_change [OF inv step] have "mx s' = mx s" by auto
        with front show ?thesis by (simp add: seen_by_def Let_def pc PUnlockedHolds)
      qed
    next
      case (PUnlockRelock fr h out k)
      with arrives front show ?thesis
        by (auto simp: seen_by_def Let_def pc intro: arrive_closing)
    qed (auto simp: seen_by_def Let_def pc)
  qed
qed

section \<open>Its own steps\<close>

lemma first_value_pending:
  "(case pending q of [] \<Rightarrow> None | (u, v) # w \<Rightarrow> Some v) = first_value (map snd (pending q))"
  by (cases "pending q") (auto simp: first_value_def)

lemma own_callback_step:
  assumes inv: "sys_inv s" and pc: "pcs s t = PCallback fr h cb"
    and step: "s' = step_callback t fr h cb s" and inv': "sys_inv s'"
  shows "seen_by t s' = seen_by t s \<or> seq_step (seen_by t s) (seen_by t s')"
proof (rule callback_facts [OF inv pc])
  fix g assume h: "qh_guard h = Init g" "guard_mutex g = fr_mutex fr" "mutex_exclusive_guard h = Init ()"
  show ?thesis
  proof (cases cb)
    case (CbPeek k)
    with pc have "pcs s t = PCallback fr h (CbPeek k)" by simp
    from peek_step [OF inv this] show ?thesis
      by (simp add: step CbPeek seen_by_def pc first_value_pending peek)
  next
    case (CbPop k)
    with pc have "pcs s t = PCallback fr h (CbPop k)" by simp
    from pop_step [OF inv this] show ?thesis
      by (auto simp: step CbPop seen_by_def pc first_value_pending map_tl pop)
  qed (use h in \<open>auto simp: step step_callback_def seen_by_def pc Let_def relock_new_def
    handle_mutex_state_def handle_mutex_state_mut_def handle_is_queue_poisoned_def
    handle_clear_queue_poison_def intro: seq_step.intros\<close>)
qed

lemma own_step:
  assumes inv: "sys_inv s" and step: "thread_step ch t s = Some s'"
  shows "seen_by t s' = seen_by t s \<or> seq_step (seen_by t s) (seen_by t s')"
proof -
  from step have step': "step_pc ch t (pcs s t) s = Some s'" by (rule thread_stepD)
  have inv': "sys_inv s'" by (rule sys_inv_step [OF sys_step.thread [OF step] inv])
  show ?thesis
  proof (cases "pcs s t")
    case (PCallback fr h cb)
    with own_callback_step [OF inv PCallback _ inv'] step' show ?thesis by (simp add: step_pc_def)
  next
    case (PMutexPoison fr g v)
    with step' show ?thesis
      by (cases "unwrap_mutex_poison (options (cq s)) \<and> poisoned (mutexes s (fr_mutex fr))")
        (auto simp: step_pc_def step_mutex_poison_def seen_by_def Let_def
          intro: seq_step.start seq_step.reject)
  next
    case (PUnlocked fr h clo k)
    with step' show ?thesis
      by (cases clo) (auto simp: step_pc_def step_unlocked_def closure_lock_def with_lock_Some seen_by_def
        Let_def assert_mutex_good_eq intro: seq_step.intros split: if_splits)
  next
    case (PUnlockedHolds fr h g x k)
    with step' show ?thesis
      by (cases x) (auto simp: step_pc_def step_holding_def seen_by_def Let_def intro: seq_step.intros
        split: critical.splits)
  next
    case (PUnlockRelock fr h out k)
    with step' show ?thesis
      by (auto simp: step_pc_def step_unlock_relock_def with_lock_Some seen_by_def Let_def intro: relock)
  qed (use step' in \<open>auto simp: machine_defs
        seen_by_def intro: prepare
      split: client.splits session.splits option.splits if_splits caller.splits res.splits prod.splits
        TaskWaitResult.splits\<close>)
qed

interpretation author: simulation sys_step sys_inv seq_step "seen_by t"
proof unfold_locales
  fix s s' :: "('v, 'fs, 'm, 'u, 'r) sys"
  assume "sys_step s s'" and inv: "sys_inv s"
  then obtain ch u where step: "thread_step ch u s = Some s'" by (auto elim: sys_stepE)
  show "seen_by t s' = seen_by t s \<or> seq_step (seen_by t s) (seen_by t s')"
  proof (cases "u = t")
    case True
    with own_step [OF inv step] show ?thesis by simp
  next
    case False
    with others_step [OF inv step] show ?thesis by blast
  qed
qed

text \<open>
  C5. Callbacks are sequential: every step of the machine, by whatever thread, is for the
  thread of a callback one step of the sequential semantics, or nothing. So between the points
  where it unlocks the mutex nobody else changes the front state, the queue, the mutex's data
  or the poison flag, and while it is unlocked the others can only append values to the queue.
\<close>

theorem callbacks_sequential:
  assumes r: "reachable fs opts msize esize ms clients s" and later: "reach sys_step s s'"
  shows "reach seq_step (seen_by t s) (seen_by t s') \<and>
    (\<forall>s''. sys_step s' s'' \<longrightarrow>
      seen_by t s'' = seen_by t s' \<or> seq_step (seen_by t s') (seen_by t s''))"
proof (intro conjI allI impI)
  note inv = reachable_inv [OF r]
  show "reach seq_step (seen_by t s) (seen_by t s')" by (rule author.reach_sim [OF later inv])
  show "seen_by t s'' = seen_by t s' \<or> seq_step (seen_by t s') (seen_by t s'')" if "sys_step s' s''" for s''
    by (rule author.sim [OF that machine.reach_inv [OF later inv]])
qed

lemma ex_seen:
  "seen_by 0 ex_peek = Locked ex_peeking 0 [11] 0 False"
  "seen_by 0 ex_popped = Locked (CbReturn 21) 0 [] 0 False"
  by (simp_all add: seen_by_def ex_peek_def ex_popped_def)
    (simp_all add: ex_state_def front_exclusive_mut_def ex_frame_def ex_mx_def)

theorem callbacks_sequential_witness:
  "reach seq_step (Locked ex_peeking 0 [11] 0 False) (Locked (CbReturn 21) 0 [] 0 False)"
proof -
  have "reach sys_step ex_peek ex_popped" by (rule run_reach [OF run_then [OF ex_run_pop ex_run_popped]])
  from callbacks_sequential [OF ex_reachable_states(8) this, of 0] show ?thesis
    by (simp only: ex_seen)
qed

end
