(* ===== verification/Wait_Table.thy ===== *)
theory Wait_Table
  imports Callback_Semantics
begin

text \<open>
  The comment on \<open>TaskState\<close> in \<open>src/task_state.rs\<close> gives a table of what a woken thread is to
  do, from the bits of its state, the value of its task and the queue's poison flag. Here the
  table is a definition, and the code is shown to do what it says; the rows that the comment
  calls impossible are not reached.
\<close>

section \<open>The table\<close>

datatype 'v response =
    KeepWaiting
  | WakeNextThenPanic
  | StartProcessing 'v
  | ReturnElsewhere
  | ReturnPanicked
  | Impossible

definition table :: "PanicOptions \<Rightarrow> u8 \<Rightarrow> 'v option \<Rightarrow> bool \<Rightarrow> 'v response" where
  "table opts st value poison =
     (if st AND NOT 0b11 \<noteq> 0 then Impossible
      else if st AND 0b01 = 0 then KeepWaiting
      else if poison \<and> unwrap_queue_poison opts then WakeNextThenPanic
      else case value of
             Some v \<Rightarrow> StartProcessing v
           | None \<Rightarrow> if st AND 0b10 = 0 then ReturnElsewhere else ReturnPanicked)"

text \<open>Where a thread is when it does what the table says.\<close>

fun reaction :: "('v, 'fs, 'm, 'u, 'r) frame \<Rightarrow> guard \<Rightarrow> 'v response \<Rightarrow> ('v, 'fs, 'm, 'u, 'r) pc option" where
  "reaction fr g KeepWaiting = Some (PWait fr g)"
| "reaction fr g WakeNextThenPanic = Some (PErrLock fr QueuePoisoned)"
| "reaction fr g (StartProcessing v) = Some (PMutexPoison fr g v)"
| "reaction fr g ReturnElsewhere = Some (PHandoff fr g ProcessedElsewhere)"
| "reaction fr g ReturnPanicked = Some (PHandoff fr g ProcessingPanicked)"
| "reaction fr g Impossible = None"

section \<open>The states a \<open>TaskState\<close> can have\<close>

text \<open>What one step does to the frame of any thread.\<close>

definition frame_change :: "tid \<Rightarrow> TaskState \<Rightarrow> TaskState \<Rightarrow> bool" where
  "frame_change u ts ts' \<longleftrightarrow> ts' \<in> {ts, wait_enter u ts, wait_spurious u ts, wake_front_task ts,
     wake_front_task_panicking ts}"

lemma frame_change_refl [simp]: "frame_change u ts ts"
  by (simp add: frame_change_def)

context front_waker
begin

lemma transfer_frame:
  assumes "transfer_front wake F m = Ret (F', m')" "F' u = Some ts'"
  shows "\<exists>ts. F u = Some ts \<and> (ts' = ts \<or> ts' = wake ts)"
  using transfer_wakes_head [OF assms(1)] assms(2) by (auto split: if_splits)

end

lemma frames_step:
  assumes "step_pc ch t p s = Some s'" "frames s' u = Some ts'"
  shows "ts' = TaskState_new \<or> (\<exists>ts. frames s u = Some ts \<and> frame_change u ts ts')"
proof (cases "(\<exists>fr g r. p = PHandoff fr g r) \<or> (\<exists>fr g x. p = PErrHandoff fr g x)")
  case True
  then show ?thesis
    using assms
    by (auto simp: step_pc_def step_handoff_def step_err_handoff_def finish_ok_def finish_err_def
        leave_unwinding_def frame_change_def split: res.splits
        dest!: ok_waker.transfer_frame [where u = u] panic_waker.transfer_frame [where u = u])
next
  case False
  then show ?thesis
    using assms
    by (cases p)
      (auto simp: machine_defs frame_change_def
        split: machine_splits)
qed

definition two_bits :: "TaskState \<Rightarrow> bool" where
  "two_bits ts \<longleftrightarrow> cell_get (state ts) AND NOT 0b11 = 0"

lemma two_bits_new: "two_bits TaskState_new"
  by (simp add: two_bits_def TaskState_new_def)

lemma two_bits_change: "two_bits ts \<Longrightarrow> frame_change u ts ts' \<Longrightarrow> two_bits ts'"
  by (auto simp: two_bits_def frame_change_def wait_enter_def wait_spurious_def wake_front_task_def
      wake_front_task_panicking_def FRONT_BIT_def PANIC_BIT_def word_ao_dist)

definition frames_two_bits :: "('v, 'fs, 'm, 'u, 'r) sys \<Rightarrow> bool" where
  "frames_two_bits s \<longleftrightarrow> (\<forall>u ts. frames s u = Some ts \<longrightarrow> two_bits ts)"

lemma frames_two_bits_step:
  assumes "sys_step s s'" "frames_two_bits s" shows "frames_two_bits s'"
proof -
  from assms(1) obtain ch t where step: "step_pc ch t (pcs s t) s = Some s'"
    by (blast elim: sys_step_pcE)
  show ?thesis unfolding frames_two_bits_def
  proof (intro allI impI)
    fix u ts' assume "frames s' u = Some ts'"
    from frames_step [OF step this] show "two_bits ts'"
      using assms(2) two_bits_new two_bits_change unfolding frames_two_bits_def by blast
  qed
qed

interpretation two_bits: invariant sys_step frames_two_bits
  by unfold_locales (rule frames_two_bits_step)

lemma two_bits_reachable:
  "reachable fs opts msize esize ms clients s \<Longrightarrow> frames s u = Some ts \<Longrightarrow> two_bits ts"
  using two_bits.reach_inv [of "initial fs opts msize esize ms clients" s]
  by (auto simp: reachable_def frames_two_bits_def initial_def)

text \<open>The table in terms of the two bits.\<close>

lemma table_bits:
  assumes "two_bits ts"
  shows "table opts (cell_get (state ts)) v poison =
    (if \<not> front_bit ts then KeepWaiting
     else if poison \<and> unwrap_queue_poison opts then WakeNextThenPanic
     else case v of Some w \<Rightarrow> StartProcessing w | None \<Rightarrow> if panic_bit ts then ReturnPanicked else ReturnElsewhere)"
  using assms
  by (simp add: table_def two_bits_def front_bit_def panic_bit_def FRONT_BIT_def PANIC_BIT_def)

section \<open>The code follows the table\<close>

lemma own_task:
  assumes inv: "sys_inv s" and st: "in_queue (stages s t)"
  obtains et where "et \<in> set (queue (mx s))" "owner et = t"
proof -
  have "t \<in> owner ` set (queue (mx s))"
    using protoD(1) [OF inv_proto [OF inv]] st by (simp add: queue_inv_def)
  with that show thesis by blast
qed

lemma owner_inj:
  assumes "sys_inv s" "et \<in> set (queue (mx s))" "et' \<in> set (queue (mx s))" "owner et = owner et'"
  shows "et = et'"
  using protoD(1) [OF inv_proto [OF assms(1)]] assms(2-4)
  by (auto simp: queue_inv_def distinct_map inj_on_def)

text \<open>
  C11. A woken thread does what the table on \<open>TaskState\<close> says: in any reachable state, a thread
  that has locked the mutex again in its wait finds its own task in the queue, the row for its
  bits, its value and the poison flag is not an impossible one, and its own next steps take it
  to where that row sends it.
\<close>

theorem wait_follows_table:
  assumes r: "reachable fs opts msize esize ms clients s" and run: "status s = Running"
    and pc: "pcs s t = PCheckBit fr g"
  shows "\<exists>ts et p. frames s t = Some ts \<and> et \<in> set (queue (mx s)) \<and> owner et = t \<and>
    reaction fr g (table opts (cell_get (state ts)) (value_of et) (queue_poisoned (mx s))) = Some p \<and>
    (\<exists>n s'. run (alone t n) s = Some s' \<and> pcs s' t = p)"
proof -
  note inv = reachable_inv [OF r]
  have opts: "options (cq s) = opts" using reasons_reachable [OF r] by (simp add: reasons_def)
  have st: "stages s t = InQueue Checks" by (simp add: stage_at pc)
  from frame_at [OF inv st] obtain ts where ts: "frames s t = Some ts" by blast
  have "in_queue (stages s t)" by (simp add: st)
  from own_task [OF inv this] obtain et where et: "et \<in> set (queue (mx s))" "owner et = t" .
  note table = table_bits [OF two_bits_reachable [OF r ts]]
  show ?thesis
  proof (cases "front_bit ts")
    case False
    have "run (alone t 1) s = Some (set_pc t (PWait fr g) s)"
      using run False by (simp add: thread_step_def step_pc_def pc step_check_bit_def ts wait_check_bits)
    with ts et False show ?thesis
      by (intro exI [of _ ts] exI [of _ et] exI [of _ "PWait fr g"] conjI exI [of _ 1]
          exI [of _ "set_pc t (PWait fr g) s"]) (simp_all add: table)
  next
    case True
    from proto_head [OF inv_proto [OF inv] st ts True] obtain et' q
      where q: "queue (mx s) = et' # q" "owner et' = t" "is_init et'" by metis
    have "et' = et" using owner_inj [OF inv, of et' et] q et by simp
    let ?w = "case value_of et of Some v \<Rightarrow> WaitProcess v
      | None \<Rightarrow> if panic_bit ts then WaitProcessingPanicked else WaitProcessedElsewhere"
    let ?s1 = "set_pc t (PPopSelf fr g (panic_bit ts)) s"
    let ?s2 = "set_pc t (PQueuePoison fr g ?w) (set_mx ((mx s)\<lparr>queue := q\<rparr>) ?s1)"
    let ?s3 = "step_queue_poison t fr g ?w ?s2"
    have "thread_step Normal t s = Some ?s1"
      using run True by (simp add: thread_step_def step_pc_def pc step_check_bit_def ts wait_check_bits)
    moreover have "thread_step Normal t ?s1 = Some ?s2"
      using run q \<open>et' = et\<close>
      by (simp add: thread_step_def step_pc_def step_pop_self_def pop_this_task_Cons Let_def)
    moreover have "thread_step Normal t ?s2 = Some ?s3"
      using run by (simp add: thread_step_def step_pc_def)
    ultimately have steps: "run (alone t 3) s = Some ?s3" by (simp add: numeral_eq_Suc)
    have "reaction fr g (table opts (cell_get (state ts)) (value_of et) (queue_poisoned (mx s))) =
        Some (pcs ?s3 t)"
      using True opts
      by (auto simp: table step_queue_poison_def Let_def split: option.splits)
    with ts et steps show ?thesis by blast
  qed
qed

text \<open>Thread 1 after its wake-up: its value was taken over, so it returns \<open>ProcessedElsewhere\<close>.\<close>

definition ex_checking :: ex_sys where
  "ex_checking = ex_state (Held 1) (ex_mx [ex_task None])
     [1 \<mapsto> wake_front_task (wait_enter 1 TaskState_new)]
     (PClient Exit) (PCheckBit (ex_frame 11) ex_guard)"

lemma ex_run_checking: "run (by_threads [0, 1, 1]) ex_woken = Some ex_checking"
  by (simp add: run_state_simps ex_woken_def ex_checking_def ex_data_defs ok_waker.wait_check_wake
      ok_waker.wake_condvar notify_one_def panic_bit_def TaskState_new_def)

lemmas ex_checking_reachable = ex_reachable [OF run_then [OF ex_to_woken ex_run_checking]]

theorem wait_follows_table_witness:
  "\<exists>n s'. run (alone 1 n) ex_checking = Some s' \<and>
     pcs s' 1 = PHandoff (ex_frame 11) ex_guard ProcessedElsewhere"
proof -
  let ?ts = "wake_front_task (wait_enter 1 TaskState_new)"
  have "table default_options (cell_get (state ?ts)) None False = (ReturnElsewhere :: nat response)"
    by (simp add: table_def wake_front_task_def wait_enter_def TaskState_new_def FRONT_BIT_def)
  with wait_follows_table [OF ex_checking_reachable, of 1 "ex_frame 11" ex_guard]
  show ?thesis by (auto simp: ex_checking_def)
qed

section \<open>Who writes to a \<open>TaskState\<close>\<close>

lemma foreign_frame:
  assumes "step_pc ch t p s = Some s'" "u \<noteq> t" "frames s' u \<noteq> frames s u"
  shows "(\<exists>fr g r. p = PHandoff fr g r) \<or> (\<exists>fr g x. p = PErrHandoff fr g x)"
  using assms
  by (cases p)
    (auto simp: machine_defs
      split: machine_splits)

text \<open>
  C12. Task states are synchronised: a step that changes the \<open>TaskState\<close> of another thread is a
  hand-over by the owner of the permission, who holds the queue's mutex; the other thread is
  the one whose task is the head of the queue, its \<open>TaskState\<close> is alive, and it is woken.
\<close>

theorem task_states_synchronised:
  assumes r: "reachable fs opts msize esize ms clients s" and step: "thread_step ch t s = Some s'"
    and u: "u \<noteq> t" "frames s' u \<noteq> frames s u"
  shows "holder (mutexes s (mutex_address (cq s))) = Held t \<and> owns_front s t \<and>
    queue (mx s) \<noteq> [] \<and> owner (hd (queue (mx s))) = u \<and>
    (\<exists>ts. frames s u = Some ts \<and> \<not> front_bit ts \<and>
       (frames s' u = Some (wake_front_task ts) \<or> frames s' u = Some (wake_front_task_panicking ts)))"
proof -
  note inv = reachable_inv [OF r]
  from step have step: "step_pc ch t (pcs s t) s = Some s'" by (rule thread_stepD)
  note hand = foreign_frame [OF step u]
  then have front: "at_front (stages s t)" "owns_front s t" by (auto simp: owns_front_def stage_at)
  from hand have "guard_of (pcs s t) = bound (pcs s t) \<and> bound (pcs s t) \<noteq> None"
    using invD(4) [OF inv, of t] by auto
  then have held: "holder (mutexes s (mutex_address (cq s))) = Held t"
    using invD(2,3) [OF inv] by (auto simp: guards_inv_def holders_def guards_def)
  have woken: "queue (mx s) \<noteq> [] \<and> owner (hd (queue (mx s))) = u \<and> (\<exists>ts. frames s u = Some ts \<and>
      (frames s' u = Some (wake_front_task ts) \<or> frames s' u = Some (wake_front_task_panicking ts)))"
    using hand step u(2)
    by (auto simp: step_pc_def step_handoff_def step_err_handoff_def finish_ok_def finish_err_def
        leave_unwinding_def split: res.splits if_splits
        dest!: ok_waker.transfer_wakes_head panic_waker.transfer_wakes_head)
  then have "in_queue (stages s u)" using queue_hd_in [OF protoD(1) [OF inv_proto [OF inv]]] by auto
  then have "\<not> bit_at (frames s) u"
    using front_bitD [OF protoD(3) [OF inv_proto [OF inv]]] front(1) by blast
  with held front woken show ?thesis by auto
qed

theorem task_states_synchronised_witness:
  "thread_step Normal 0 ex_leaving = Some ex_woken \<and> owner (hd (queue (mx ex_leaving))) = 1 \<and>
     holder (mutexes ex_leaving 8) = Held 0"
proof -
  have step: "thread_step Normal 0 ex_leaving = Some ex_woken"
    using ex_run_woken by (simp add: by_threads_def split: option.splits)
  have "front_bit (wake_front_task (wait_enter 1 TaskState_new))" by (simp add: ok_waker.wake_front)
  then have "wake_front_task (wait_enter 1 TaskState_new) \<noteq> wait_enter 1 TaskState_new"
    by (metis front_bit_TaskState_new wait_enter_simps(2))
  then have "frames ex_woken 1 \<noteq> frames ex_leaving 1"
    by (simp add: ex_woken_def ex_leaving_def ex_waiting_def)
  from task_states_synchronised [OF ex_reachable_states(4) step _ this] step show ?thesis
    by (simp add: ex_leaving_def)
qed

end
