(* ===== verification/Call_Lifecycle.thy ===== *)
theory Call_Lifecycle
  imports Wait_Table
begin

text \<open>
  What the caller of \<open>process\<close> and \<open>lock_and_process\<close> may assume: the life of one call as an
  automaton, from the arrival with a value and a callback to the verdict. The machine, seen by
  any one thread, refines the automaton, and the other threads can do only one thing to a call:
  take its value over while it waits.
\<close>

section \<open>The life of a call\<close>

datatype ('v, 'fs, 'm, 'u, 'r) phase =
    Absent
  | Arriving 'v "('v, 'fs, 'm, 'u, 'r) ProcessTask"
  | Waiting 'v "('v, 'fs, 'm, 'u, 'r) ProcessTask"
  | TakenOver
  | Serves 'v "('v, 'fs, 'm, 'u, 'r) ProcessTask"
  | Runs "('v, 'fs, 'm, 'u, 'r) callback"
  | Pauses
  | Told "'r ProcessResult"
  | Fails panic

inductive call_step ::
  "('v, 'fs, 'm, 'u, 'r) phase \<Rightarrow> ('v, 'fs, 'm, 'u, 'r) phase \<Rightarrow> bool" where
  call: "call_step Absent (Arriving v task)"
| refused: "call_step (Arriving v task) Absent"
| at_once: "call_step (Arriving v task) (Serves v task)"
| lines_up: "call_step (Arriving v task) (Waiting v task)"
| taken_over: "call_step (Waiting v task) TakenOver"
| has_turn: "call_step (Waiting v task) (Serves v task)"
| told_elsewhere: "call_step TakenOver (Told ProcessedElsewhere)"
| told_panicked: "call_step TakenOver (Told ProcessingPanicked)"
| told_then_fails: "r \<in> {ProcessedElsewhere, ProcessingPanicked} \<Longrightarrow>
    call_step (Told r) (Fails QueuePoisoned)"
| serves_then_fails: "x \<in> {QueuePoisoned, MutexPoisoned} \<Longrightarrow> call_step (Serves v task) (Fails x)"
| runs: "call_step (Serves v task) (Runs (task v))"
| goes_on: "call_step (Runs cb) (Runs cb')"
| pauses: "call_step (Runs cb) Pauses"
| resumes: "call_step Pauses (Runs cb)"
| returns: "call_step (Runs (CbReturn r)) (Told (Processed r))"
| panics: "call_step (Runs (CbPanic n)) (Fails (UserPanic n))"
| leaves: "call_step (Told r) Absent"
| unwinds: "call_step (Fails x) Absent"

definition queue_phase ::
  "tid \<Rightarrow> ('v, 'fs, 'm, 'u, 'r) frame \<Rightarrow> 'v ErasedTask list \<Rightarrow> ('v, 'fs, 'm, 'u, 'r) phase" where
  "queue_phase t fr q =
     (case map_of (pending q) t of None \<Rightarrow> TakenOver | Some v \<Rightarrow> Waiting v (fr_task fr))"

definition phase_of ::
  "tid \<Rightarrow> ('v, 'fs, 'm, 'u, 'r) sys \<Rightarrow> ('v, 'fs, 'm, 'u, 'r) phase" where
  "phase_of t s =
     (case pcs s t of
        PLock fr \<Rightarrow> Arriving (fr_value fr) (fr_task fr)
      | PAssert fr g \<Rightarrow> Arriving (fr_value fr) (fr_task fr)
      | PAcquire fr g \<Rightarrow> Arriving (fr_value fr) (fr_task fr)
      | PPush fr g \<Rightarrow> Arriving (fr_value fr) (fr_task fr)
      | PWait fr g \<Rightarrow> queue_phase t fr (queue (mx s))
      | PBlocked fr g \<Rightarrow> queue_phase t fr (queue (mx s))
      | PRelock fr g \<Rightarrow> queue_phase t fr (queue (mx s))
      | PCheckBit fr g \<Rightarrow> queue_phase t fr (queue (mx s))
      | PPopSelf fr g b \<Rightarrow> queue_phase t fr (queue (mx s))
      | PQueuePoison fr g w \<Rightarrow>
          (case w of
             WaitProcess v \<Rightarrow> Serves v (fr_task fr)
           | WaitProcessedElsewhere \<Rightarrow> Told ProcessedElsewhere
           | WaitProcessingPanicked \<Rightarrow> Told ProcessingPanicked)
      | PMutexPoison fr g v \<Rightarrow> Serves v (fr_task fr)
      | PCallback fr h cb \<Rightarrow> Runs cb
      | PUnlocked fr h clo k \<Rightarrow> Pauses
      | PUnlockedHolds fr h g x k \<Rightarrow> Pauses
      | PUnlockRelock fr h out k \<Rightarrow> Pauses
      | PErrLock fr x \<Rightarrow> Fails x
      | PErrHandoff fr g x \<Rightarrow> Fails x
      | PHandoff fr g r \<Rightarrow> Told r
      | PReturn fr g r \<Rightarrow> Told r
      | _ \<Rightarrow> Absent)"

section \<open>What others can do to a call\<close>

lemma distinct_pending: "distinct (map owner q) \<Longrightarrow> distinct (map fst (pending q))"
  using queued_owners by (induction q) (force split: option.splits)+

lemma phase_queue:
  "in_queue (stages s t) \<Longrightarrow> \<exists>fr. \<forall>s'. pcs s' t = pcs s t \<longrightarrow>
     phase_of t s' = queue_phase t fr (queue (mx s'))"
  by (cases "pcs s t") (auto simp: stage_at phase_of_def)

lemma phase_not_queue:
  "\<not> in_queue (stages s t) \<Longrightarrow> pcs s' t = pcs s t \<Longrightarrow> phase_of t s' = phase_of t s"
  by (cases "pcs s t") (auto simp: stage_at phase_of_def)

text \<open>A pop takes away the oldest value, from the thread that waits with it.\<close>

lemma map_of_tl:
  assumes "distinct (map fst xs)" "xs = (u, v) # ys"
  shows "map_of (tl xs) t = (if t = u then None else map_of xs t)"
  using assms by (auto simp: map_of_eq_None_iff)

lemma others_values:
  assumes inv: "sys_inv s" and step: "step_pc ch u (pcs s u) s = Some s'" and ut: "u \<noteq> t"
    and "\<And>fr h k. pcs s u \<noteq> PCallback fr h (CbPop k)"
  shows "map_of (pending (queue (mx s'))) t = map_of (pending (queue (mx s))) t"
proof -
  consider fr g where "pcs s u = PPush fr g" | fr g b where "pcs s u = PPopSelf fr g b"
    | "\<And>fr g. pcs s u \<noteq> PPush fr g" "\<And>fr g b. pcs s u \<noteq> PPopSelf fr g b" by blast
  then show ?thesis
  proof cases
    case 1
    show ?thesis
    proof (cases "push_task (ch = AllocFails) (elem_size s) u (fr_value fr) (mx s)")
      case None
      with step 1 show ?thesis by (auto simp: step_pc_def step_push_def)
    next
      case (Some m)
      from push_task_queue [OF this] Some step 1 ut show ?thesis
        by (auto simp: step_pc_def step_push_def map_add_def split: option.splits)
    qed
  next
    case 2
    from pop_self_own [OF inv 2] obtain et q
      where q: "queue (mx s) = et # q" "owner et = u" "is_init et" .
    with 2 step ut show ?thesis
      by (auto simp: step_pc_def step_pop_self_def pop_this_task_Cons [OF q(1,3,2)] Let_def
          split: option.splits)
  next
    case 3
    with queue_unchanged [OF step 3] assms(4) show ?thesis by simp
  qed
qed

lemma queue_distinct: "sys_inv s \<Longrightarrow> distinct (map fst (pending (queue (mx s))))"
  using protoD(1) [OF inv_proto, of s] by (simp add: queue_inv_def distinct_pending)

text \<open>The oldest waiting call, if any, is the only one that a pop of another thread affects.\<close>

lemma pop_of_other:
  assumes inv: "sys_inv s" and pc: "pcs s u = PCallback fr h (CbPop k)"
    and step: "step_pc ch u (pcs s u) s = Some s'" and t: "t \<noteq> u"
  shows "phase_of t s' = phase_of t s \<or>
    (\<exists>v task h'. phase_of t s = Waiting v task \<and> phase_of t s' = TakenOver \<and>
       pcs s' u = PCallback fr h' (k (Returned (Some v))) \<and>
       (\<exists>w. pending (queue (mx s)) = (t, v) # w))"
proof -
  from step pc have s': "s' = step_callback u fr h (CbPop k) s" by (simp add: step_pc_def)
  from pop_step [OF inv pc] obtain h' q
    where q: "s' = set_pc u (PCallback fr h' (k (Returned
        (case pending (queue (mx s)) of [] \<Rightarrow> None | (u, v) # w \<Rightarrow> Some v)))) (set_mx ((mx s)\<lparr>queue := q\<rparr>) s)"
      "pending q = tl (pending (queue (mx s)))" unfolding s' by blast
  have same: "pcs s' t = pcs s t" using q t by simp
  show ?thesis
  proof (cases "in_queue (stages s t)")
    case False
    with phase_not_queue [OF False same] show ?thesis by blast
  next
    case True
    from phase_queue [OF True] obtain fr'
      where phase: "\<And>s''. pcs s'' t = pcs s t \<Longrightarrow> phase_of t s'' = queue_phase t fr' (queue (mx s''))"
      by blast
    show ?thesis
    proof (cases "pending (queue (mx s))")
      case Nil
      with q have "pending (queue (mx s')) = pending (queue (mx s))" by simp
      with phase [OF same] phase [of s] show ?thesis by (simp add: queue_phase_def)
    next
      case (Cons x w)
      obtain u' v where x: "x = (u', v)" by (cases x)
      have "map_of (pending (queue (mx s'))) t = (if t = u' then None else map_of (pending (queue (mx s))) t)"
        using map_of_tl [OF queue_distinct [OF inv] Cons [unfolded x]] q by simp
      with phase [OF same] phase [of s] q Cons x show ?thesis
        by (cases "t = u'") (simp_all add: queue_phase_def)
    qed
  qed
qed

lemma others_phase:
  assumes inv: "sys_inv s" and step: "step_pc ch u (pcs s u) s = Some s'" and t: "t \<noteq> u"
    and other: "\<And>fr h k. pcs s u \<noteq> PCallback fr h (CbPop k)"
  shows "phase_of t s' = phase_of t s"
proof -
  have same: "pcs s' t = pcs s t" by (rule step_other_pc [OF step t])
  show ?thesis
  proof (cases "in_queue (stages s t)")
    case False
    then show ?thesis by (rule phase_not_queue [OF _ same])
  next
    case True
    from phase_queue [OF True] obtain fr
      where "\<And>s''. pcs s'' t = pcs s t \<Longrightarrow> phase_of t s'' = queue_phase t fr (queue (mx s''))" by blast
    from this [OF same] this [of s] others_values [OF inv step t [symmetric] other] show ?thesis
      by (simp add: queue_phase_def)
  qed
qed

section \<open>The steps of the call\<close>

lemma lines_up_step:
  assumes inv: "sys_inv s" and pc: "pcs s t = PPush fr g"
    and step: "step_pc ch t (pcs s t) s = Some s'"
  shows "phase_of t s' = phase_of t s \<or> phase_of t s' = Waiting (fr_value fr) (fr_task fr)"
proof (cases "push_task (ch = AllocFails) (elem_size s) t (fr_value fr) (mx s)")
  case None
  with step pc show ?thesis by (auto simp: step_pc_def step_push_def phase_of_def)
next
  case (Some m)
  have "t \<notin> owner ` set (queue (mx s))"
    using not_queued [OF inv, of t] by (auto simp: stage_at pc)
  then have "map_of (pending (queue (mx s))) t = None"
    using queued_owners [of "queue (mx s)"] by (auto simp: map_of_eq_None_iff)
  with push_task_queue [OF Some] step pc Some show ?thesis
    by (auto simp: step_pc_def step_push_def phase_of_def queue_phase_def map_add_def)
qed

lemma has_turn_step:
  assumes inv: "sys_inv s" and pc: "pcs s t = PPopSelf fr g b"
    and step: "step_pc ch t (pcs s t) s = Some s'"
  shows "call_step (phase_of t s) (phase_of t s')"
proof -
  from pop_self_own [OF inv pc] obtain et q
    where q: "queue (mx s) = et # q" "owner et = t" "is_init et" .
  have "t \<notin> owner ` set q"
    using protoD(1) [OF inv_proto [OF inv]] q by (simp add: queue_inv_def)
  then have "map_of (pending q) t = None"
    using queued_owners [of q] by (auto simp: map_of_eq_None_iff)
  with q step pc show ?thesis
    by (auto simp: step_pc_def step_pop_self_def pop_this_task_Cons [OF q(1,3,2)] Let_def
        phase_of_def queue_phase_def split: option.splits intro: call_step.intros)
qed

lemma own_phase:
  assumes inv: "sys_inv s" and step: "step_pc ch t (pcs s t) s = Some s'"
  shows "phase_of t s' = phase_of t s \<or> call_step (phase_of t s) (phase_of t s')"
proof -
  consider fr g where "pcs s t = PPush fr g" | fr g b where "pcs s t = PPopSelf fr g b"
    | "\<And>fr g. pcs s t \<noteq> PPush fr g" "\<And>fr g b. pcs s t \<noteq> PPopSelf fr g b" by blast
  then show ?thesis
  proof cases
    case 1
    from lines_up_step [OF inv 1 step] 1 show ?thesis by (auto simp: phase_of_def intro: lines_up)
  next
    case 2
    with has_turn_step [OF inv 2 step] show ?thesis by blast
  next
    case 3
    with step show ?thesis
      by (cases "pcs s t")
        (auto simp: machine_defs phase_of_def
          queue_phase_def intro: call_step.intros
          split: machine_splits TaskWaitResult.splits)
  qed
qed

interpretation caller: simulation sys_step sys_inv call_step "phase_of t"
proof unfold_locales
  fix s s' :: "('v, 'fs, 'm, 'u, 'r) sys"
  assume "sys_step s s'" and inv: "sys_inv s"
  then obtain ch u where step: "step_pc ch u (pcs s u) s = Some s'"
    by (blast elim: sys_step_pcE)
  show "phase_of t s' = phase_of t s \<or> call_step (phase_of t s) (phase_of t s')"
  proof (cases "u = t")
    case True
    with own_phase [OF inv, of ch t] step show ?thesis by blast
  next
    case False
    with pop_of_other [OF inv _ step] others_phase [OF inv step] show ?thesis
      by (metis call_step.taken_over)
  qed
qed

text \<open>
  C7. A call lives as the automaton says: it is processed at once or lines up, its value is taken
  over by another callback or it gets the turn and runs its own callback on its own value, and
  only then it learns the verdict. Another thread can affect it in one way only: a callback
  that pops, while this call is the oldest that waits with its value, takes that value over.
\<close>

theorem call_lifecycle:
  assumes r: "reachable fs opts msize esize ms clients s" and step: "thread_step ch u s = Some s'"
  shows "(phase_of t s' = phase_of t s \<or> call_step (phase_of t s) (phase_of t s')) \<and>
    (t \<noteq> u \<longrightarrow> phase_of t s' \<noteq> phase_of t s \<longrightarrow>
      (\<exists>fr h k h' v task w. pcs s u = PCallback fr h (CbPop k) \<and>
        pcs s' u = PCallback fr h' (k (Returned (Some v))) \<and>
        pending (queue (mx s)) = (t, v) # w \<and>
        phase_of t s = Waiting v task \<and> phase_of t s' = TakenOver))"
proof (intro conjI impI)
  note inv = reachable_inv [OF r]
  from step have step': "step_pc ch u (pcs s u) s = Some s'" by (rule thread_stepD)
  show "phase_of t s' = phase_of t s \<or> call_step (phase_of t s) (phase_of t s')"
    by (rule caller.sim [OF sys_step.thread [OF step] inv])
  assume t: "t \<noteq> u" and change: "phase_of t s' \<noteq> phase_of t s"
  from others_phase [OF inv step' t] change obtain fr h k
    where pc: "pcs s u = PCallback fr h (CbPop k)" by blast
  from pop_of_other [OF inv pc step' t] change pc
  show "\<exists>fr h k h' v task w. pcs s u = PCallback fr h (CbPop k) \<and>
        pcs s' u = PCallback fr h' (k (Returned (Some v))) \<and>
        pending (queue (mx s)) = (t, v) # w \<and>
        phase_of t s = Waiting v task \<and> phase_of t s' = TakenOver" by blast
qed

theorem call_lifecycle_witness:
  "phase_of 1 ex_pop = Waiting 11 merge_task \<and> phase_of 1 ex_popped = TakenOver"
proof -
  have step: "thread_step Normal 0 ex_pop = Some ex_popped"
    using ex_run_popped by (simp add: by_threads_def split: option.splits)
  have "phase_of 1 ex_popped \<noteq> phase_of 1 ex_pop"
    by (simp add: phase_of_def ex_pop_def ex_popped_def queue_phase_def)
  with call_lifecycle [OF ex_reachable_states(2) step, of 1]
  show ?thesis
    by (auto simp: phase_of_def ex_pop_def queue_phase_def ex_frame_def)
qed

section \<open>The history of a call\<close>

text \<open>The phases that a thread's call goes through along a schedule.\<close>

fun phases ::
  "tid \<Rightarrow> (tid \<times> choice) list \<Rightarrow> ('v, 'fs, 'm, 'u, 'r) sys \<Rightarrow> ('v, 'fs, 'm, 'u, 'r) phase list" where
  "phases t [] s = [phase_of t s]"
| "phases t ((u, ch) # sched) s =
     phase_of t s # (case thread_step ch u s of None \<Rightarrow> [] | Some s' \<Rightarrow> phases t sched s')"

text \<open>What must have happened before, given the phases so far and the present one.\<close>

abbreviation not_begun :: "('v, 'fs, 'm, 'u, 'r) phase set \<Rightarrow> bool" where
  "not_begun H \<equiv> TakenOver \<notin> H \<and> range Runs \<inter> H = {}"

abbreviation began_own ::
  "'v \<Rightarrow> ('v, 'fs, 'm, 'u, 'r) ProcessTask \<Rightarrow> ('v, 'fs, 'm, 'u, 'r) phase set \<Rightarrow> bool" where
  "began_own v task H \<equiv> TakenOver \<notin> H \<and> Runs (task v) \<in> H"

fun story ::
  "'v \<Rightarrow> ('v, 'fs, 'm, 'u, 'r) ProcessTask \<Rightarrow> ('v, 'fs, 'm, 'u, 'r) phase set \<Rightarrow>
     ('v, 'fs, 'm, 'u, 'r) phase \<Rightarrow> bool" where
  "story v task H Absent \<longleftrightarrow> False"
| "story v task H (Arriving v' task') \<longleftrightarrow> v' = v \<and> task' = task \<and> not_begun H"
| "story v task H (Waiting v' task') \<longleftrightarrow> v' = v \<and> task' = task \<and> not_begun H"
| "story v task H (Serves v' task') \<longleftrightarrow> v' = v \<and> task' = task \<and> not_begun H"
| "story v task H TakenOver \<longleftrightarrow> TakenOver \<in> H \<and> range Runs \<inter> H = {}"
| "story v task H (Runs cb) \<longleftrightarrow> began_own v task H \<and> Runs cb \<in> H"
| "story v task H Pauses \<longleftrightarrow> began_own v task H"
| "story v task H (Told (Processed r)) \<longleftrightarrow> began_own v task H \<and> Runs (CbReturn r) \<in> H"
| "story v task H (Told ProcessedElsewhere) \<longleftrightarrow> TakenOver \<in> H \<and> range Runs \<inter> H = {}"
| "story v task H (Told ProcessingPanicked) \<longleftrightarrow> TakenOver \<in> H \<and> range Runs \<inter> H = {}"
| "story v task H (Fails x) \<longleftrightarrow> True"

lemma story_step:
  assumes "story v task H p" "p' = p \<or> call_step p p'" "p' \<noteq> Absent" "p \<in> H"
  shows "story v task (insert p' H) p'"
  using assms(2)
proof
  assume "p' = p"
  with assms(1,4) show ?thesis by (simp add: insert_absorb)
next
  assume "call_step p p'"
  then show ?thesis using assms(1,3,4) by cases auto
qed

lemma story_run:
  "sys_inv s \<Longrightarrow> run sched s = Some s' \<Longrightarrow> story v task H (phase_of t s) \<Longrightarrow> phase_of t s \<in> H \<Longrightarrow>
     Absent \<notin> set (phases t sched s) \<Longrightarrow> story v task (H \<union> set (phases t sched s)) (phase_of t s')"
proof (induction sched s arbitrary: H rule: run.induct)
  case (1 s)
  then show ?case by (simp add: insert_absorb)
next
  case (2 u ch sched s)
  then obtain s1 where s1: "thread_step ch u s = Some s1" "run sched s1 = Some s'"
    by (auto split: option.splits)
  note step = sys_step.thread [OF s1(1)]
  have inv: "sys_inv s1" by (rule sys_inv_step [OF step "2.prems"(1)])
  have later: "Absent \<notin> set (phases t sched s1)" using "2.prems"(5) s1(1) by simp
  have "phase_of t s1 \<in> set (phases t sched s1)" by (cases sched) auto
  with later have "phase_of t s1 \<noteq> Absent" by metis
  from story_step [OF "2.prems"(3) caller.sim [OF step "2.prems"(1)] this "2.prems"(4)]
  have "story v task (insert (phase_of t s1) H) (phase_of t s1)" .
  from "2.IH" [OF s1(1) inv s1(2) this _ later] show ?case
    using "2.prems"(4) s1(1) \<open>phase_of t s1 \<in> set (phases t sched s1)\<close>
    by (simp add: insert_absorb)
qed

text \<open>
  C6. The verdict of a call is the truth, and its value is processed once: along any schedule, a
  call that is told \<open>Processed r\<close> has run its own callback on its own value, which returned
  \<open>r\<close>, and its value was never taken over; one that is told \<open>ProcessedElsewhere\<close> or
  \<open>ProcessingPanicked\<close> has had its value taken over and has never run a callback.
\<close>

theorem verdict_is_true:
  assumes r: "reachable fs opts msize esize ms clients s" and run: "run sched s = Some s'"
    and call: "phase_of t s = Arriving v task" "Absent \<notin> set (phases t sched s)"
    and told: "phase_of t s' = Told verdict"
  shows "case verdict of
      Processed r \<Rightarrow> Runs (task v) \<in> set (phases t sched s) \<and>
        Runs (CbReturn r) \<in> set (phases t sched s) \<and> TakenOver \<notin> set (phases t sched s)
    | _ \<Rightarrow> TakenOver \<in> set (phases t sched s) \<and> (\<forall>cb. Runs cb \<notin> set (phases t sched s))"
proof -
  have "story v task {phase_of t s} (phase_of t s)" by (auto simp: call(1))
  from story_run [OF reachable_inv [OF r] run this _ call(2)]
  have "story v task ({phase_of t s} \<union> set (phases t sched s)) (Told verdict)" using told by simp
  then show ?thesis using call(1) by (cases verdict) auto
qed

text \<open>One thread, whose callback returns 5.\<close>

definition alone_clients :: "tid \<Rightarrow> ex_client" where
  "alone_clients t = (if t = 0 then CallLockAndProcess 8 10 (\<lambda>_. CbReturn 5) (\<lambda>_. Exit) else Exit)"

definition alone_start :: ex_sys where
  "alone_start = initial 0 default_options 8 8 (\<lambda>_. 0) alone_clients"

lemma alone_arrives:
  "\<exists>s. run (by_threads [0]) alone_start = Some s \<and> phase_of 0 s = Arriving 10 (\<lambda>_. CbReturn 5) \<and>
     (\<exists>s'. run (by_threads [0, 0, 0, 0, 0]) s = Some s' \<and> phase_of 0 s' = Told (Processed 5) \<and>
        Absent \<notin> set (phases 0 (by_threads [0, 0, 0, 0, 0]) s))"
  by (simp add: run_simps alone_start_def alone_clients_def phase_of_def)

theorem verdict_is_true_witness:
  "\<exists>s. run (by_threads [0]) alone_start = Some s \<and>
     Runs (CbReturn 5) \<in> set (phases 0 (by_threads [0, 0, 0, 0, 0]) s)"
proof -
  obtain s s' where s: "run (by_threads [0]) alone_start = Some s"
      "phase_of 0 s = Arriving 10 (\<lambda>_. CbReturn 5)"
      "run (by_threads [0, 0, 0, 0, 0]) s = Some s'" "phase_of 0 s' = Told (Processed 5)"
      "Absent \<notin> set (phases 0 (by_threads [0, 0, 0, 0, 0]) s)"
    using alone_arrives by blast
  have "reachable 0 default_options 8 8 (\<lambda>_. 0) alone_clients s"
    using run_reach [OF s(1)] by (simp add: reachable_def alone_start_def alone_clients_def)
  from verdict_is_true [OF this s(3,2,5,4)] s(1) show ?thesis by auto
qed

end
