(* ===== verification/Turn_Order.thy ===== *)
theory Turn_Order
  imports Call_Lifecycle
begin

text \<open>
  How long a thread waits for its turn: the turns that are taken while it is queued are those of
  the threads that were ahead of it, in their order, each once. Newcomers do not delay it.
\<close>





















end
