(* ===== verification/Debugging.thy ===== *)
theory Debugging
  imports Turn_Order
begin

text \<open>
  The \<open>Debug\<close> implementations: what \<open>format!("{:?}", x)\<close> writes for the types of the crate.
  The formatting of the caller's types is a parameter. The standard library's \<open>DebugStruct\<close> and
  \<open>DebugTuple\<close> are the three functions of the first section; \<open>Condvar\<close> and \<open>UnsafeCell\<close> do not
  show their contents.
\<close>

section \<open>The builders of the standard library\<close>

fun separated :: "string list \<Rightarrow> string" where
  "separated [] = ''''"
| "separated [x] = x"
| "separated (x # xs) = x @ '', '' @ separated xs"

definition debug_field :: "string \<times> string \<Rightarrow> string" where
  "debug_field f = fst f @ '': '' @ snd f"

text \<open>\<open>debug_struct(..)...finish()\<close> and \<open>finish_non_exhaustive()\<close>.\<close>

definition debug_struct :: "string \<Rightarrow> (string \<times> string) list \<Rightarrow> string" where
  "debug_struct name fs =
     (if fs = [] then name else name @ '' { '' @ separated (map debug_field fs) @ '' }'')"

definition debug_struct_open :: "string \<Rightarrow> (string \<times> string) list \<Rightarrow> string" where
  "debug_struct_open name fs =
     name @ '' { '' @ separated (map debug_field fs @ [''..'']) @ '' }''"

definition debug_tuple :: "string \<Rightarrow> string list \<Rightarrow> string" where
  "debug_tuple name xs = (if xs = [] then name else name @ ''('' @ separated xs @ '')'')"

definition debug_bool :: "bool \<Rightarrow> string" where
  "debug_bool b = (if b then ''true'' else ''false'')"

fun debug_option :: "('a \<Rightarrow> string) \<Rightarrow> 'a option \<Rightarrow> string" where
  "debug_option fmt None = ''None''"
| "debug_option fmt (Some a) = debug_tuple ''Some'' [fmt a]"

section \<open>Derived implementations\<close>

definition debug_PanicOptions :: "PanicOptions \<Rightarrow> string" where
  "debug_PanicOptions opts = debug_struct ''PanicOptions''
     [(''unwrap_mutex_poison'', debug_bool (unwrap_mutex_poison opts)),
      (''unwrap_queue_poison'', debug_bool (unwrap_queue_poison opts))]"

fun debug_ProcessResult :: "('r \<Rightarrow> string) \<Rightarrow> 'r ProcessResult \<Rightarrow> string" where
  "debug_ProcessResult fmt (Processed r) = debug_tuple ''Processed'' [fmt r]"
| "debug_ProcessResult fmt ProcessedElsewhere = ''ProcessedElsewhere''"
| "debug_ProcessResult fmt ProcessingPanicked = ''ProcessingPanicked''"

definition debug_processing_panicked :: "processing_panicked \<Rightarrow> string" where
  "debug_processing_panicked b = debug_tuple ''ProcessingPanicked'' [debug_bool b]"

fun debug_TaskWaitResult :: "('v \<Rightarrow> string) \<Rightarrow> 'v TaskWaitResult \<Rightarrow> string" where
  "debug_TaskWaitResult fmt (WaitProcess v) = debug_tuple ''Process'' [fmt v]"
| "debug_TaskWaitResult fmt WaitProcessedElsewhere = ''ProcessedElsewhere''"
| "debug_TaskWaitResult fmt WaitProcessingPanicked = ''ProcessingPanicked''"

fun debug_AbortIfNotAtFront :: "AbortIfNotAtFront \<Rightarrow> string" where
  "debug_AbortIfNotAtFront AbortIfNotAtFront = ''AbortIfNotAtFront''"

section \<open>Written implementations\<close>

text \<open>\<open>UnsafeMutexCell\<close> formats the \<open>UnsafeCell\<close> inside it.\<close>

definition debug_UnsafeMutexCell :: "'a UnsafeMutexCell \<Rightarrow> string" where
  "debug_UnsafeMutexCell c = debug_struct_open ''UnsafeCell'' []"

definition debug_TaskState :: "TaskState \<Rightarrow> string" where
  "debug_TaskState ts = debug_struct ''TaskState''
     [(''condvar'', debug_struct_open ''Condvar'' []), (''state'', debug_UnsafeMutexCell (state ts))]"

text \<open>A task shows the \<open>TaskState\<close> it refers to; a dangling reference is undefined behaviour.\<close>

definition debug_Task ::
  "('v \<Rightarrow> string) \<Rightarrow> (tid \<Rightarrow> TaskState option) \<Rightarrow> 'v Task \<Rightarrow> string res" where
  "debug_Task fmt task_states task =
     (case task_states (task_state task) of
        None \<Rightarrow> UB
      | Some ts \<Rightarrow> Ret (debug_struct ''Task''
          [(''state'', debug_TaskState ts), (''value'', debug_option fmt (task_value task))]))"

definition debug_ErasedTask :: "'v ErasedTask \<Rightarrow> string" where
  "debug_ErasedTask et = debug_struct_open ''ErasedTask'' []"

definition debug_ContentionQueue :: "('fs, 'v) ContentionQueue \<Rightarrow> string" where
  "debug_ContentionQueue q = debug_struct_open ''ContentionQueue'' []"

text \<open>A handle shows the data of the mutex, which it reads through its guard.\<close>

definition debug_QueueHandle ::
  "('m \<Rightarrow> string) \<Rightarrow> QueueHandle \<Rightarrow> (addr \<Rightarrow> 'm mutex) \<Rightarrow> string res" where
  "debug_QueueHandle fmt h ms =
     bind_res (handle_mutex_state h ms)
       (\<lambda>m. Ret (debug_struct_open ''QueueHandle'' [(''mutex_state'', fmt m)]))"

section \<open>Properties\<close>

lemmas debug_defs =
  debug_struct_def debug_struct_open_def debug_tuple_def debug_field_def debug_bool_def

lemma debug_QueueHandle_ready:
  "qh_guard h = Init g \<Longrightarrow> debug_QueueHandle fmt h ms =
     Ret (''QueueHandle { mutex_state: '' @ fmt (data (ms (guard_mutex g))) @ '', .. }'')"
  by (simp add: debug_QueueHandle_def handle_mutex_state_def debug_defs)

lemma debug_Task_live:
  "task_states (task_state task) = Some ts \<Longrightarrow> debug_Task fmt task_states task =
     Ret (''Task { state: TaskState { condvar: Condvar { .. }, state: UnsafeCell { .. } }, value: ''
       @ debug_option fmt (task_value task) @ '' }'')"
  by (simp add: debug_Task_def debug_TaskState_def debug_UnsafeMutexCell_def debug_defs)

text \<open>
  C40. Formatting a handle: whenever a callback can format its handle, in any reachable state, the
  guard it reads is there and is one of the mutex of the call, so the output shows what that mutex
  protects at that moment, formatted by the caller's function.
\<close>

theorem debug_handle:
  assumes r: "reachable fs opts msize esize ms clients s" and pc: "pcs s t = PCallback fr h cb"
  shows "debug_QueueHandle fmt h (mutexes s) =
    Ret (''QueueHandle { mutex_state: '' @ fmt (data (mutexes s (fr_mutex fr))) @ '', .. }'')"
proof (rule callback_facts [OF reachable_inv [OF r] pc])
  fix g assume "qh_guard h = Init g" "guard_mutex g = fr_mutex fr"
  then show ?thesis by (simp add: debug_QueueHandle_ready)
qed

theorem debug_handle_witness:
  "debug_QueueHandle (\<lambda>m. ''7'') (ex_handle 0) (mutexes ex_pop) =
     Ret ''QueueHandle { mutex_state: 7, .. }''"
  using debug_handle [OF ex_reachable_states(2), of 0 _ "ex_handle 0" _ "\<lambda>m. ''7''"]
  by (simp add: ex_pop_def)

end
