(* ===== verification/Defects.thy ===== *)
theory Defects
  imports Debugging
begin

text \<open>
  Where the code does not do what its documentation or its comments say. Each is a theorem
  about the model of the code as it is written.
\<close>

section \<open>A panicking callback\<close>

text \<open>A queue whose mutex is leaked is frozen.\<close>

definition frozen ::
  "addr \<Rightarrow> tid \<Rightarrow> 'v MutexExclusive \<Rightarrow> ('v, 'fs, 'm, 'u, 'r) sys \<Rightarrow> bool" where
  "frozen a t m s \<longleftrightarrow> sys_inv s \<and> holder (mutexes s a) = Leaked t \<and>
     mutex_address (cq s) = a \<and> a \<noteq> 0 \<and> mx s = m"

lemma frozen_step:
  assumes "sys_step s s'" "frozen a t m s" shows "frozen a t m s'"
proof -
  from assms(1) obtain ch u where u: "thread_step ch u s = Some s'" by (auto elim: sys_stepE)
  then have step: "step_pc ch u (pcs s u) s = Some s'" by (rule thread_stepD)
  have inv: "sys_inv s" and leaked: "holder (mutexes s a) = Leaked t"
    using assms(2) by (simp_all add: frozen_def)
  with leaked_keeps [OF inv step leaked] address_step [OF step] mutex_exclusive_change [OF inv u]
    sys_inv_step [OF assms(1) inv] assms(2)
  show ?thesis by (auto simp: frozen_def)
qed

interpretation frozen: invariant sys_step "frozen a t m"
  by unfold_locales (rule frozen_step)

lemma panic_freezes:
  assumes r: "reachable fs opts msize esize ms clients s"
    and pc: "pcs s t = PCallback fr h (CbPanic n)"
    and step: "thread_step ch t s = Some s1" and later: "reach sys_step s1 s'"
  shows "frozen (fr_mutex fr) t (mx s) s'"
proof (rule callback_facts [OF reachable_inv [OF r] pc])
  fix g assume h: "qh_guard h = Init g" "guard_mutex g = fr_mutex fr" "frame_ok fr"
  note inv = reachable_inv [OF r]
  have s1: "s1 = set_pc t (PErrLock fr (UserPanic n)) (upd_mutex (fr_mutex fr) (leak_guard t) s)"
    using step h pc by (simp add: thread_step_def step_pc_def step_callback_def split: if_splits)
  have "sys_inv s1" using step inv by (blast intro: sys_inv_step sys_step.thread)
  moreover have "mutex_address (cq s) = fr_mutex fr" using invD(3) [OF inv, of t] pc by auto
  ultimately have "frozen (fr_mutex fr) t (mx s) s1" using h(3) by (simp add: frozen_def s1 frame_ok_def)
  with later show ?thesis by (rule frozen.reach_inv)
qed

text \<open>
  C33. A panic of the callback freezes the queue for ever. The guard is inside a
  \<open>MaybeUninit\<close> while the callback runs, so unwinding does not drop it, and the \<open>lock\<close> of the
  \<open>Err\<close> branch meets a mutex that is still locked by the same thread. In every state that
  follows, the mutex is locked by nobody's guard, the queue is not poisoned by the panic, and
  the threads whose tasks were queued are still waiting.
\<close>

theorem callback_panic_freezes_queue:
  assumes r: "reachable fs opts msize esize ms clients s"
    and pc: "pcs s t = PCallback fr h (CbPanic n)"
    and step: "thread_step ch t s = Some s1" and later: "reach sys_step s1 s'"
  shows "holder (mutexes s' (fr_mutex fr)) = Leaked t \<and> mx s' = mx s \<and>
    (\<forall>u \<in> owner ` set (queue (mx s)). in_queue (stages s' u))"
proof -
  have frozen: "frozen (fr_mutex fr) t (mx s) s'" by (rule panic_freezes [OF r pc step later])
  then have "sys_inv s'" "mx s' = mx s" by (simp_all add: frozen_def)
  with protoD(1) [OF inv_proto, of s'] have "\<forall>u \<in> owner ` set (queue (mx s)). in_queue (stages s' u)"
    unfolding queue_inv_def by auto
  with frozen show ?thesis by (simp add: frozen_def)
qed

text \<open>Thread 0 panics in its callback while thread 1 waits in the queue.\<close>

definition panic_task :: "(nat, nat, nat, nat, nat) ProcessTask" where
  "panic_task v = CbUnlocked (CloReturn 0) (\<lambda>_. CbPanic 7)"

definition panic_clients :: "tid \<Rightarrow> ex_client" where
  "panic_clients t = (if t < 2 then CallLockAndProcess 8 (10 + t) panic_task (\<lambda>_. Exit) else Exit)"

definition panic_start :: ex_sys where
  "panic_start = initial 0 default_options 8 8 (\<lambda>_. 0) panic_clients"

definition panic_frame :: "nat \<Rightarrow> (nat, nat, nat, nat, nat) frame" where
  "panic_frame v = Frame 8 v panic_task (ByLockAndProcess (\<lambda>_. Exit))"

definition panicking :: ex_sys where
  "panicking = ex_state (Held 0) (ex_mx [ex_task (Some 11)]) ex_waiting
     (PCallback (panic_frame 10) (ex_handle 0) (CbPanic 7)) (PBlocked (panic_frame 11) ex_guard)"

definition panicked :: ex_sys where
  "panicked = ex_state (Leaked 0) (ex_mx [ex_task (Some 11)]) ex_waiting
     (PErrLock (panic_frame 10) (UserPanic 7)) (PBlocked (panic_frame 11) ex_guard)"

lemma panic_run:
  "run (by_threads [0, 0, 0, 0, 0, 0, 1, 1, 1, 1, 1, 1, 0, 0]) panic_start = Some panicking"
  by (simp add: run_state_simps panic_start_def panic_clients_def panic_task_def panicking_def
      panic_frame_def ex_data_defs)

lemma panic_step: "thread_step Normal 0 panicking = Some panicked"
  by (simp add: run_state_simps panicking_def panicked_def ex_data_defs leak_guard_def)

lemma panicking_reachable: "reachable 0 default_options 8 8 (\<lambda>_. 0) panic_clients panicking"
  using run_reach [OF panic_run] by (simp add: reachable_def panic_start_def panic_clients_def)

text \<open>When the lock of the \<open>Err\<close> branch panics, thread 0 leaves, and thread 1 waits on.\<close>

definition abandoned :: ex_sys where
  "abandoned = ex_state (Leaked 0) (ex_mx [ex_task (Some 11)]) ex_waiting
     (PClient Exit) (PBlocked (panic_frame 11) ex_guard)"

lemma abandon_run: "run [(0, LockMayPanic)] panicked = Some abandoned"
  by (simp add: run_state_simps panicked_def abandoned_def panic_frame_def ex_data_defs
      leave_unwinding_def)

theorem callback_panic_freezes_queue_witness:
  "holder (mutexes abandoned 8) = Leaked 0 \<and> in_queue (stages abandoned 1)"
  using callback_panic_freezes_queue
      [OF panicking_reachable _ panic_step run_reach [OF abandon_run], of "panic_frame 10" "ex_handle 0" 7]
  by (simp add: panicking_def) (simp add: panic_frame_def)

section \<open>A guard of another mutex\<close>

text \<open>Thread 1 passes mutex 8 to \<open>process\<close> together with a guard of mutex 16.\<close>

definition mismatch_clients :: "tid \<Rightarrow> ex_client" where
  "mismatch_clients t =
     (if t = 0 then CallLockAndProcess 8 10 CbReturn (\<lambda>_. Exit)
      else if t = 1 then LockMutex 16 (\<lambda>_. SProcess 8 11 CbReturn (\<lambda>_. SDrop Exit) (\<lambda>_. Exit))
      else Exit)"

text \<open>
  \<open>process\<close> does not check that the guard belongs to the mutex. A caller in safe code that passes
  a guard of another mutex reaches, from a new queue, a state in which two threads use the state
  behind the mutex at the same time.
\<close>

theorem mismatched_guard_race:
  "\<exists>s. run (by_threads [0, 0, 0, 0, 1, 1, 1])
     (initial 0 default_options 8 8 (\<lambda>_. 0) mismatch_clients) = Some s \<and>
     uses_mutex_exclusive (pcs s 0) \<and> uses_mutex_exclusive (pcs s 1) \<and>
     client_ok (mismatch_clients 0) \<and> \<not> client_ok (mismatch_clients 1)"
  by (simp add: run_simps mismatch_clients_def)

section \<open>Queue poison\<close>


text \<open>
  Thread 0 poisons the queue as in \<open>poison_client\<close>, clears the poison of the mutex, and then
  submits a task that takes over two queued values. Threads 1 and 2 submit tasks; thread 1
  clears the queue's poison when its call panics. No callback ever panics.
\<close>

definition pop_two :: "(nat, nat, nat, nat, nat) ProcessTask" where
  "pop_two v = CbUnlocked (CloReturn 0) (\<lambda>_. CbPop (\<lambda>_. CbPop (\<lambda>_. CbReturn v)))"

definition poison_clients :: "tid \<Rightarrow> ex_client" where
  "poison_clients t =
     (if t = 0 then
        LockMutex 8 (\<lambda>_. SPanic (LockMutex 8 (\<lambda>_.
          SProcess 8 5 CbReturn (\<lambda>_. SDrop Exit) (\<lambda>_. ClearMutexPoison 8
            (CallLockAndProcess 8 10 pop_two (\<lambda>_. Exit))))))
      else if t = 1 then
        CallLockAndProcess 8 11 CbReturn (\<lambda>_. CallClearQueuePoison 8 (\<lambda>_. Exit))
      else if t = 2 then CallLockAndProcess 8 12 CbReturn (\<lambda>_. Exit)
      else Exit)"

definition poison_clients_start :: ex_sys where
  "poison_clients_start = initial 0 default_options 8 8 (\<lambda>_. 0) poison_clients"

lemma poison_clients_ok: "client_ok (poison_clients t)"
  by (simp add: poison_clients_def)

definition poisoned_schedule :: "(tid \<times> choice) list" where
  "poisoned_schedule = by_threads [0, 0, 0, 0, 0, 0, 0, 0, 0, 0, 0, 0, 0]"

definition pop_two_frame :: "(nat, nat, nat, nat, nat) frame" where
  "pop_two_frame = Frame 8 10 pop_two (ByLockAndProcess (\<lambda>_. Exit))"

lemmas poison_clients_simps =
  run_state_simps poison_clients_start_def poison_clients_def pop_two_def pop_two_frame_def
  finish_err_def finish_ok_def transfer_front_def vd_front_def leave_unwinding_def



section \<open>The verdict \<open>ProcessingPanicked\<close>\<close>

text \<open>A state in which some thread has been told, or will be told, that there was a panic.\<close>

fun carries_panic :: "('v, 'fs, 'm, 'u, 'r) pc \<Rightarrow> bool" where
  "carries_panic (PPopSelf fr g b) \<longleftrightarrow> b"
| "carries_panic p \<longleftrightarrow> panicked_verdict p"

definition panic_about :: "('v, 'fs, 'm, 'u, 'r) sys \<Rightarrow> bool" where
  "panic_about s \<longleftrightarrow> (\<exists>t. panic_at (frames s) t \<or> carries_panic (pcs s t))"

lemma panic_bit_kept:
  assumes step: "step_pc ch t p s = Some s'" and p: "\<And>fr g x. p \<noteq> PErrHandoff fr g x"
    and bit: "panic_at (frames s') u"
  shows "panic_at (frames s) u"
proof (cases "\<exists>fr g r. p = PHandoff fr g r")
  case True
  with step consider "frames s' = frames s"
    | m where "transfer_front wake_front_task (frames s) (mx s) = Ret (frames s', m)"
    by (auto simp: step_pc_def step_handoff_def finish_ok_def split: res.splits)
  then show ?thesis
  proof cases
    case 2
    from ok_waker.transfer_wakes_head [OF this] bit show ?thesis
      by (auto simp: ok_waker.wake_panic split: if_splits)
  qed (use bit in simp)
next
  case False
  with step p bit show ?thesis
    by (cases p) (auto simp: machine_defs split: machine_splits TaskWaitResult.splits)
qed

lemma panic_carried:
  assumes "step_pc ch t p s = Some s'" "pcs s t = p" "carries_panic (pcs s' t)"
  shows "carries_panic p \<or> panic_at (frames s) t"
  using assms
  by (cases p)
    (auto simp: machine_defs pop_this_task_def bind_res_Ret wait_check_bits
      split: machine_splits TaskWaitResult.splits)

lemma panic_about_step:
  assumes step: "step_pc ch t (pcs s t) s = Some s'" and new: "panic_about s'" "\<not> panic_about s"
  shows "\<exists>fr g x. pcs s t = PErrHandoff fr g x"
proof (rule ccontr)
  assume "\<not> ?thesis"
  then have other: "\<And>fr g x. pcs s t \<noteq> PErrHandoff fr g x" by blast
  from new(1) consider u where "panic_at (frames s') u" | u where "carries_panic (pcs s' u)"
    unfolding panic_about_def by blast
  then have "panic_about s"
  proof cases
    case (1 u)
    with panic_bit_kept [OF step other] show ?thesis unfolding panic_about_def by blast
  next
    case (2 u)
    with panic_carried [OF step refl] step_other_pc [OF step, of u] show ?thesis
      unfolding panic_about_def by (cases "u = t") auto
  qed
  with new(2) show False ..
qed

text \<open>What happened on a schedule: a thread made a step from a program counter with a property.\<close>

definition passes ::
  "(('v, 'fs, 'm, 'u, 'r) pc \<Rightarrow> bool) \<Rightarrow> (tid \<times> choice) list \<Rightarrow> ('v, 'fs, 'm, 'u, 'r) sys \<Rightarrow> bool" where
  "passes P sched s \<longleftrightarrow> (\<exists>earlier t ch later s'.
     sched = earlier @ (t, ch) # later \<and> run earlier s = Some s' \<and> P (pcs s' t))"

fun callback_panics :: "('v, 'fs, 'm, 'u, 'r) pc \<Rightarrow> bool" where
  "callback_panics (PCallback fr h (CbPanic n)) = True"
| "callback_panics _ = False"

fun poison_handoff :: "PanicOptions \<Rightarrow> ('v, 'fs, 'm, 'u, 'r) pc \<Rightarrow> bool" where
  "poison_handoff opts (PErrHandoff fr g x) = poison_panic opts x"
| "poison_handoff opts _ = False"

lemma passes_now: "P (pcs s t) \<Longrightarrow> passes P ((t, ch) # sched) s"
  unfolding passes_def by (intro exI [of _ "[]"] exI [of _ t] exI [of _ ch] exI [of _ sched]) simp

lemma passes_later:
  assumes "thread_step ch t s = Some s1" "passes P sched s1" shows "passes P ((t, ch) # sched) s"
proof -
  obtain earlier u ch' later s' where
    "sched = earlier @ (u, ch') # later" "run earlier s1 = Some s'" "P (pcs s' u)"
    using assms(2) by (auto simp: passes_def)
  with assms(1) show ?thesis
    unfolding passes_def
    by (intro exI [of _ "(t, ch) # earlier"] exI [of _ u] exI [of _ ch'] exI [of _ later]) auto
qed

lemma panic_origin:
  "run sched s = Some s' \<Longrightarrow> reasons opts s \<Longrightarrow> \<not> panic_about s \<Longrightarrow> panic_about s' \<Longrightarrow>
     passes (poison_handoff opts) sched s"
proof (induction sched arbitrary: s)
  case (Cons x sched)
  obtain t ch where x: "x = (t, ch)" by (cases x)
  with Cons.prems obtain s1 where s1: "thread_step ch t s = Some s1" "run sched s1 = Some s'"
    by (auto split: option.splits)
  show ?case
  proof (cases "panic_about s1")
    case True
    from panic_about_step [OF thread_stepD [OF s1(1)] True Cons.prems(3)]
    obtain fr g y where pc: "pcs s t = PErrHandoff fr g y" by blast
    have "reason opts (holders s) (pcs s t)" using Cons.prems(2) by (simp add: reasons_def)
    with pc show ?thesis unfolding x by (intro passes_now) simp
  next
    case False
    have "reasons opts s1" by (rule reasons_step [OF sys_step.thread [OF s1(1)] Cons.prems(2)])
    from Cons.IH [OF s1(2) this False Cons.prems(4)] show ?thesis
      unfolding x by (rule passes_later [OF s1(1)])
  qed
qed simp

lemma no_verdict_after_panic:
  assumes r: "reachable fs opts msize esize ms clients s0" and sched: "run sched s0 = Some s"
    and panic: "passes callback_panics sched s0"
  shows "pcs s t \<noteq> PReturn fr g x"
proof
  assume pc: "pcs s t = PReturn fr g x"
  obtain earlier u ch later s1 where split: "sched = earlier @ (u, ch) # later"
    and s1: "run earlier s0 = Some s1" "callback_panics (pcs s1 u)"
    using panic by (auto simp: passes_def)
  obtain fr' h n where pc1: "pcs s1 u = PCallback fr' h (CbPanic n)"
    using s1(2) by (cases "pcs s1 u" rule: callback_panics.cases) auto
  have "run ((u, ch) # later) s1 = Some s" using sched s1(1) by (simp add: split run_append)
  then obtain s2 where s2: "thread_step ch u s1 = Some s2" "run later s2 = Some s"
    by (auto split: option.splits)
  have "reachable fs opts msize esize ms clients s1"
    using r reach_trans [OF run_reach [OF s1(1)]] by (auto simp: reachable_def)
  from panic_freezes [OF this pc1 s2(1) run_reach [OF s2(2)]]
  have inv: "sys_inv s" and leaked: "holder (mutexes s (mutex_address (cq s))) = Leaked u"
    by (auto simp: frozen_def)
  have "guard_of (pcs s t) = Some (mutex_address (cq s))"
    using invD(3,4) [OF inv, of t] by (simp add: pc)
  with invD(2) [OF inv] leaked show False
    unfolding guards_inv_def holders_def guards_def by (metis hold.distinct(5))
qed

text \<open>
  C36. \<open>ProcessingPanicked\<close> is never told because of a panic. On every run at the end of which a
  call returns \<open>ProcessingPanicked\<close>, no callback has panicked, of whatever thread; what has
  happened is the hand-over of a call that found the queue or the mutex poisoned and raised a
  panic over that. The documentation says that the value was being processed by a callback that
  panicked.
\<close>

theorem spurious_processing_panicked:
  assumes ok: "\<And>t. client_ok (clients t)"
    and sched: "run sched (initial fs opts msize esize ms clients) = Some s"
    and told: "pcs s t = PReturn fr g ProcessingPanicked"
  shows "\<not> passes callback_panics sched (initial fs opts msize esize ms clients) \<and>
    passes (poison_handoff opts) sched (initial fs opts msize esize ms clients)"
proof
  let ?s0 = "initial fs opts msize esize ms clients"
  have "reachable fs opts msize esize ms clients ?s0" using ok by (auto simp: reachable_def intro: reach_refl)
  from no_verdict_after_panic [OF this sched] told show "\<not> passes callback_panics sched ?s0" by blast
  have "\<not> panic_about ?s0" by (simp add: panic_about_def initial_def panic_at_def)
  moreover have "panic_about s" using told by (auto simp: panic_about_def intro: exI [of _ t])
  ultimately show "passes (poison_handoff opts) sched ?s0"
    by (rule panic_origin [OF sched reasons_initial [OF ok]])
qed

text \<open>
  Such a run: thread 1 finds the queue poisoned and passes the permission on with the panic bit,
  and the poison is cleared before thread 2 looks, whose value was processed by thread 0.
\<close>

definition spurious_schedule :: "(tid \<times> choice) list" where
  "spurious_schedule = poisoned_schedule @ by_threads
     [0, 0, 0, 1, 1, 1, 1, 1, 1, 2, 2, 2, 2, 2, 2, 0, 0, 0, 0, 0, 0, 0,
      1, 1, 1, 1, 1, 1, 1, 1, 1, 1, 2, 2, 2, 2, 2, 2]"

lemma spurious_run:
  "\<exists>s. run spurious_schedule poison_clients_start = Some s \<and>
     pcs s 2 = PReturn (Frame 8 12 CbReturn (ByLockAndProcess (\<lambda>_. Exit))) (Guard 8 False)
       ProcessingPanicked"
  by (simp add: poison_clients_simps spurious_schedule_def poisoned_schedule_def
      handle_pop_def vd_get_def erased_take_def erased_new_def erased_inner_def
      erased_into_inner_def pop_this_task_def vd_pop_front_def
      ok_waker.wait_check_wake panic_waker.wait_check_wake ok_waker.wake_condvar
      panic_waker.wake_condvar notify_one_def)

theorem spurious_processing_panicked_witness:
  "\<exists>s fr g. run spurious_schedule poison_clients_start = Some s \<and>
     pcs s 2 = PReturn fr g ProcessingPanicked \<and>
     \<not> passes callback_panics spurious_schedule poison_clients_start \<and>
     passes (poison_handoff default_options) spurious_schedule poison_clients_start"
proof -
  obtain s where s: "run spurious_schedule poison_clients_start = Some s"
    "pcs s 2 = PReturn (Frame 8 12 CbReturn (ByLockAndProcess (\<lambda>_. Exit))) (Guard 8 False)
       ProcessingPanicked" using spurious_run by blast
  from spurious_processing_panicked [OF poison_clients_ok s(1) [unfolded poison_clients_start_def] s(2)] s
  show ?thesis unfolding poison_clients_start_def by blast
qed

end
