(* ===== verification/Spec2Isabelle.thy ===== *)
theory Spec2Isabelle
  imports Defects
begin

text \<open>
  Verification of \<open>contention-queue\<close>, a queue in which threads that contend for a resource
  line up, and in which the thread whose task is being processed may take over the values of
  the tasks behind it.

  \<^bold>\<open>The program.\<close> A \<open>ContentionQueue\<close> (\<open>src/queue.rs\<close>) keeps its state in two cells without
  a lock of their own (\<open>src/externally_synchronized.rs\<close>): \<open>mutex_exclusive\<close>, protected by a
  mutex that the caller passes to every call, and \<open>front_exclusive\<close>, protected by a permission
  that one thread at a time owns (\<open>src/queue_state.rs\<close>). \<open>process\<close> takes the permission if it is
  free (the fast path); otherwise it pushes a task that refers to a \<open>TaskState\<close> on its stack
  (\<open>src/task.rs\<close>, \<open>src/task_state.rs\<close>), waits until the front bit of that state is set, and pops
  its task. It then runs the caller's callback, which gets a \<open>QueueHandle\<close>
  (\<open>src/queue_handle.rs\<close>) to pop the values of later tasks and to release the mutex for a while.
  At the end it wakes the thread at the head of the queue, which thereby owns the permission, or
  releases the permission. Panics poison the queue and are passed on as \<open>src/interface.rs\<close> and
  \<open>src/poisoning.rs\<close> say.

  \<^bold>\<open>The model.\<close> The sequential parts are functions on records that have the fields of the Rust
  structs; an operation that may return, unwind or be undefined behaviour has a result in
  \<open>'a res\<close>.
  \<^item> \<open>Interface\<close>: \<open>src/interface.rs\<close>. A callback is the tree of the methods it calls.
  \<^item> \<open>Externally_Synchronized\<close>: \<open>src/externally_synchronized.rs\<close>; the laws of a mutable borrow are
    the locale \<open>place\<close>, and of a place inside a place \<open>nested_place\<close>.
  \<^item> \<open>Task_State\<close>, \<open>Task\<close>, \<open>Queue_State\<close>, \<open>Poisoning\<close>: the files of these names. The contract
    the two wake-ups share is the locale \<open>front_waker\<close>. The standard library's \<open>Condvar\<close> is the
    list of the threads waiting in it, its \<open>Mutex\<close> is free, held or leaked.
  \<^item> \<open>Queue_Handle\<close>: the methods of \<open>QueueHandle\<close>; as an iterator over the values that are left it
    is an instance of the locale \<open>draining\<close>.
  \<^item> \<open>Queue\<close>: the fields of \<open>ContentionQueue\<close>, the mutex check, and the fragments that
    \<open>process_unchecked\<close> and its callees execute without interruption.
  \<^item> \<open>Machine\<close>, \<open>Steps\<close>: any number of threads, each running a client program and interleaved step
    by step. A program counter is a point of the code between two fragments, and there is one
    \<open>step_\<close> function per program counter. Locking a mutex that is not free is no step.
    The environment chooses spurious wake-ups, failing allocations, and whether locking a mutex
    again on the same thread blocks or panics.

  \<^bold>\<open>The proofs.\<close> \<open>Protocol\<close> states the hand-over of the permission as an invariant of the
  threads' stages, their stack frames and the queue, with one lemma per transition. \<open>Invariants\<close>
  reads stages, guards and mutexes off the program counters and defines the invariant of the
  machine; \<open>Preservation\<close> and \<open>Preservation_Front\<close> show that every step keeps it
  (\<open>interpretation machine: invariant\<close>). \<open>Scenarios\<close> is a run with two threads whose states
  instantiate the properties.
  \<^item> \<open>Safety\<close>: no undefined behaviour; the state behind the mutex is used by one thread at a time
    and the permission has one owner; the queue's references to stack frames are live; the
    popped tasks are a prefix of the queue.
  \<^item> \<open>Progress\<close>: no wake-up is lost, and there is no deadlock unless a guard is leaked.
  \<^item> \<open>Termination\<close>: there is no infinite run without spurious wake-ups. What a thread can do next
    is a well-founded relation on program counters (the wait loop goes round only until the
    front bit is set), and the measure of a state is the multiset of what its threads still
    have to do.
  \<^item> \<open>Completion\<close>: if no callback panics and no guard is forgotten, every call returns under every
    schedule. A property of program counters that the relation of \<open>Termination\<close> keeps is an
    invariant (locale \<open>pc_closed\<close>).
  \<^item> \<open>Monitor\<close>: the machine refines an abstract FIFO monitor (locale \<open>simulation\<close>): each step changes
    the abstract state as a function of the program counter says (\<open>monitor_effect\<close>).
  \<^item> \<open>Traces\<close>: along every schedule, the values delivered are the values that queued, in order;
    no task overtakes another.
  \<^item> \<open>Calls\<close>, \<open>Uncontended\<close>: what each operation on the queue does on every branch, and that a
    call which meets no other thread is equivalent to running its callback.
  \<^item> \<open>Errors\<close>: the error paths. \<open>Aborts\<close>: what the abort guard covers, and exactly when the
    process aborts.
  \<^item> \<open>Provenance\<close>: a callback is run on its own thread's value; what sets and clears the poison
    of the queue and of the mutex. \<open>Verdicts\<close>: with \<open>unwrap_queue_poison\<close> off \<open>ProcessingPanicked\<close> is never
    returned.
  \<^item> \<open>Callback_Semantics\<close>: what the author of a callback may assume. Seen by the thread of a
    callback, the machine refines a sequential semantics of callbacks in which others act only
    while the mutex is unlocked, and then only append values.
  \<^item> \<open>Wait_Table\<close>: the table in the documentation of \<open>TaskState\<close> as a definition, which the code of
    the slow path follows; and who writes to a \<open>TaskState\<close>.
  \<^item> \<open>Call_Lifecycle\<close>: what the caller may assume. One call is an automaton from its arrival to its
    verdict, which the machine refines; the verdict is the truth about what was done with the
    call's value, which is processed once.
  \<^item> \<open>Turn_Order\<close>: a queued thread waits for the turns of those ahead of it and for no others.
  \<^item> \<open>Debugging\<close>: the \<open>Debug\<close> implementations, and that formatting reads nothing that is not
    there.
  \<^item> \<open>Defects\<close>: where the code departs from its documentation. The most serious: a panic of the
    callback leaks the guard, so the queue is stuck for ever instead of being poisoned, and
    \<open>process\<close> accepts a guard of another mutex, which breaks the exclusion. Also, the queue's poison
    is ignored on the fast path, and \<open>ProcessingPanicked\<close> is never told because of a panic.

  \<^bold>\<open>Assumptions and bounds.\<close> The properties of reachable states are about clients that pass
  \<open>process\<close> a guard of the mutex they pass (\<open>client_ok\<close>); \<open>Defects\<close> shows that this cannot be
  left out. The number of threads, calls, mutexes and queued tasks is not bounded; the length of
  the queue is limited only by \<open>max_len\<close>, the most elements an allocation of \<open>isize::MAX\<close> bytes
  holds, and from that bound \<open>next_idx\<close>, kept as a 64-bit word, cannot wrap around. There is no
  fuel: a schedule is an explicit list, and progress and termination are theorems about the step
  relation. They need finitely many unfinished threads; that every call returns needs in
  addition callbacks that do not panic, guards that are not forgotten, and room in the queue for
  one task per thread. The
  methods a callback calls and the calls a client makes form trees with finite paths: user code
  that loops for ever is not modelled.

  \<^bold>\<open>Not modelled.\<close> Lifetimes and variance, which have no run-time content; the messages
  printed before an abort and the indented form of debug output; callbacks that submit a task to
  the queue that runs them, or lock the mutex they hold (closures of \<open>unlocked\<close> may lock any mutex,
  drop or forget the guard, and call the accessors of the queue's poison); a thread that holds
  guards of two mutexes at once, so also a closure that returns a guard of another mutex to its
  callback (one that returns a guard of the queue's mutex behaves as if it forgot it, since
  \<open>unlocked\<close> does not return); a panic of a client's own \<open>lock\<close> of a mutex it has leaked, which waits
  instead; moving a mutex between calls;
  weak memory (the only atomic is the mutex address, which orders nothing); and panics of the
  destructors of values.
\<close>

end
